(* ===== verification/Prelude.thy ===== *)
theory Prelude
  imports Main "HOL-Library.Word"
begin

text \<open>
  Shared vocabulary of the development: Go's unsigned integer types as machine words, byte
  slices as lists of bytes, a Go \<open>(value, error)\<close> result as a sum whose left summand is the
  error, and the cursor of a \<open>bytes.Reader\<close> as the list of the bytes that are still to be read.
  The theory also holds the generic lemmas on words and lists that several components use and
  the \<open>named_theorems\<close> collections the component proofs are driven by.
\<close>

unbundle bit_operations_syntax

text \<open>
  \<open>codec\<close> collects what reading back written bytes gives and how long written bytes are;
  \<open>frame_defs\<close> the definitions of the frame writers, parsers and lengths.
\<close>

named_theorems codec
named_theorems frame_defs

subsection \<open>Go's integer types\<close>

type_synonym u8 = "8 word"
type_synonym u16 = "16 word"
type_synonym u32 = "32 word"
type_synonym u64 = "64 word"
type_synonym byte = u8
type_synonym bytes = "byte list"

type_synonym PacketNumber = u64
type_synonym PacketNumberLen = u8
type_synonym ByteCount = u64
type_synonym StreamID = u32
type_synonym PathID = u8
type_synonym ConnectionID = u64
type_synonym VersionNumber = int

text \<open>Durations and instants are nanosecond counts; the zero \<open>time.Time\<close> is \<open>None\<close>.\<close>

type_synonym Duration = int
type_synonym Time = int

text \<open>
  Go's signed 64-bit arithmetic: \<open>wrap64\<close> is the wrap-around of an \<open>int64\<close> result, \<open>go_div\<close>
  the division that truncates towards zero. \<open>time.Since\<close> saturates, and it saturates at the
  zero time.
\<close>

definition wrap64 :: "int \<Rightarrow> int" where
  "wrap64 i = (i + 2 ^ 63) mod 2 ^ 64 - 2 ^ 63"

definition go_div :: "int \<Rightarrow> int \<Rightarrow> int" where
  "go_div a b = sgn a * sgn b * (\<bar>a\<bar> div \<bar>b\<bar>)"

definition Microsecond :: Duration where "Microsecond = 1000"

definition Millisecond :: Duration where "Millisecond = 1000000"

definition Second :: Duration where "Second = 1000000000"

definition time_Since :: "Time \<Rightarrow> Time option \<Rightarrow> Duration" where
  "time_Since now t =
     (case t of None \<Rightarrow> 2 ^ 63 - 1 | Some t \<Rightarrow> max (- (2 ^ 63)) (min (2 ^ 63 - 1) (now - t)))"

lemma wrap64_id [simp]: "- (2 ^ 63) \<le> i \<Longrightarrow> i < 2 ^ 63 \<Longrightarrow> wrap64 i = i"
  by (simp add: wrap64_def)

lemma go_div_nonneg [simp]: "0 \<le> a \<Longrightarrow> 0 < b \<Longrightarrow> go_div a b = a div b"
  by (cases "a = 0") (simp_all add: go_div_def)

subsection \<open>Errors\<close>

text \<open>
  The error values of the modelled packages. \<open>QuicError c\<close> stands for
  \<open>qerr.Error(c, message)\<close> and for an \<open>ErrorCode\<close> used as an error; messages are not modelled.
  \<open>Panic\<close> is a run-time panic (explicit, or an index out of range).
\<close>

datatype error =
    EOF
  | UnexpectedEOF
  | Panic
  | QuicError u32
  | ErrInvalidAckRanges
  | ErrInvalidFirstAckRange
  | ErrInconsistentAckLargestAcked
  | ErrInconsistentAckLowestAcked
  | ErrInconsistentNumAckRanges
  | ErrEmptyFrameWithoutFin
  | ErrInvalidStreamIDLen
  | ErrInvalidOffsetLen
  | ErrLeastUnackedHigherThanPacketNumber
  | ErrPacketNumberNotSet
  | ErrPacketNumberLenNotSet
  | ErrReasonPhraseTooLong
  | ErrUnknownIPVersion
  | ErrInconsistentAddrIPVersion
  | ErrTooManyPaths
  | ErrPathsNumber
  | ErrMissingRTT
  | ErrPacketWithUnknownVersion
  | ErrResetAndVersionFlagSet
  | ErrGetLengthNotForVersionNegotiation
  | ErrInvalidNonceLength
  | ErrCongestionFeedback
  | ErrInvalidPacketNumber
  | ErrDuplicateOrOutOfOrderAck
  | ErrTooManyTrackedSentPackets
  | ErrPacketNumberNotIncreasing
  | ErrAckedWrongPacket
  | ErrTooManyGapsInReceivedStreamData
  | ErrDuplicateStreamData
  | ErrEmptyStreamData
  | ErrSorterNoGap
  | ErrSorterNoEndGap
  | ErrReceivedSmallerByteOffset
  | ErrMapAccess
  | ErrStreamExists
  | ErrStreamNotExisting
  | ErrAuthentication
  | ErrPeekedPoppedMismatch
  | ErrWrongPublicResetTag
  | ErrMissingTag u32
  | ErrInvalidTag u32
  | ErrNoSecureAEAD
  | ErrNoForwardSecureAEAD
  | ErrNoEncryptionLevel

subsection \<open>Sequencing of fallible computations\<close>

text \<open>\<open>x, err := m; if err != nil { return err }; k(x)\<close>\<close>

definition bindE :: "'e + 'a \<Rightarrow> ('a \<Rightarrow> 'e + 'b) \<Rightarrow> 'e + 'b" where
  "bindE m k = (case m of Inl e \<Rightarrow> Inl e | Inr x \<Rightarrow> k x)"

lemma bindE_simps [simp]:
  "bindE (Inl e) k = Inl e"
  "bindE (Inr x) k = k x"
  by (simp_all add: bindE_def)

lemma bindE_cong [fundef_cong]:
  "m = m' \<Longrightarrow> (\<And>x. m' = Inr x \<Longrightarrow> k x = k' x) \<Longrightarrow> bindE m k = bindE m' k'"
  by (cases m') auto

lemma bindE_eq_Inr: "bindE m k = Inr y \<longleftrightarrow> (\<exists>x. m = Inr x \<and> k x = Inr y)"
  by (cases m) auto

lemma bindE_eq_Inl: "bindE m k = Inl e \<longleftrightarrow> m = Inl e \<or> (\<exists>x. m = Inr x \<and> k x = Inl e)"
  by (cases m) auto

definition mapE :: "('e \<Rightarrow> 'f) \<Rightarrow> 'e + 'a \<Rightarrow> 'f + 'a" where
  "mapE g m = (case m of Inl e \<Rightarrow> Inl (g e) | Inr x \<Rightarrow> Inr x)"

lemma mapE_simps [simp]:
  "mapE g (Inl e) = Inl (g e)"
  "mapE g (Inr x) = Inr x"
  by (simp_all add: mapE_def)

subsection \<open>The cursor of a byte reader\<close>

text \<open>\<open>bytes.Reader.ReadByte\<close> and \<open>io.ReadFull\<close>.\<close>

fun ReadByte :: "bytes \<Rightarrow> error + byte \<times> bytes" where
  "ReadByte [] = Inl EOF"
| "ReadByte (b # r) = Inr (b, r)"

definition ReadFull :: "nat \<Rightarrow> bytes \<Rightarrow> error + bytes \<times> bytes" where
  "ReadFull n r =
     (if n \<le> length r then Inr (take n r, drop n r)
      else if r = [] then Inl EOF
      else Inl UnexpectedEOF)"

lemma ReadFull_append [simp]: "length d = n \<Longrightarrow> ReadFull n (d @ r) = Inr (d, r)"
  by (simp add: ReadFull_def)

lemma ReadByte_length: "ReadByte r = Inr (b, r') \<Longrightarrow> length r = Suc (length r')"
  by (cases r) auto

lemma ReadFull_length: "ReadFull n r = Inr (d, r') \<Longrightarrow> length r = length r' + n"
  by (auto simp: ReadFull_def split: if_splits)

text \<open>
  A parser never hands back more bytes than it was given: \<open>within n m\<close> says that a successful
  \<open>m\<close> leaves at most \<open>n\<close> bytes, and the rules of \<open>within_intros\<close> follow the program text.
\<close>

definition within :: "nat \<Rightarrow> error + 'a \<times> bytes \<Rightarrow> bool" where
  "within n m \<longleftrightarrow> (\<forall>x s. m = Inr (x, s) \<longrightarrow> length s \<le> n)"

lemma within_bindE:
  "within n m \<Longrightarrow> (\<And>x s. length s \<le> n \<Longrightarrow> within n (k x s)) \<Longrightarrow>
   within n (bindE m (\<lambda>(x, s). k x s))"
  by (auto simp: within_def bindE_eq_Inr)

lemma within_case_prod: "(\<And>x y. p = (x, y) \<Longrightarrow> within n (k x y)) \<Longrightarrow> within n (case p of (x, y) \<Rightarrow> k x y)"
  by (cases p) simp

lemma within_case_prod_app:
  "(\<And>x y. p = (x, y) \<Longrightarrow> within n (k x y s)) \<Longrightarrow> within n ((case p of (x, y) \<Rightarrow> k x y) s)"
  by (cases p) simp

lemma within_if: "within n a \<Longrightarrow> within n b \<Longrightarrow> within n (if c then a else b)"
  by simp

lemma within_Inl: "within n (Inl e)"
  by (simp add: within_def)

lemma within_Inr: "length s \<le> n \<Longrightarrow> within n (Inr (x, s))"
  by (simp add: within_def)

lemma within_ReadByte: "length r \<le> n \<Longrightarrow> within n (ReadByte r)"
  by (auto simp: within_def dest: ReadByte_length)

lemma within_ReadFull: "length r \<le> n \<Longrightarrow> within n (ReadFull k r)"
  by (auto simp: within_def dest: ReadFull_length)

named_theorems within_intros

lemmas within_basic [within_intros] =
  within_bindE within_case_prod within_case_prod_app within_if within_Inl within_Inr
  within_ReadByte within_ReadFull

text \<open>A parser that starts with a type byte consumes it.\<close>

lemma consumes_type_byte:
  assumes "bindE (ReadByte r) (\<lambda>(t, s). k t s) = Inr (f, r')" "\<And>t s. within (length s) (k t s)"
  shows "length r' < length r"
  using assms by (fastforce simp: bindE_eq_Inr within_def less_Suc_eq_le dest!: ReadByte_length)

subsection \<open>Words\<close>

lemma u64_Suc: "(p::u64) < q \<Longrightarrow> unat (p + 1) = Suc (unat p)"
  by unat_arith

lemma u64_pred: "(p::u64) \<noteq> 0 \<Longrightarrow> unat (p - 1) = unat p - 1"
  by unat_arith

lemma u64_diff: "(b::u64) \<le> a \<Longrightarrow> unat (a - b) = unat a - unat b"
  by unat_arith

lemma unat_u64_less [simp]: "unat (w::u64) < 18446744073709551616"
  using unsigned_less [of w] by simp

lemma unat_u32_less [simp]: "unat (w::u32) < 4294967296"
  using unsigned_less [of w] by simp

lemma unat_u16_less [simp]: "unat (w::u16) < 65536"
  using unsigned_less [of w] by simp

lemma unat_u8_less [simp]: "unat (w::u8) < 256"
  using unsigned_less [of w] by simp

lemma u64_of_nat_unat: "n < 18446744073709551616 \<Longrightarrow> unat (of_nat n :: u64) = n"
  by (simp add: unat_of_nat)

lemma unat_ucast_u64:
  "unat (ucast (x::u32) :: u64) = unat x"
  "unat (ucast (y::u16) :: u64) = unat y"
  "unat (ucast (z::u8) :: u64) = unat z"
  by (simp_all add: unsigned_ucast_eq take_bit_nat_eq_self_iff
      order.strict_trans [OF unat_u32_less] order.strict_trans [OF unat_u16_less]
      order.strict_trans [OF unat_u8_less])

lemma unat_u64_2p: "n < 64 \<Longrightarrow> unat ((2::u64) ^ n) = 2 ^ n"
proof -
  assume "n < 64"
  then have "(2::nat) ^ n < 2 ^ 64" by (rule power_strict_increasing) simp
  moreover have "unat (of_nat (2 ^ n) :: u64) = 2 ^ n mod 2 ^ 64" by (simp only: unat_of_nat) simp
  ultimately show ?thesis by simp
qed

lemma unat_drop_bit: "unat (drop_bit n (w::'a::len word)) = unat w div 2 ^ n"
  unfolding unsigned_drop_bit_eq
  by (simp only: take_bit_nat_eq_self [OF unsigned_less] drop_bit_eq_div)

lemma unat_eq_of_nat: "unat (w::'a::len word) = n \<Longrightarrow> w = of_nat n"
  by auto

end
