(* ===== verification/Byte_Order.thy ===== *)
theory Byte_Order
  imports Prelude
begin

text \<open>
  \<open>internal/utils/byteorder.go\<close>, \<open>byteorder_little_endian.go\<close> and
  \<open>byteorder_big_endian.go\<close>. The Go interface \<open>ByteOrder\<close> is a record of its methods, and
  \<open>littleEndian\<close> and \<open>bigEndian\<close> are its two values. What the frame code relies on is the locale
  \<open>byte_order_laws\<close> (reading back what was written returns the value and the rest of the
  buffer; a short buffer is an end of file; every writer has a fixed width), interpreted on both
  values and on \<open>GetByteOrder v\<close> for every version \<open>v\<close>.
\<close>

subsection \<open>The interface\<close>

record byte_order =
  ReadUintN :: "u8 \<Rightarrow> bytes \<Rightarrow> error + u64 \<times> bytes"
  ReadUint64 :: "bytes \<Rightarrow> error + u64 \<times> bytes"
  ReadUint32 :: "bytes \<Rightarrow> error + u32 \<times> bytes"
  ReadUint16 :: "bytes \<Rightarrow> error + u16 \<times> bytes"
  WriteUint64 :: "u64 \<Rightarrow> bytes"
  WriteUint56 :: "u64 \<Rightarrow> error + bytes"
  WriteUint48 :: "u64 \<Rightarrow> error + bytes"
  WriteUint40 :: "u64 \<Rightarrow> error + bytes"
  WriteUint32 :: "u32 \<Rightarrow> bytes"
  WriteUint24 :: "u32 \<Rightarrow> error + bytes"
  WriteUint16 :: "u16 \<Rightarrow> bytes"

subsection \<open>Little endian\<close>

text \<open>The loop of \<open>ReadUintN\<close>; the shift count \<open>i * 8\<close> is computed in \<open>uint8\<close>.\<close>

fun le_ReadUintN_loop :: "nat \<Rightarrow> u8 \<Rightarrow> u64 \<Rightarrow> bytes \<Rightarrow> error + u64 \<times> bytes" where
  "le_ReadUintN_loop 0 i res b = Inr (res, b)"
| "le_ReadUintN_loop (Suc n) i res b =
     bindE (ReadByte b) (\<lambda>(bt, b).
       le_ReadUintN_loop n (i + 1) (res XOR push_bit (unat (i * 8)) (ucast bt)) b)"

definition le_ReadUintN :: "u8 \<Rightarrow> bytes \<Rightarrow> error + u64 \<times> bytes" where
  "le_ReadUintN len b = le_ReadUintN_loop (unat len) 0 0 b"

definition le_ReadUint64 :: "bytes \<Rightarrow> error + u64 \<times> bytes" where
  "le_ReadUint64 b =
     bindE (ReadByte b) (\<lambda>(b1, b).
     bindE (ReadByte b) (\<lambda>(b2, b).
     bindE (ReadByte b) (\<lambda>(b3, b).
     bindE (ReadByte b) (\<lambda>(b4, b).
     bindE (ReadByte b) (\<lambda>(b5, b).
     bindE (ReadByte b) (\<lambda>(b6, b).
     bindE (ReadByte b) (\<lambda>(b7, b).
     bindE (ReadByte b) (\<lambda>(b8, b).
       Inr (ucast b1 + push_bit 8 (ucast b2) + push_bit 16 (ucast b3) + push_bit 24 (ucast b4)
            + push_bit 32 (ucast b5) + push_bit 40 (ucast b6) + push_bit 48 (ucast b7)
            + push_bit 56 (ucast b8), b)))))))))"

definition le_ReadUint32 :: "bytes \<Rightarrow> error + u32 \<times> bytes" where
  "le_ReadUint32 b =
     bindE (ReadByte b) (\<lambda>(b1, b).
     bindE (ReadByte b) (\<lambda>(b2, b).
     bindE (ReadByte b) (\<lambda>(b3, b).
     bindE (ReadByte b) (\<lambda>(b4, b).
       Inr (ucast b1 + push_bit 8 (ucast b2) + push_bit 16 (ucast b3) + push_bit 24 (ucast b4),
            b)))))"

definition le_ReadUint16 :: "bytes \<Rightarrow> error + u16 \<times> bytes" where
  "le_ReadUint16 b =
     bindE (ReadByte b) (\<lambda>(b1, b).
     bindE (ReadByte b) (\<lambda>(b2, b).
       Inr (ucast b1 + push_bit 8 (ucast b2), b)))"

definition le_WriteUint64 :: "u64 \<Rightarrow> bytes" where
  "le_WriteUint64 i =
     [ucast i, ucast (drop_bit 8 i), ucast (drop_bit 16 i), ucast (drop_bit 24 i),
      ucast (drop_bit 32 i), ucast (drop_bit 40 i), ucast (drop_bit 48 i),
      ucast (drop_bit 56 i)]"

definition le_WriteUint56 :: "u64 \<Rightarrow> error + bytes" where
  "le_WriteUint56 i =
     (if i \<ge> push_bit 56 1 then Inl Panic
      else Inr [ucast i, ucast (drop_bit 8 i), ucast (drop_bit 16 i), ucast (drop_bit 24 i),
                ucast (drop_bit 32 i), ucast (drop_bit 40 i), ucast (drop_bit 48 i)])"

definition le_WriteUint48 :: "u64 \<Rightarrow> error + bytes" where
  "le_WriteUint48 i =
     (if i \<ge> push_bit 48 1 then Inl Panic
      else Inr [ucast i, ucast (drop_bit 8 i), ucast (drop_bit 16 i), ucast (drop_bit 24 i),
                ucast (drop_bit 32 i), ucast (drop_bit 40 i)])"

definition le_WriteUint40 :: "u64 \<Rightarrow> error + bytes" where
  "le_WriteUint40 i =
     (if i \<ge> push_bit 40 1 then Inl Panic
      else Inr [ucast i, ucast (drop_bit 8 i), ucast (drop_bit 16 i),
                ucast (drop_bit 24 i), ucast (drop_bit 32 i)])"

definition le_WriteUint32 :: "u32 \<Rightarrow> bytes" where
  "le_WriteUint32 i =
     [ucast i, ucast (drop_bit 8 i), ucast (drop_bit 16 i), ucast (drop_bit 24 i)]"

definition le_WriteUint24 :: "u32 \<Rightarrow> error + bytes" where
  "le_WriteUint24 i =
     (if i \<ge> push_bit 24 1 then Inl Panic
      else Inr [ucast i, ucast (drop_bit 8 i), ucast (drop_bit 16 i)])"

definition le_WriteUint16 :: "u16 \<Rightarrow> bytes" where
  "le_WriteUint16 i = [ucast i, ucast (drop_bit 8 i)]"

definition LittleEndian :: byte_order where
  "LittleEndian =
     \<lparr>ReadUintN = le_ReadUintN, ReadUint64 = le_ReadUint64, ReadUint32 = le_ReadUint32,
      ReadUint16 = le_ReadUint16, WriteUint64 = le_WriteUint64, WriteUint56 = le_WriteUint56,
      WriteUint48 = le_WriteUint48, WriteUint40 = le_WriteUint40, WriteUint32 = le_WriteUint32,
      WriteUint24 = le_WriteUint24, WriteUint16 = le_WriteUint16\<rparr>"

subsection \<open>Big endian\<close>

fun be_ReadUintN_loop :: "nat \<Rightarrow> u8 \<Rightarrow> u8 \<Rightarrow> u64 \<Rightarrow> bytes \<Rightarrow> error + u64 \<times> bytes" where
  "be_ReadUintN_loop 0 len i res b = Inr (res, b)"
| "be_ReadUintN_loop (Suc n) len i res b =
     bindE (ReadByte b) (\<lambda>(bt, b).
       be_ReadUintN_loop n len (i + 1)
         (res XOR push_bit (unat ((len - 1 - i) * 8)) (ucast bt)) b)"

definition be_ReadUintN :: "u8 \<Rightarrow> bytes \<Rightarrow> error + u64 \<times> bytes" where
  "be_ReadUintN len b = be_ReadUintN_loop (unat len) len 0 0 b"

definition be_ReadUint64 :: "bytes \<Rightarrow> error + u64 \<times> bytes" where
  "be_ReadUint64 b =
     bindE (ReadByte b) (\<lambda>(b8, b).
     bindE (ReadByte b) (\<lambda>(b7, b).
     bindE (ReadByte b) (\<lambda>(b6, b).
     bindE (ReadByte b) (\<lambda>(b5, b).
     bindE (ReadByte b) (\<lambda>(b4, b).
     bindE (ReadByte b) (\<lambda>(b3, b).
     bindE (ReadByte b) (\<lambda>(b2, b).
     bindE (ReadByte b) (\<lambda>(b1, b).
       Inr (ucast b1 + push_bit 8 (ucast b2) + push_bit 16 (ucast b3) + push_bit 24 (ucast b4)
            + push_bit 32 (ucast b5) + push_bit 40 (ucast b6) + push_bit 48 (ucast b7)
            + push_bit 56 (ucast b8), b)))))))))"

definition be_ReadUint32 :: "bytes \<Rightarrow> error + u32 \<times> bytes" where
  "be_ReadUint32 b =
     bindE (ReadByte b) (\<lambda>(b4, b).
     bindE (ReadByte b) (\<lambda>(b3, b).
     bindE (ReadByte b) (\<lambda>(b2, b).
     bindE (ReadByte b) (\<lambda>(b1, b).
       Inr (ucast b1 + push_bit 8 (ucast b2) + push_bit 16 (ucast b3) + push_bit 24 (ucast b4),
            b)))))"

definition be_ReadUint16 :: "bytes \<Rightarrow> error + u16 \<times> bytes" where
  "be_ReadUint16 b =
     bindE (ReadByte b) (\<lambda>(b2, b).
     bindE (ReadByte b) (\<lambda>(b1, b).
       Inr (ucast b1 + push_bit 8 (ucast b2), b)))"

definition be_WriteUint64 :: "u64 \<Rightarrow> bytes" where
  "be_WriteUint64 i =
     [ucast (drop_bit 56 i), ucast (drop_bit 48 i), ucast (drop_bit 40 i),
      ucast (drop_bit 32 i), ucast (drop_bit 24 i), ucast (drop_bit 16 i),
      ucast (drop_bit 8 i), ucast i]"

definition be_WriteUint56 :: "u64 \<Rightarrow> error + bytes" where
  "be_WriteUint56 i =
     (if i \<ge> push_bit 56 1 then Inl Panic
      else Inr [ucast (drop_bit 48 i), ucast (drop_bit 40 i), ucast (drop_bit 32 i),
                ucast (drop_bit 24 i), ucast (drop_bit 16 i), ucast (drop_bit 8 i), ucast i])"

definition be_WriteUint48 :: "u64 \<Rightarrow> error + bytes" where
  "be_WriteUint48 i =
     (if i \<ge> push_bit 48 1 then Inl Panic
      else Inr [ucast (drop_bit 40 i), ucast (drop_bit 32 i),
                ucast (drop_bit 24 i), ucast (drop_bit 16 i), ucast (drop_bit 8 i), ucast i])"

definition be_WriteUint40 :: "u64 \<Rightarrow> error + bytes" where
  "be_WriteUint40 i =
     (if i \<ge> push_bit 40 1 then Inl Panic
      else Inr [ucast (drop_bit 32 i),
                ucast (drop_bit 24 i), ucast (drop_bit 16 i), ucast (drop_bit 8 i), ucast i])"

definition be_WriteUint32 :: "u32 \<Rightarrow> bytes" where
  "be_WriteUint32 i =
     [ucast (drop_bit 24 i), ucast (drop_bit 16 i), ucast (drop_bit 8 i), ucast i]"

definition be_WriteUint24 :: "u32 \<Rightarrow> error + bytes" where
  "be_WriteUint24 i =
     (if i \<ge> push_bit 24 1 then Inl Panic
      else Inr [ucast (drop_bit 16 i), ucast (drop_bit 8 i), ucast i])"

definition be_WriteUint16 :: "u16 \<Rightarrow> bytes" where
  "be_WriteUint16 i = [ucast (drop_bit 8 i), ucast i]"

definition BigEndian :: byte_order where
  "BigEndian =
     \<lparr>ReadUintN = be_ReadUintN, ReadUint64 = be_ReadUint64, ReadUint32 = be_ReadUint32,
      ReadUint16 = be_ReadUint16, WriteUint64 = be_WriteUint64, WriteUint56 = be_WriteUint56,
      WriteUint48 = be_WriteUint48, WriteUint40 = be_WriteUint40, WriteUint32 = be_WriteUint32,
      WriteUint24 = be_WriteUint24, WriteUint16 = be_WriteUint16\<rparr>"

text \<open>From QUIC 39 on, values are big endian on the wire.\<close>

definition Version39 :: VersionNumber where
  "Version39 = 39"

definition GetByteOrder :: "VersionNumber \<Rightarrow> byte_order" where
  "GetByteOrder v = (if v < Version39 then LittleEndian else BigEndian)"

subsection \<open>Little-endian byte lists as a reference\<close>

text \<open>\<open>le_word\<close> is the number a list of bytes denotes, \<open>le_bytes n w\<close> the low \<open>n\<close> bytes of \<open>w\<close>.\<close>

primrec le_word :: "bytes \<Rightarrow> u64" where
  "le_word [] = 0"
| "le_word (b # bs) = ucast b XOR push_bit 8 (le_word bs)"

primrec le_bytes :: "nat \<Rightarrow> u64 \<Rightarrow> bytes" where
  "le_bytes 0 w = []"
| "le_bytes (Suc n) w = ucast w # le_bytes n (drop_bit 8 w)"

lemma take_bit_chunk:
  "take_bit k w + push_bit k (take_bit m (drop_bit k w)) = take_bit (k + m) (w :: 'a::len word)"
proof -
  have "take_bit k w + push_bit k (take_bit m (drop_bit k w))
      = take_bit k w OR push_bit k (take_bit m (drop_bit k w))"
    by (rule disjunctive_add) (auto simp: bit_simps)
  also have "\<dots> = take_bit (k + m) w"
    by (rule bit_word_eqI) (auto simp: bit_simps)
  finally show ?thesis .
qed

lemma ucast_ucast_u8: "(ucast (ucast (w::'a::len word) :: u8) :: 'a word) = take_bit 8 w"
  by (rule bit_word_eqI) (auto simp: bit_simps dest: bit_imp_le_length)

lemma length_le_bytes [simp]: "length (le_bytes n w) = n"
  by (induction n arbitrary: w) auto

lemma le_word_le_bytes: "le_word (le_bytes n w) = take_bit (8 * n) w"
proof (induction n arbitrary: w)
  case 0
  then show ?case by simp
next
  case (Suc n)
  have "take_bit 8 w XOR push_bit 8 (take_bit (8 * n) (drop_bit 8 w)) = take_bit (8 * Suc n) w"
    by (rule bit_word_eqI) (auto simp: bit_simps)
  with Suc show ?case by (simp add: ucast_ucast_u8)
qed

lemma le_word_append: "le_word (xs @ ys) = le_word xs XOR push_bit (8 * length xs) (le_word ys)"
  by (induction xs) (simp_all add: push_bit_xor ac_simps)

lemma unat_times_8: "unat (i::u8) < 32 \<Longrightarrow> unat (i * 8) = 8 * unat i"
  by (simp add: unat_word_ariths)

lemma unat_u8_Suc: "unat (i::u8) < 255 \<Longrightarrow> unat (i + 1) = Suc (unat i)"
  by (simp add: unat_word_ariths)

lemma le_ReadUintN_loop_eq:
  "n \<le> length b \<Longrightarrow> unat i + n \<le> 31 \<Longrightarrow>
   le_ReadUintN_loop n i res b = Inr (res XOR push_bit (8 * unat i) (le_word (take n b)), drop n b)"
proof (induction n arbitrary: i res b)
  case 0
  then show ?case by simp
next
  case (Suc n)
  then obtain bt b' where b: "b = bt # b'" by (cases b) auto
  have "unat (i + 1) = Suc (unat i)"
    using Suc.prems by (intro unat_u8_Suc) simp
  with Suc.IH [of b' "i + 1"] Suc.prems b show ?case
    by (simp add: unat_times_8 push_bit_xor xor.assoc add.commute)
qed

lemma le_ReadUintN_loop_short: "length b < n \<Longrightarrow> le_ReadUintN_loop n i res b = Inl EOF"
proof (induction n arbitrary: i res b)
  case (Suc n)
  then show ?case by (cases b) auto
qed simp

lemma be_ReadUintN_loop_eq:
  "n \<le> length b \<Longrightarrow> unat i + n = unat len \<Longrightarrow> unat len \<le> 31 \<Longrightarrow>
   be_ReadUintN_loop n len i res b = Inr (res XOR le_word (rev (take n b)), drop n b)"
proof (induction n arbitrary: i res b)
  case 0
  then show ?case by simp
next
  case (Suc n)
  then obtain bt b' where b: "b = bt # b'" by (cases b) auto
  have i: "unat (i + 1) = Suc (unat i)"
    using Suc.prems by (intro unat_u8_Suc) simp
  have "unat (len - 1 - i) = n"
    using Suc.prems by unat_arith
  then have "unat ((len - 1 - i) * 8) = 8 * n"
    using Suc.prems by (subst unat_times_8) simp_all
  moreover have "length (rev (take n b')) = n"
    using Suc.prems b by simp
  ultimately show ?case
    using Suc.IH [of b' "i + 1"] Suc.prems b i by (simp add: le_word_append ac_simps)
qed

lemma be_ReadUintN_loop_short: "length b < n \<Longrightarrow> be_ReadUintN_loop n len i res b = Inl EOF"
proof (induction n arbitrary: i res b)
  case (Suc n)
  then show ?case by (cases b) auto
qed simp

lemma le_ReadUintN_eq:
  "unat n \<le> length b \<Longrightarrow> unat n \<le> 31 \<Longrightarrow>
   le_ReadUintN n b = Inr (le_word (take (unat n) b), drop (unat n) b)"
  by (simp add: le_ReadUintN_def le_ReadUintN_loop_eq)

lemma be_ReadUintN_eq:
  "unat n \<le> length b \<Longrightarrow> unat n \<le> 31 \<Longrightarrow>
   be_ReadUintN n b = Inr (le_word (rev (take (unat n) b)), drop (unat n) b)"
  by (simp add: be_ReadUintN_def be_ReadUintN_loop_eq)

lemma le_Write_le_bytes:
  "le_WriteUint64 w = le_bytes 8 w"
  "le_WriteUint56 w = (if w \<ge> push_bit 56 1 then Inl Panic else Inr (le_bytes 7 w))"
  "le_WriteUint48 w = (if w \<ge> push_bit 48 1 then Inl Panic else Inr (le_bytes 6 w))"
  "le_WriteUint40 w = (if w \<ge> push_bit 40 1 then Inl Panic else Inr (le_bytes 5 w))"
  by (simp_all add: le_WriteUint64_def le_WriteUint56_def le_WriteUint48_def le_WriteUint40_def
      eval_nat_numeral)

lemma bit_word_less:
  "bit (z::u8) n \<Longrightarrow> n < 8"
  "bit (y::u16) n \<Longrightarrow> n < 16"
  "bit (y::u16) n \<Longrightarrow> n < 64"
  "bit (x::u32) n \<Longrightarrow> n < 32"
  "bit (x::u32) n \<Longrightarrow> n < 64"
  by (drule bit_imp_le_length, simp)+

lemma ucast_u8_of_u64:
  "(ucast (drop_bit k (ucast (x::u32) :: u64)) :: u8) = ucast (drop_bit k x)"
  "(ucast (drop_bit k (ucast (y::u16) :: u64)) :: u8) = ucast (drop_bit k y)"
  "(ucast (ucast (x::u32) :: u64) :: u8) = ucast x"
  "(ucast (ucast (y::u16) :: u64) :: u8) = ucast y"
  by (auto intro!: bit_word_eqI simp: bit_simps dest: bit_word_less)

lemma le_Write_le_bytes_small:
  "le_WriteUint32 x = le_bytes 4 (ucast x)"
  "le_WriteUint24 x = (if x \<ge> push_bit 24 1 then Inl Panic else Inr (le_bytes 3 (ucast x)))"
  "le_WriteUint16 y = le_bytes 2 (ucast y)"
  by (simp_all add: le_WriteUint32_def le_WriteUint24_def le_WriteUint16_def
      eval_nat_numeral ucast_u8_of_u64)

lemma be_Write_le_bytes:
  "be_WriteUint64 w = rev (le_bytes 8 w)"
  "be_WriteUint56 w = (if w \<ge> push_bit 56 1 then Inl Panic else Inr (rev (le_bytes 7 w)))"
  "be_WriteUint48 w = (if w \<ge> push_bit 48 1 then Inl Panic else Inr (rev (le_bytes 6 w)))"
  "be_WriteUint40 w = (if w \<ge> push_bit 40 1 then Inl Panic else Inr (rev (le_bytes 5 w)))"
  "be_WriteUint32 x = rev (le_bytes 4 (ucast x))"
  "be_WriteUint24 x = (if x \<ge> push_bit 24 1 then Inl Panic else Inr (rev (le_bytes 3 (ucast x))))"
  "be_WriteUint16 y = rev (le_bytes 2 (ucast y))"
  by (simp_all add: be_WriteUint64_def be_WriteUint56_def be_WriteUint48_def be_WriteUint40_def
      be_WriteUint32_def be_WriteUint24_def be_WriteUint16_def eval_nat_numeral ucast_u8_of_u64)

lemma le_ReadUint_bytes:
  "le_ReadUint64 (le_WriteUint64 w @ r) = Inr (w, r)"
  "le_ReadUint32 (le_WriteUint32 x @ r) = Inr (x, r)"
  "le_ReadUint16 (le_WriteUint16 y @ r) = Inr (y, r)"
  by (simp_all add: le_ReadUint64_def le_WriteUint64_def le_ReadUint32_def le_WriteUint32_def
      le_ReadUint16_def le_WriteUint16_def ucast_ucast_u8 take_bit_chunk
      take_bit_word_eq_self)

lemma be_ReadUint_bytes:
  "be_ReadUint64 (be_WriteUint64 w @ r) = Inr (w, r)"
  "be_ReadUint32 (be_WriteUint32 x @ r) = Inr (x, r)"
  "be_ReadUint16 (be_WriteUint16 y @ r) = Inr (y, r)"
  by (simp_all add: be_ReadUint64_def be_WriteUint64_def be_ReadUint32_def be_WriteUint32_def
      be_ReadUint16_def be_WriteUint16_def ucast_ucast_u8 take_bit_chunk
      take_bit_word_eq_self)

lemma take_bit_small: "unat w < 2 ^ n \<Longrightarrow> take_bit n w = w"
  by (simp add: word_unat_eq_iff unsigned_take_bit_eq take_bit_nat_eq_self_iff)

lemma le_word_bytes_ucast:
  "le_word (le_bytes 2 (ucast (y::u16))) = ucast y"
  "le_word (le_bytes 4 (ucast (x::u32))) = ucast x"
  by (auto intro!: bit_word_eqI simp: le_word_le_bytes bit_simps dest: bit_word_less)

lemma le_word_bytes_small:
  "x < 0x1000000 \<Longrightarrow> le_word (le_bytes 3 (ucast (x::u32))) = ucast x"
  "w < 0x10000000000 \<Longrightarrow> le_word (le_bytes 5 w) = w"
  "w < 0x1000000000000 \<Longrightarrow> le_word (le_bytes 6 w) = w"
  "w < 0x100000000000000 \<Longrightarrow> le_word (le_bytes 7 w) = w"
  "le_word (le_bytes 8 w) = w"
  by (simp_all add: le_word_le_bytes take_bit_small word_less_nat_alt take_bit_word_eq_self
      unat_ucast_u64)

subsection \<open>What the callers rely on\<close>

locale byte_order_laws =
  fixes bo :: byte_order
  assumes ReadUintN_0: "ReadUintN bo 0 r = Inr (0, r)"
    and ReadUintN_byte: "ReadUintN bo 1 (b # r) = Inr (ucast b, r)"
    and ReadUintN_16: "ReadUintN bo 2 (WriteUint16 bo y @ r) = Inr (ucast y, r)"
    and ReadUintN_24: "WriteUint24 bo x = Inr d \<Longrightarrow> ReadUintN bo 3 (d @ r) = Inr (ucast x, r)"
    and ReadUintN_32: "ReadUintN bo 4 (WriteUint32 bo x @ r) = Inr (ucast x, r)"
    and ReadUintN_40: "WriteUint40 bo w = Inr d \<Longrightarrow> ReadUintN bo 5 (d @ r) = Inr (w, r)"
    and ReadUintN_48: "WriteUint48 bo w = Inr d \<Longrightarrow> ReadUintN bo 6 (d @ r) = Inr (w, r)"
    and ReadUintN_56: "WriteUint56 bo w = Inr d \<Longrightarrow> ReadUintN bo 7 (d @ r) = Inr (w, r)"
    and ReadUintN_64: "ReadUintN bo 8 (WriteUint64 bo w @ r) = Inr (w, r)"
    and ReadUintN_short: "length r < unat n \<Longrightarrow> ReadUintN bo n r = Inl EOF"
    and ReadUintN_consumes:
      "unat n \<le> 31 \<Longrightarrow> unat n \<le> length r \<Longrightarrow> \<exists>v. ReadUintN bo n r = Inr (v, drop (unat n) r)"
    and ReadUintN_bound:
      "ReadUintN bo n r = Inr (v, r') \<Longrightarrow> unat n \<le> 31 \<Longrightarrow> unat v < 2 ^ (8 * unat n)"
    and ReadUintN_length: "ReadUintN bo n r = Inr (v, r') \<Longrightarrow> length r = length r' + unat n"
    and ReadUint64_length: "ReadUint64 bo r = Inr (w, r') \<Longrightarrow> length r = length r' + 8"
    and ReadUint32_length: "ReadUint32 bo r = Inr (x, r') \<Longrightarrow> length r = length r' + 4"
    and ReadUint16_length: "ReadUint16 bo r = Inr (y, r') \<Longrightarrow> length r = length r' + 2"
    and ReadUint64_write: "ReadUint64 bo (WriteUint64 bo w @ r) = Inr (w, r)"
    and ReadUint32_write: "ReadUint32 bo (WriteUint32 bo x @ r) = Inr (x, r)"
    and ReadUint16_write: "ReadUint16 bo (WriteUint16 bo y @ r) = Inr (y, r)"
    and length_WriteUint64: "length (WriteUint64 bo w) = 8"
    and length_WriteUint32: "length (WriteUint32 bo x) = 4"
    and length_WriteUint16: "length (WriteUint16 bo y) = 2"
    and WriteUint24_fits:
      "WriteUint24 bo x = (if x < 0x1000000 then Inr (projr (WriteUint24 bo x)) else Inl Panic)"
    and WriteUint40_fits:
      "WriteUint40 bo w = (if w < 0x10000000000 then Inr (projr (WriteUint40 bo w)) else Inl Panic)"
    and WriteUint48_fits:
      "WriteUint48 bo w = (if w < 0x1000000000000 then Inr (projr (WriteUint48 bo w)) else Inl Panic)"
    and WriteUint56_fits:
      "WriteUint56 bo w = (if w < 0x100000000000000 then Inr (projr (WriteUint56 bo w)) else Inl Panic)"
    and length_WriteUint24: "WriteUint24 bo x = Inr d \<Longrightarrow> length d = 3"
    and length_WriteUint40: "WriteUint40 bo w = Inr d \<Longrightarrow> length d = 5"
    and length_WriteUint48: "WriteUint48 bo w = Inr d \<Longrightarrow> length d = 6"
    and length_WriteUint56: "WriteUint56 bo w = Inr d \<Longrightarrow> length d = 7"

lemma le_ReadUintN_short: "length b < unat n \<Longrightarrow> le_ReadUintN n b = Inl EOF"
  by (simp add: le_ReadUintN_def le_ReadUintN_loop_short)

lemma be_ReadUintN_short: "length b < unat n \<Longrightarrow> be_ReadUintN n b = Inl EOF"
  by (simp add: be_ReadUintN_def be_ReadUintN_loop_short)

lemma le_ReadUintN_loop_length:
  "le_ReadUintN_loop n i res r = Inr (v, r') \<Longrightarrow> length r = length r' + n"
  by (induction n arbitrary: i res r) (auto simp: bindE_eq_Inr dest!: ReadByte_length)

lemma be_ReadUintN_loop_length:
  "be_ReadUintN_loop n len i res r = Inr (v, r') \<Longrightarrow> length r = length r' + n"
  by (induction n arbitrary: i res r) (auto simp: bindE_eq_Inr dest!: ReadByte_length)

lemma le_Read_length:
  "le_ReadUintN k r = Inr (v, r') \<Longrightarrow> length r = length r' + unat k"
  "le_ReadUint64 r = Inr (w, r') \<Longrightarrow> length r = length r' + 8"
  "le_ReadUint32 r = Inr (x, r') \<Longrightarrow> length r = length r' + 4"
  "le_ReadUint16 r = Inr (y, r') \<Longrightarrow> length r = length r' + 2"
  by (auto simp: le_ReadUintN_def le_ReadUint64_def le_ReadUint32_def le_ReadUint16_def
      bindE_eq_Inr dest!: ReadByte_length le_ReadUintN_loop_length)

lemma be_Read_length:
  "be_ReadUintN k r = Inr (v, r') \<Longrightarrow> length r = length r' + unat k"
  "be_ReadUint64 r = Inr (w, r') \<Longrightarrow> length r = length r' + 8"
  "be_ReadUint32 r = Inr (x, r') \<Longrightarrow> length r = length r' + 4"
  "be_ReadUint16 r = Inr (y, r') \<Longrightarrow> length r = length r' + 2"
  by (auto simp: be_ReadUintN_def be_ReadUint64_def be_ReadUint32_def be_ReadUint16_def
      bindE_eq_Inr dest!: ReadByte_length be_ReadUintN_loop_length)

lemma bit_le_word: "bit (le_word bs) n \<Longrightarrow> n < 8 * length bs"
  by (induction bs arbitrary: n) (force simp: bit_simps dest: bit_word_less)+

lemma le_word_bound: "unat (le_word bs) < 2 ^ (8 * length bs)"
proof -
  have "take_bit (8 * length bs) (le_word bs) = le_word bs"
    by (rule bit_word_eqI) (auto simp: bit_simps dest: bit_le_word)
  then have "unat (le_word bs) = take_bit (8 * length bs) (unat (le_word bs))"
    by (metis unsigned_take_bit_eq)
  then show ?thesis by (metis take_bit_nat_less_exp)
qed

lemma le_ReadUintN_bound:
  "le_ReadUintN n r = Inr (v, r') \<Longrightarrow> unat n \<le> 31 \<Longrightarrow> unat v < 2 ^ (8 * unat n)"
  using le_word_bound [of "take (unat n) r"]
  by (cases "unat n \<le> length r") (auto simp: le_ReadUintN_eq le_ReadUintN_short min_absorb2)

lemma be_ReadUintN_bound:
  "be_ReadUintN n r = Inr (v, r') \<Longrightarrow> unat n \<le> 31 \<Longrightarrow> unat v < 2 ^ (8 * unat n)"
  using le_word_bound [of "rev (take (unat n) r)"]
  by (cases "unat n \<le> length r") (auto simp: be_ReadUintN_eq be_ReadUintN_short min_absorb2)

lemmas le_codec =
  le_ReadUintN_eq le_ReadUintN_short le_ReadUint_bytes [unfolded le_Write_le_bytes le_Write_le_bytes_small]
  le_Write_le_bytes le_Write_le_bytes_small

lemmas be_codec =
  be_ReadUintN_eq be_ReadUintN_short be_ReadUint_bytes [unfolded be_Write_le_bytes]
  be_Write_le_bytes

interpretation le: byte_order_laws LittleEndian
  by unfold_locales
    (auto simp: LittleEndian_def le_codec le_word_bytes_ucast le_word_bytes_small
      dest: le_Read_length le_ReadUintN_bound split: if_splits)

interpretation be: byte_order_laws BigEndian
  by unfold_locales
    (auto simp: BigEndian_def be_codec le_word_bytes_ucast le_word_bytes_small
      dest: be_Read_length be_ReadUintN_bound split: if_splits)

interpretation gbo: byte_order_laws "GetByteOrder v" for v
  by (simp add: GetByteOrder_def le.byte_order_laws_axioms be.byte_order_laws_axioms)

lemmas gbo_read [codec] =
  gbo.ReadUintN_0 gbo.ReadUintN_byte gbo.ReadUintN_16 gbo.ReadUintN_24 gbo.ReadUintN_32
  gbo.ReadUintN_40 gbo.ReadUintN_48 gbo.ReadUintN_56 gbo.ReadUintN_64
  gbo.ReadUint64_write gbo.ReadUint32_write gbo.ReadUint16_write

lemmas read_length = ReadByte_length ReadFull_length
  gbo.ReadUintN_length gbo.ReadUint64_length gbo.ReadUint32_length gbo.ReadUint16_length

lemma within_gbo [within_intros]:
  "length r \<le> n \<Longrightarrow> within n (ReadUintN (GetByteOrder v) k r)"
  "length r \<le> n \<Longrightarrow> within n (ReadUint64 (GetByteOrder v) r)"
  "length r \<le> n \<Longrightarrow> within n (ReadUint32 (GetByteOrder v) r)"
  "length r \<le> n \<Longrightarrow> within n (ReadUint16 (GetByteOrder v) r)"
  by (auto simp: within_def dest: gbo.ReadUintN_length gbo.ReadUint64_length gbo.ReadUint32_length
      gbo.ReadUint16_length)

lemmas gbo_length [codec] =
  gbo.length_WriteUint64 gbo.length_WriteUint32 gbo.length_WriteUint16
  gbo.length_WriteUint24 gbo.length_WriteUint40 gbo.length_WriteUint48 gbo.length_WriteUint56

end
