(* ===== verification/UFloat16.thy ===== *)
theory UFloat16
  imports Byte_Order
begin

text \<open>
  \<open>internal/utils/float16.go\<close>: the 16-bit unsigned floating point format of ACK delays and
  remote RTTs, with 5 bits of exponent and 11 bits of mantissa. The main fact is that a value that
  is written and read back keeps exactly its twelve most significant bits.
\<close>

definition uFloat16MaxValue :: u64 where
  "uFloat16MaxValue = push_bit 30 (push_bit 12 1 - 1)"

definition readUfloat16 :: "byte_order \<Rightarrow> bytes \<Rightarrow> error + u64 \<times> bytes" where
  "readUfloat16 byteOrder b =
     bindE (ReadUint16 byteOrder b) (\<lambda>(val, b).
       let res = (ucast val :: u64) in
       if res < push_bit 12 1 then Inr (res, b)
       else
         let exponent = drop_bit 11 val - 1;
             res = res - push_bit 11 (ucast exponent)
         in Inr (push_bit (unat exponent) res, b))"

text \<open>The binary search of \<open>writeUfloat16\<close> for the position of the highest bit.\<close>

function ufloat16_search :: "u16 \<Rightarrow> u16 \<Rightarrow> u64 \<Rightarrow> u16 \<times> u64" where
  "ufloat16_search offset exponent value =
     (if offset = 0 then (exponent, value)
      else if value \<ge> push_bit (11 + unat offset) 1
      then ufloat16_search (offset div 2) (exponent + offset) (drop_bit (unat offset) value)
      else ufloat16_search (offset div 2) exponent value)"
  by pat_completeness auto
termination
  by (relation "measure (\<lambda>(offset, exponent, value). unat offset)")
    (auto simp: unat_div unat_gt_0)

declare ufloat16_search.simps [simp del]

definition ufloat16_encode :: "u64 \<Rightarrow> u16" where
  "ufloat16_encode value =
     (if value < push_bit 12 1 then ucast value
      else if value \<ge> uFloat16MaxValue then 0xFFFF
      else let (exponent, value) = ufloat16_search 16 0 value
           in ucast value + push_bit 11 exponent)"

definition writeUfloat16 :: "byte_order \<Rightarrow> u64 \<Rightarrow> bytes" where
  "writeUfloat16 byteOrder value = WriteUint16 byteOrder (ufloat16_encode value)"

lemma ufloat16_search_step:
  assumes "unat offset = k" "0 < k" "k \<le> 16"
    and "2 ^ 11 \<le> unat (drop_bit d w)" "unat (drop_bit d w) < 2 ^ (11 + 2 * k)"
  shows "\<exists>d'. ufloat16_search offset (of_nat d) (drop_bit d w)
      = ufloat16_search (offset div 2) (of_nat d') (drop_bit d' w) \<and>
    2 ^ 11 \<le> unat (drop_bit d' w) \<and> unat (drop_bit d' w) < 2 ^ (11 + k)"
proof -
  let ?v = "drop_bit d w"
  have off: "offset \<noteq> 0" using assms by auto
  have p: "unat (push_bit (11 + k) (1::u64)) = 2 ^ (11 + k)"
    using assms by (simp add: push_bit_eq_mult unat_u64_2p)
  have ge: "push_bit (11 + k) 1 \<le> ?v \<longleftrightarrow> 2 ^ (11 + k) \<le> unat ?v"
    by (simp only: word_le_nat_alt p)
  show ?thesis
  proof (cases "2 ^ (11 + k) \<le> unat ?v")
    case True
    have d: "unat (drop_bit (d + k) w) = unat ?v div 2 ^ k"
      by (simp only: unat_drop_bit div_mult2_eq power_add)
    have "2 ^ 11 * 2 ^ k \<le> unat ?v" using True by (simp add: power_add)
    then have lo: "2 ^ 11 \<le> unat ?v div 2 ^ k"
      by (simp add: less_eq_div_iff_mult_less_eq)
    have "unat ?v < 2 ^ (11 + k) * 2 ^ k" using assms(5) by (simp only: power_add mult_2 mult.assoc)
    then have hi: "unat ?v div 2 ^ k < 2 ^ (11 + k)"
      by (simp add: div_less_iff_less_mult)
    have o: "of_nat d + offset = of_nat (d + k)" using assms(1) by auto
    have "ufloat16_search offset (of_nat d) ?v
        = ufloat16_search (offset div 2) (of_nat (d + k)) (drop_bit (d + k) w)"
      using True off ge assms(1) o by (subst ufloat16_search.simps) (simp add: add.commute)
    with lo hi d show ?thesis by metis
  next
    case False
    then have "ufloat16_search offset (of_nat d) ?v = ufloat16_search (offset div 2) (of_nat d) ?v"
      using off ge assms(1) by (subst ufloat16_search.simps) simp
    with False assms(4) show ?thesis by (metis not_le)
  qed
qed

lemma ufloat16_search_16:
  assumes "2 ^ 11 \<le> unat w" "unat w < 2 ^ 42"
  shows "\<exists>d. ufloat16_search 16 0 w = (of_nat d, drop_bit d w) \<and> d \<le> 30 \<and>
    2 ^ 11 \<le> unat (drop_bit d w) \<and> unat (drop_bit d w) < 2 ^ 12"
proof -
  have "unat (drop_bit 0 w) < 2 ^ (11 + 2 * 16)" using assms(2) by simp
  then obtain d1 where 1: "ufloat16_search 16 (of_nat 0) (drop_bit 0 w) = ufloat16_search 8 (of_nat d1) (drop_bit d1 w)"
    "2 ^ 11 \<le> unat (drop_bit d1 w)" "unat (drop_bit d1 w) < 2 ^ (11 + 2 * 8)"
    using ufloat16_search_step [of 16 16 0 w] assms by auto
  then obtain d2 where 2: "ufloat16_search 8 (of_nat d1) (drop_bit d1 w) = ufloat16_search 4 (of_nat d2) (drop_bit d2 w)"
    "2 ^ 11 \<le> unat (drop_bit d2 w)" "unat (drop_bit d2 w) < 2 ^ (11 + 2 * 4)"
    using ufloat16_search_step [of 8 8 d1 w] by auto
  then obtain d3 where 3: "ufloat16_search 4 (of_nat d2) (drop_bit d2 w) = ufloat16_search 2 (of_nat d3) (drop_bit d3 w)"
    "2 ^ 11 \<le> unat (drop_bit d3 w)" "unat (drop_bit d3 w) < 2 ^ (11 + 2 * 2)"
    using ufloat16_search_step [of 4 4 d2 w] by auto
  then obtain d4 where 4: "ufloat16_search 2 (of_nat d3) (drop_bit d3 w) = ufloat16_search 1 (of_nat d4) (drop_bit d4 w)"
    "2 ^ 11 \<le> unat (drop_bit d4 w)" "unat (drop_bit d4 w) < 2 ^ (11 + 2 * 1)"
    using ufloat16_search_step [of 2 2 d3 w] by auto
  then obtain d where 5: "ufloat16_search 1 (of_nat d4) (drop_bit d4 w) = ufloat16_search 0 (of_nat d) (drop_bit d w)"
    "2 ^ 11 \<le> unat (drop_bit d w)" "unat (drop_bit d w) < 2 ^ (11 + 1)"
    using ufloat16_search_step [of 1 1 d4 w] by auto
  have "ufloat16_search 16 0 w = (of_nat d, drop_bit d w)"
    using 1 2 3 4 5 by (simp add: ufloat16_search.simps [of 0])
  moreover have "d \<le> 30"
  proof (rule ccontr)
    assume "\<not> d \<le> 30"
    then have "(2::nat) ^ 42 \<le> 2 ^ 11 * 2 ^ d"
      by (simp only: flip: power_add) (rule power_increasing; simp)
    also have "\<dots> \<le> unat w div 2 ^ d * 2 ^ d"
      using 5(2) by (simp only: unat_drop_bit mult_le_mono1)
    also have "\<dots> \<le> unat w" by simp
    finally show False using assms(2) by simp
  qed
  ultimately show ?thesis using 5 by auto
qed


lemma unat_ufloat16_parts:
  assumes "unat v < 2 ^ 12" "d \<le> 30"
  shows "unat (of_nat d :: u16) = d"
    and "unat (push_bit 11 (of_nat d) :: u16) = 2 ^ 11 * d"
    and "unat (push_bit 11 (ucast (of_nat d :: u16)) :: u64) = 2 ^ 11 * d"
    and "unat (ucast (v::u64) + push_bit 11 (of_nat d) :: u16) = unat v + 2 ^ 11 * d"
proof -
  show d: "unat (of_nat d :: u16) = d" using assms(2) by (simp add: unat_of_nat)
  show p: "unat (push_bit 11 (of_nat d) :: u16) = 2 ^ 11 * d"
    using assms(2) d by (simp add: push_bit_eq_mult unat_word_ariths)
  show "unat (push_bit 11 (ucast (of_nat d :: u16)) :: u64) = 2 ^ 11 * d"
    using assms(2) d by (simp add: push_bit_eq_mult unat_word_ariths unat_ucast_u64)
  have "unat (ucast v :: u16) = unat v"
    using assms(1) by (simp add: unsigned_ucast_eq take_bit_nat_eq_self_iff)
  with p assms show "unat (ucast v + push_bit 11 (of_nat d) :: u16) = unat v + 2 ^ 11 * d"
    by (simp add: unat_word_ariths)
qed

lemma ufloat16_decode:
  fixes v :: u64
  assumes v: "2 ^ 11 \<le> unat v" "unat v < 2 ^ 12" and "d \<le> 30"
  defines "val \<equiv> (ucast v + push_bit 11 (of_nat d) :: u16)"
  shows "readUfloat16 (GetByteOrder ver) (WriteUint16 (GetByteOrder ver) val @ r)
    = Inr (push_bit d v, r)"
proof -
  note parts = unat_ufloat16_parts [OF v(2) \<open>d \<le> 30\<close>, folded val_def]
  have "unat (drop_bit 11 val) = Suc d"
    using parts v by (simp only: unat_drop_bit) (simp add: div_nat_eqI)
  then have "drop_bit 11 val = of_nat (Suc d)"
    by (metis of_nat_unat ucast_id)
  then have e: "drop_bit 11 val - 1 = of_nat d" by simp
  have res: "(ucast val :: u64) = v + push_bit 11 (ucast (of_nat d :: u16))"
  proof (subst word_unat_eq_iff)
    show "unat (ucast val :: u64) = unat (v + push_bit 11 (ucast (of_nat d :: u16)))"
      using parts v \<open>d \<le> 30\<close> by (simp only: unat_ucast_u64 unat_word_ariths) simp
  qed
  have fast: "v + push_bit 11 (ucast (of_nat d :: u16)) < 4096 \<longleftrightarrow> d = 0"
    using parts v by (auto simp: word_less_nat_alt unat_ucast_u64 simp flip: res)
  show ?thesis
    using parts(1)
    by (cases "d = 0") (simp_all add: readUfloat16_def gbo.ReadUint16_write Let_def e fast res)
qed

lemma ucast_u16_small: "(x::u64) < 4096 \<Longrightarrow> ucast (ucast x :: u16) = x"
proof -
  assume "x < 4096"
  then have "take_bit 16 x = x" by (simp add: take_bit_small word_less_nat_alt)
  moreover have "ucast (ucast x :: u16) = take_bit 16 x"
    by (rule bit_word_eqI) (auto simp: bit_simps)
  ultimately show ?thesis by simp
qed

lemma unat_push_drop: "unat (push_bit d (drop_bit d (w::u64))) = unat w div 2 ^ d * 2 ^ d"
proof -
  have "unat w div 2 ^ d * 2 ^ d \<le> unat w" by simp
  also have "\<dots> < 2 ^ 64" by simp
  finally have "unat w div 2 ^ d * 2 ^ d < 2 ^ 64" .
  then show ?thesis
    unfolding unsigned_push_bit_eq
    by (simp only: unat_drop_bit push_bit_eq_mult) (simp add: take_bit_nat_eq_self)
qed

text \<open>
  A value below \<open>uFloat16MaxValue\<close> comes back rounded down, with a relative error of at most
  one part in 2048; values below 4096 come back unchanged and larger ones are clamped.
\<close>

lemma ufloat16_roundtrip:
  assumes "x < uFloat16MaxValue"
  obtains v where
      "readUfloat16 (GetByteOrder ver) (writeUfloat16 (GetByteOrder ver) x @ r) = Inr (v, r)"
    and "v \<le> x" and "2048 * (unat x - unat v) \<le> unat x"
proof (cases "x < 4096")
  case True
  then have "ucast (ucast x :: u16) = x" by (rule ucast_u16_small)
  with True that[of x] show ?thesis
    by (simp add: readUfloat16_def writeUfloat16_def ufloat16_encode_def gbo.ReadUint16_write Let_def)
next
  case False
  then have "2 ^ 11 \<le> unat x" "unat x < 2 ^ 42"
    using assms by (auto simp: uFloat16MaxValue_def word_less_nat_alt)
  then obtain d where d: "ufloat16_search 16 0 x = (of_nat d, drop_bit d x)" "d \<le> 30"
    "2 ^ 11 \<le> unat (drop_bit d x)" "unat (drop_bit d x) < 2 ^ 12"
    using ufloat16_search_16 by blast
  have le: "unat (push_bit d (drop_bit d x)) \<le> unat x"
    by (simp only: unat_push_drop) simp
  have "2048 * (unat x mod 2 ^ d) \<le> 2 ^ 11 * 2 ^ d"
    by (simp add: less_imp_le)
  also have "\<dots> \<le> unat x div 2 ^ d * 2 ^ d"
    using d(3) by (simp only: unat_drop_bit mult_le_mono1)
  also have "\<dots> \<le> unat x" by simp
  finally have "2048 * (unat x - unat (push_bit d (drop_bit d x))) \<le> unat x"
    by (simp only: unat_push_drop minus_div_mult_eq_mod)
  moreover have "readUfloat16 (GetByteOrder ver) (writeUfloat16 (GetByteOrder ver) x @ r)
      = Inr (push_bit d (drop_bit d x), r)"
    using False assms [unfolded not_le [symmetric]] d ufloat16_decode [OF d(3,4,2), of ver r]
    by (simp add: writeUfloat16_def ufloat16_encode_def)
  ultimately show ?thesis
    using that le by (simp only: word_le_nat_alt)
qed

lemma ufloat16_small: "x < 4096 \<Longrightarrow>
  readUfloat16 (GetByteOrder ver) (writeUfloat16 (GetByteOrder ver) x @ r) = Inr (x, r)"
  by (simp add: readUfloat16_def writeUfloat16_def ufloat16_encode_def gbo.ReadUint16_write Let_def
      ucast_u16_small)

lemma ufloat16_clamp: "uFloat16MaxValue \<le> x \<Longrightarrow>
  readUfloat16 (GetByteOrder ver) (writeUfloat16 (GetByteOrder ver) x @ r) = Inr (uFloat16MaxValue, r)"
proof -
  assume "uFloat16MaxValue \<le> x"
  then have "ufloat16_encode x = 0xFFFF"
    by (auto simp: ufloat16_encode_def uFloat16MaxValue_def word_less_nat_alt word_le_nat_alt)
  then show ?thesis
    by (simp add: writeUfloat16_def readUfloat16_def gbo.ReadUint16_write uFloat16MaxValue_def)
qed

lemma length_writeUfloat16 [simp, codec]: "length (writeUfloat16 (GetByteOrder v) x) = 2"
  by (simp add: writeUfloat16_def gbo.length_WriteUint16)

text \<open>
  C27: a 16-bit float that is written and read back never grows; values below 4096 are exact, values
  below \<open>uFloat16MaxValue\<close> lose at most one part in 2048, and all larger values saturate.
\<close>

theorem ufloat16_write_read:
  "\<exists>v. readUfloat16 (GetByteOrder ver) (writeUfloat16 (GetByteOrder ver) x @ r) = Inr (v, r) \<and>
     v \<le> x \<and>
     (if x < 4096 then v = x
      else if x < uFloat16MaxValue then 2048 * (unat x - unat v) \<le> unat x
      else v = uFloat16MaxValue)"
proof (cases "x < 4096")
  case True
  then show ?thesis by (simp add: ufloat16_small)
next
  case big: False
  show ?thesis
  proof (cases "x < uFloat16MaxValue")
    case True
    then obtain v where "readUfloat16 (GetByteOrder ver) (writeUfloat16 (GetByteOrder ver) x @ r) = Inr (v, r)"
      "v \<le> x" "2048 * (unat x - unat v) \<le> unat x"
      by (rule ufloat16_roundtrip)
    with big True show ?thesis by auto
  next
    case False
    with big show ?thesis by (auto simp: ufloat16_clamp)
  qed
qed

end
