(* ===== verification/Packet_Number.thy ===== *)
theory Packet_Number
  imports UFloat16
begin

text \<open>
  \<open>internal/protocol/packet_number.go\<close> (truncated packet numbers and their inference),
  \<open>internal/protocol/version.go\<close> (version tags and negotiation) and
  \<open>packet_number_generator.go\<close> (packet numbers with random skips against optimistic ACKs).
\<close>

subsection \<open>Truncation and inference of packet numbers\<close>

definition delta :: "PacketNumber \<Rightarrow> PacketNumber \<Rightarrow> PacketNumber" where
  "delta a b = (if a < b then b - a else a - b)"

definition closestTo :: "PacketNumber \<Rightarrow> PacketNumber \<Rightarrow> PacketNumber \<Rightarrow> PacketNumber" where
  "closestTo target a b = (if delta target a < delta target b then a else b)"

definition InferPacketNumber ::
    "PacketNumberLen \<Rightarrow> PacketNumber \<Rightarrow> PacketNumber \<Rightarrow> PacketNumber" where
  "InferPacketNumber packetNumberLength lastPacketNumber wirePacketNumber =
     (let epochDelta = push_bit (unat (packetNumberLength * 8)) 1;
          epoch = lastPacketNumber AND NOT (epochDelta - 1);
          prevEpochBegin = epoch - epochDelta;
          nextEpochBegin = epoch + epochDelta
      in closestTo (lastPacketNumber + 1)
           (epoch + wirePacketNumber)
           (closestTo (lastPacketNumber + 1)
              (prevEpochBegin + wirePacketNumber) (nextEpochBegin + wirePacketNumber)))"

definition PacketNumberLen1 :: PacketNumberLen where "PacketNumberLen1 = 1"

definition PacketNumberLen2 :: PacketNumberLen where "PacketNumberLen2 = 2"

definition PacketNumberLen4 :: PacketNumberLen where "PacketNumberLen4 = 4"

definition PacketNumberLen6 :: PacketNumberLen where "PacketNumberLen6 = 6"

lemmas PacketNumberLen_defs =
  PacketNumberLen1_def PacketNumberLen2_def PacketNumberLen4_def PacketNumberLen6_def

definition GetPacketNumberLengthForPublicHeader ::
    "PacketNumber \<Rightarrow> PacketNumber \<Rightarrow> PacketNumberLen" where
  "GetPacketNumberLengthForPublicHeader packetNumber leastUnacked =
     (let diff = packetNumber - leastUnacked in
      if diff < push_bit (unat (PacketNumberLen2 * 8 - 2)) 2 then PacketNumberLen2
      else if diff < push_bit (unat (PacketNumberLen4 * 8 - 2)) 2 then PacketNumberLen4
      else PacketNumberLen6)"

definition GetPacketNumberLength :: "PacketNumber \<Rightarrow> PacketNumberLen" where
  "GetPacketNumberLength packetNumber =
     (if packetNumber < push_bit (unat (PacketNumberLen1 * 8)) 1 then PacketNumberLen1
      else if packetNumber < push_bit (unat (PacketNumberLen2 * 8)) 1 then PacketNumberLen2
      else if packetNumber < push_bit (unat (PacketNumberLen4 * 8)) 1 then PacketNumberLen4
      else PacketNumberLen6)"

subsection \<open>Versions\<close>

definition Version37 :: VersionNumber where "Version37 = 37"

definition Version38 :: VersionNumber where "Version38 = 38"

definition VersionTLS :: VersionNumber where "VersionTLS = 101"

definition VersionWhatever :: VersionNumber where "VersionWhatever = 0"

definition VersionUnsupported :: VersionNumber where "VersionUnsupported = -1"

definition VersionUnknown :: VersionNumber where "VersionUnknown = -2"

definition VersionMP :: VersionNumber where "VersionMP = 512"

definition SupportedVersions :: "VersionNumber list" where
  "SupportedVersions = [VersionMP, Version39, Version38, Version37]"

text \<open>\<open>'Q'\<close> is 81 and \<open>'0'\<close> is 48; the arithmetic is in \<open>uint32\<close>.\<close>

definition VersionNumberToTag :: "VersionNumber \<Rightarrow> u32" where
  "VersionNumberToTag vn =
     (let v = (word_of_int vn :: u32) in
      81 + push_bit 8 (v div 100 mod 10 + 48) + push_bit 16 (v div 10 mod 10 + 48)
        + push_bit 24 (v mod 10 + 48))"

definition VersionTagToNumber :: "u32 \<Rightarrow> VersionNumber" where
  "VersionTagToNumber v =
     uint ((((drop_bit 8 v) AND 0xff) - 48) * 100 + (((drop_bit 16 v) AND 0xff) - 48) * 10
           + (((drop_bit 24 v) AND 0xff) - 48))"

fun IsSupportedVersion :: "VersionNumber list \<Rightarrow> VersionNumber \<Rightarrow> bool" where
  "IsSupportedVersion [] v = False"
| "IsSupportedVersion (t # supported) v = (if t = v then True else IsSupportedVersion supported v)"

text \<open>The inner loop of \<open>ChooseSupportedVersion\<close> scans \<open>theirs\<close> for one of our versions.\<close>

fun choose_inner :: "VersionNumber \<Rightarrow> VersionNumber list \<Rightarrow> VersionNumber option" where
  "choose_inner ourVer [] = None"
| "choose_inner ourVer (theirVer # theirs) =
     (if ourVer = theirVer then Some ourVer else choose_inner ourVer theirs)"

fun ChooseSupportedVersion :: "VersionNumber list \<Rightarrow> VersionNumber list \<Rightarrow> VersionNumber" where
  "ChooseSupportedVersion [] theirs = VersionUnsupported"
| "ChooseSupportedVersion (ourVer # ours) theirs =
     (case choose_inner ourVer theirs of
        Some v \<Rightarrow> v
      | None \<Rightarrow> ChooseSupportedVersion ours theirs)"

subsection \<open>The packet number generator\<close>

record packetNumberGenerator =
  averagePeriod :: PacketNumber
  next_pn :: PacketNumber
  nextToSkip :: PacketNumber

definition newPacketNumberGenerator :: "PacketNumber \<Rightarrow> packetNumberGenerator" where
  "newPacketNumberGenerator period =
     \<lparr>averagePeriod = period, next_pn = 1, nextToSkip = 0\<rparr>"

definition pngPeek :: "packetNumberGenerator \<Rightarrow> PacketNumber" where
  "pngPeek p = next_pn p"

text \<open>
  The two random bytes of \<open>crypto/rand\<close> are an argument; \<open>None\<close> is a failure of the random
  source, in which case \<open>generateNewSkip\<close> leaves the state alone.
\<close>

definition getRandomNumber :: "(byte \<times> byte) option \<Rightarrow> u16 option" where
  "getRandomNumber rnd =
     (case rnd of None \<Rightarrow> None | Some (b0, b1) \<Rightarrow> Some (push_bit 8 (ucast b0) + ucast b1))"

definition generateNewSkip ::
    "(byte \<times> byte) option \<Rightarrow> packetNumberGenerator \<Rightarrow> packetNumberGenerator" where
  "generateNewSkip rnd p =
     (case getRandomNumber rnd of
        None \<Rightarrow> p
      | Some num \<Rightarrow>
          let skip = ucast num * (averagePeriod p - 1) div (65535 div 2)
          in p\<lparr>nextToSkip := next_pn p + 2 + skip\<rparr>)"

definition pngPop ::
    "(byte \<times> byte) option \<Rightarrow> packetNumberGenerator \<Rightarrow> PacketNumber \<times> packetNumberGenerator" where
  "pngPop rnd p =
     (let nxt = next_pn p;
          p = p\<lparr>next_pn := next_pn p + 1\<rparr>
      in if next_pn p = nextToSkip p
         then (nxt, generateNewSkip rnd (p\<lparr>next_pn := next_pn p + 1\<rparr>))
         else (nxt, p))"

text \<open>The packet numbers of a sequence of \<open>Pop\<close> calls.\<close>

fun pngRun :: "(byte \<times> byte) option list \<Rightarrow> packetNumberGenerator \<Rightarrow> PacketNumber list" where
  "pngRun [] p = []"
| "pngRun (rnd # rnds) p = (let (n, p) = pngPop rnd p in n # pngRun rnds p)"

lemma unat_delta: "unat (delta a b) = (if unat a < unat b then unat b - unat a else unat a - unat b)"
  by (simp add: delta_def word_less_nat_alt u64_diff word_le_nat_alt)

lemma unat_and_not_mask: "unat ((l::u64) AND NOT (2 ^ k - 1)) = unat l div 2 ^ k * 2 ^ k"
proof -
  have "l AND NOT (mask k) = push_bit k (drop_bit k l)"
    by (rule bit_word_eqI) (auto simp: bit_simps)
  then show ?thesis by (simp add: unat_push_drop flip: mask_eq_exp_minus_1)
qed

text \<open>The arithmetic core, over the natural numbers: \<open>E\<close> is the epoch of the last packet number.\<close>

lemma epoch_of_close:
  fixes pn l D :: nat
  assumes "0 < D" "even D" "Suc l < pn + D div 2" "pn < Suc l + D div 2"
  shows "pn div D = l div D \<or> pn div D = Suc (l div D) \<or> Suc (pn div D) = l div D"
proof -
  have "pn < l + D" using assms by auto
  then have "pn div D \<le> (l + D) div D" by (intro div_le_mono) simp
  then have a: "pn div D \<le> Suc (l div D)" using assms(1) by (simp only: div_add_self2)
  have "l \<le> pn + D" using assms by auto
  then have "l div D \<le> (pn + D) div D" by (rule div_le_mono)
  then have b: "l div D \<le> Suc (pn div D)" using assms(1) by (simp only: div_add_self2)
  from a b show ?thesis by linarith
qed

lemma closer:
  fixes T P C h :: nat
  assumes "T < P + h" "P < T + h" "P + 2 * h \<le> C \<or> C + 2 * h \<le> P"
  shows "(if T < P then P - T else T - P) < (if T < C then C - T else T - C)"
  using assms by auto

lemma closestTo_closer:
  assumes "unat t < unat p + h" "unat p < unat t + h"
    and "unat p + 2 * h \<le> unat c \<or> unat c + 2 * h \<le> unat p"
  shows "closestTo t p c = p" "closestTo t c p = p"
proof -
  have "delta t p < delta t c"
    using closer [OF assms] by (simp only: word_less_nat_alt unat_delta)
  then show "closestTo t p c = p" "closestTo t c p = p" by (auto simp: closestTo_def dest: order.asym)
qed

lemma closestTo_either: "closestTo t a b = a \<or> closestTo t a b = b"
  by (simp add: closestTo_def)

lemma InferPacketNumber_correct:
  assumes len: "len \<in> {1, 2, 4, 6}" and k: "k = 8 * unat len"
    and range: "unat l < 2 ^ 62" "unat pn < 2 ^ 62"
    and close: "Suc (unat l) < unat pn + 2 ^ (k - 1)" "unat pn < Suc (unat l) + 2 ^ (k - 1)"
  shows "InferPacketNumber len l (take_bit k pn) = pn"
proof -
  define D where "D = (2::nat) ^ k"
  define h where "h = (2::nat) ^ (k - 1)"
  define E where "E = unat l div D * D"
  define w where "w = unat pn mod D"
  define e where "e = l AND NOT (2 ^ k - 1)"
  define W where "W = take_bit k pn"
  have k48: "k \<in> {8, 16, 32, 48}" using len k by auto
  have D: "0 < D" "even D" "D = 2 * h" "D \<le> 2 ^ 48"
    using k48 by (auto simp: D_def h_def)
  have uD: "unat (2 ^ k :: u64) = D" using k48 by (auto simp: D_def)
  have uE: "unat e = E" by (simp add: unat_and_not_mask E_def D_def e_def)
  have uW: "unat W = w"
    unfolding W_def unsigned_take_bit_eq by (simp add: w_def D_def take_bit_eq_mod)
  have EL: "E \<le> unat l" "w < D" "E = 0 \<or> D \<le> E" using D by (auto simp: E_def w_def)
  have uT: "unat (l + 1) = Suc (unat l)" using range by (simp add: unat_word_ariths)
  have u0: "unat (e + W) = E + w"
    using uE uW EL D range by (simp add: unat_word_ariths)
  have u1: "unat (e + 2 ^ k + W) = E + D + w"
    using uE uW uD EL D range by (simp add: unat_word_ariths)
  have um: "unat (e - 2 ^ k + W) = (if D \<le> E then E - D + w else 2 ^ 64 - D + w)"
    using uE uW uD EL D range by (auto simp: unat_plus_if' unat_sub_if')
  have "unat pn div D = unat l div D \<or> unat pn div D = Suc (unat l div D)
      \<or> Suc (unat pn div D) = unat l div D"
    using epoch_of_close [of D "unat l" "unat pn"] D close by (simp add: h_def)
  then consider "unat pn div D * D = E" | "unat pn div D * D = E + D" | "unat pn div D * D + D = E"
    by (metis E_def add.commute mult_Suc)
  moreover have "unat pn = unat pn div D * D + w" by (simp add: w_def)
  ultimately have pn: "unat pn = E + w \<or> unat pn = E + D + w \<or> unat pn + D = E + w"
    by cases linarith+
  have Infer: "InferPacketNumber len l W
      = closestTo (l + 1) (e + W) (closestTo (l + 1) (e - 2 ^ k + W) (e + 2 ^ k + W))"
    using len k by (auto simp: InferPacketNumber_def e_def Let_def)
  have T: "unat (l + 1) < unat pn + h" "unat pn < unat (l + 1) + h"
    using close uT by (simp_all add: h_def)
  note c = closestTo_closer [OF T]
  from pn consider "pn = e + W" | "pn = e + 2 ^ k + W" | "pn = e - 2 ^ k + W" "D \<le> E"
    using u0 u1 um EL D by (fastforce simp: word_unat_eq_iff)
  then show ?thesis
  proof cases
    case 1
    have "closestTo (l + 1) pn (e - 2 ^ k + W) = pn"
      using 1 u0 um EL D range by (intro c) auto
    moreover have "closestTo (l + 1) pn (e + 2 ^ k + W) = pn"
      using 1 u0 u1 D by (intro c) auto
    ultimately show ?thesis
      unfolding W_def [symmetric] Infer 1 [symmetric] by (metis closestTo_either)
  next
    case 2
    have "closestTo (l + 1) (e - 2 ^ k + W) pn = pn"
      using 2 u1 um EL D range by (intro c) auto
    moreover have "closestTo (l + 1) (e + W) pn = pn"
      using 2 u0 u1 D by (intro c) auto
    ultimately show ?thesis
      unfolding W_def [symmetric] Infer 2 [symmetric] by simp
  next
    case 3
    have "closestTo (l + 1) pn (e + 2 ^ k + W) = pn"
      using 3 u1 um EL D range by (intro c) auto
    moreover have "closestTo (l + 1) (e + W) pn = pn"
      using 3 u0 um D by (intro c) auto
    ultimately show ?thesis
      unfolding W_def [symmetric] Infer 3(1) [symmetric] by simp
  qed
qed


lemma GetPacketNumberLengthForPublicHeader_cases:
  assumes "lu \<le> pn"
  shows "GetPacketNumberLengthForPublicHeader pn lu = 2 \<and> unat pn < unat lu + 2 ^ 15
    \<or> GetPacketNumberLengthForPublicHeader pn lu = 4 \<and> unat pn < unat lu + 2 ^ 31
    \<or> GetPacketNumberLengthForPublicHeader pn lu = 6"
proof -
  have "unat (pn - lu) = unat pn - unat lu" using assms by (rule u64_diff)
  then show ?thesis
    using assms
    by (auto simp: GetPacketNumberLengthForPublicHeader_def PacketNumberLen_defs Let_def
        word_less_nat_alt word_le_nat_alt)
qed

lemma base256:
  fixes A X :: nat
  assumes "A < 256"
  shows "(A + 256 * X) div 256 = X" "(A + 256 * X) mod 256 = A"
  using assms by simp_all

lemma unat_and_ff: "unat ((w::u32) AND 0xff) = unat w mod 256"
proof -
  have "w AND 0xff = w mod 256"
    by (simp add: take_bit_eq_mask mask_eq_exp_minus_1 flip: take_bit_eq_mod [of 8, simplified])
  then show ?thesis by (simp add: unat_mod)
qed

lemma VersionNumberToTag_nat:
  assumes "n < 1000"
  shows "unat (VersionNumberToTag (int n))
    = 81 + 256 * (n div 100 + 48 + 256 * (n div 10 mod 10 + 48 + 256 * (n mod 10 + 48)))"
    (is "_ = ?N")
proof -
  let ?v = "word_of_int (int n) :: u32"
  have v: "unat ?v = n" using assms by (simp add: unat_of_nat)
  have digits: "?v div 100 mod 10 = of_nat (n div 100)" "?v div 10 mod 10 = of_nat (n div 10 mod 10)"
    "?v mod 10 = of_nat (n mod 10)"
    using assms v by (simp_all only: word_unat_eq_iff unat_div unat_mod) (simp_all add: unat_of_nat)
  have "VersionNumberToTag (int n) = of_nat ?N"
    unfolding VersionNumberToTag_def Let_def digits
    by (simp add: push_bit_eq_mult algebra_simps)
  moreover have "?N < 2 ^ 32" using assms by simp
  ultimately show ?thesis by (simp only: unat_of_nat mod_less) simp
qed

lemma decimal3: "n div 100 * 100 + n div 10 mod 10 * 10 + n mod 10 = (n::nat)"
proof -
  have "n div 100 = n div 10 div 10" by (simp flip: div_mult2_eq)
  moreover have "n = n div 10 * 10 + n mod 10" by (rule div_mult_mod_eq [symmetric])
  moreover have "n div 10 = n div 10 div 10 * 10 + n div 10 mod 10" by (rule div_mult_mod_eq [symmetric])
  ultimately show ?thesis by linarith
qed

lemma VersionTag_roundtrip_nat:
  assumes "n < 1000"
  shows "VersionTagToNumber (VersionNumberToTag (int n)) = int n"
proof -
  define t where "t = VersionNumberToTag (int n)"
  have t: "unat t = 81 + 256 * (n div 100 + 48 + 256 * (n div 10 mod 10 + 48 + 256 * (n mod 10 + 48)))"
    unfolding t_def using assms by (rule VersionNumberToTag_nat)
  have d1: "unat t div 256 = n div 100 + 48 + 256 * (n div 10 mod 10 + 48 + 256 * (n mod 10 + 48))"
    unfolding t by (rule base256) simp
  have d2: "unat t div 256 div 256 = n div 10 mod 10 + 48 + 256 * (n mod 10 + 48)"
    unfolding d1 using assms by (intro base256) simp
  have d3: "unat t div 256 div 256 div 256 = n mod 10 + 48"
    unfolding d2 by (rule base256) simp
  have "unat (drop_bit 8 t AND 0xff) = unat t div 256 mod 256"
    "unat (drop_bit 16 t AND 0xff) = unat t div 256 div 256 mod 256"
    "unat (drop_bit 24 t AND 0xff) = unat t div 256 div 256 div 256 mod 256"
    by (simp_all add: unat_and_ff unat_drop_bit div_mult2_eq [symmetric])
  moreover have "unat t div 256 mod 256 = n div 100 + 48"
    unfolding d1 using assms by (intro base256) simp
  moreover have "unat t div 256 div 256 mod 256 = n div 10 mod 10 + 48"
    unfolding d2 by (rule base256) simp
  moreover have "unat t div 256 div 256 div 256 mod 256 = n mod 10 + 48"
    unfolding d3 by simp
  ultimately have d: "unat (drop_bit 8 t AND 0xff) = n div 100 + 48"
    "unat (drop_bit 16 t AND 0xff) = n div 10 mod 10 + 48"
    "unat (drop_bit 24 t AND 0xff) = n mod 10 + 48"
    by simp_all
  have "drop_bit 8 t AND 0xff = of_nat (n div 100 + 48)"
    "drop_bit 16 t AND 0xff = of_nat (n div 10 mod 10 + 48)"
    "drop_bit 24 t AND 0xff = of_nat (n mod 10 + 48)"
    unfolding d [symmetric] by simp_all
  then have "VersionTagToNumber t
      = uint (of_nat (n div 100 * 100 + n div 10 mod 10 * 10 + n mod 10) :: u32)"
    by (simp add: VersionTagToNumber_def)
  also have "n div 100 * 100 + n div 10 mod 10 * 10 + n mod 10 = n" by (rule decimal3)
  finally show ?thesis using assms by (simp add: t_def uint_nat unat_of_nat)
qed

lemma VersionTag_roundtrip:
  assumes "0 \<le> vn" "vn < 1000"
  shows "VersionTagToNumber (VersionNumberToTag vn) = vn"
  using VersionTag_roundtrip_nat [of "nat vn"] assms by simp

lemma choose_inner_eq: "choose_inner v theirs = (if v \<in> set theirs then Some v else None)"
  by (induction theirs) auto

lemma ChooseSupportedVersion_find:
  "ChooseSupportedVersion ours theirs =
     (case find (\<lambda>v. v \<in> set theirs) ours of Some v \<Rightarrow> v | None \<Rightarrow> VersionUnsupported)"
  by (induction ours) (auto simp: choose_inner_eq)

lemma IsSupportedVersion_iff: "IsSupportedVersion supported v \<longleftrightarrow> v \<in> set supported"
  by (induction supported) auto

text \<open>Without an initial call of \<open>generateNewSkip\<close> the generator counts without ever skipping.\<close>

lemma pngRun_no_skip:
  "nextToSkip p = 0 \<Longrightarrow> next_pn p = of_nat n \<Longrightarrow> 0 < n \<Longrightarrow> n + length rnds < 2 ^ 64 \<Longrightarrow>
   pngRun rnds p = map of_nat [n..<n + length rnds]"
proof (induction rnds arbitrary: p n)
  case Nil
  then show ?case by simp
next
  case (Cons rnd rnds)
  have "unat (of_nat (Suc n) :: u64) = Suc n" using Cons.prems by (intro u64_of_nat_unat) simp
  then have "(of_nat n + 1 :: u64) \<noteq> 0" by (metis nat.distinct(1) of_nat_Suc add.commute unsigned_0)
  then have "pngPop rnd p = (of_nat n, p\<lparr>next_pn := of_nat (Suc n)\<rparr>)"
    using Cons.prems by (simp add: pngPop_def Let_def add.commute)
  moreover have "[n..<n + length (rnd # rnds)] = n # [Suc n..<Suc n + length rnds]"
    by (simp add: upt_conv_Cons del: upt_Suc)
  ultimately show ?case
    using Cons.prems Cons.IH [of "p\<lparr>next_pn := of_nat (Suc n)\<rparr>" "Suc n"]
    by (simp del: upt_Suc of_nat_Suc)
qed

lemma next_pn_generateNewSkip [simp]: "next_pn (generateNewSkip rnd p) = next_pn p"
  by (simp add: generateNewSkip_def Let_def split: option.splits)

lemma pngPop_fst: "fst (pngPop rnd p) = next_pn p"
  by (simp add: pngPop_def Let_def)

lemma pngPop_next:
  "next_pn (snd (pngPop rnd p)) =
     (if next_pn p + 1 = nextToSkip p then next_pn p + 1 + 1 else next_pn p + 1)"
  by (simp add: pngPop_def Let_def)

lemma pngPop_increment:
  "next_pn (snd (pngPop rnd p)) = next_pn p + 1 \<or> next_pn (snd (pngPop rnd p)) = next_pn p + 2"
  unfolding pngPop_next by (metis add.assoc one_add_one)

lemma pngPop_skip:
  "next_pn (snd (pngPop rnd p)) = next_pn p + 2 \<longleftrightarrow> next_pn p + 1 = nextToSkip p"
proof -
  have "next_pn p + 1 + 1 = next_pn p + 2" by (simp only: add.assoc one_add_one)
  moreover have "next_pn p + 1 \<noteq> next_pn p + 2" by simp
  ultimately show ?thesis unfolding pngPop_next by metis
qed

lemma pngPop_no_double_skip:
  assumes "next_pn (snd (pngPop (Some rnd) p)) = next_pn p + 2"
  shows "next_pn (snd (pngPop rnd' (snd (pngPop (Some rnd) p)))) = next_pn p + 3"
proof -
  let ?p' = "snd (pngPop (Some rnd) p)"
  obtain num where num: "getRandomNumber (Some rnd) = Some num"
    by (cases rnd) (auto simp: getRandomNumber_def)
  define skip where "skip = (ucast num :: u64) * (averagePeriod p - 1) div 32767"
  have "unat skip = unat ((ucast num :: u64) * (averagePeriod p - 1)) div 32767"
    by (simp add: skip_def unat_div)
  also have "\<dots> \<le> 2 ^ 64 div 32767" by (intro div_le_mono) (simp add: less_imp_le)
  finally have "unat (1 + skip) = Suc (unat skip)" by (simp add: unat_word_ariths)
  then have nz: "1 + skip \<noteq> 0" by (metis nat.distinct(1) unsigned_0)
  have hit: "next_pn p + 1 = nextToSkip p" using assms by (simp only: pngPop_skip)
  have "?p' = generateNewSkip (Some rnd) (p\<lparr>next_pn := next_pn p + 1 + 1\<rparr>)"
    using hit by (simp only: pngPop_def Let_def) simp
  then have "nextToSkip ?p' = next_pn ?p' + 2 + skip"
    using num by (simp add: generateNewSkip_def skip_def Let_def)
  then have "next_pn ?p' + 1 \<noteq> nextToSkip ?p'" using nz by (simp add: algebra_simps)
  then have "next_pn (snd (pngPop rnd' ?p')) = next_pn ?p' + 1" by (simp only: pngPop_next if_False)
  then show ?thesis using assms by simp
qed

lemma GetPacketNumberLength_inferred:
  assumes "leastUnacked \<le> pn" "unat pn < 2 ^ 47" "leastUnacked \<le> largest + 1" "largest \<le> pn"
  defines "len \<equiv> GetPacketNumberLengthForPublicHeader pn leastUnacked"
  shows "InferPacketNumber len largest (take_bit (8 * unat len) pn) = pn"
proof -
  have len: "len = 2 \<and> unat pn < unat leastUnacked + 2 ^ 15
    \<or> len = 4 \<and> unat pn < unat leastUnacked + 2 ^ 31 \<or> len = 6"
    unfolding len_def using assms(1) by (rule GetPacketNumberLengthForPublicHeader_cases)
  have largest: "unat largest < 2 ^ 47" "unat leastUnacked \<le> Suc (unat largest)" "unat largest \<le> unat pn"
    using assms by (auto simp: word_le_nat_alt unat_word_ariths)
  show ?thesis
    by (rule InferPacketNumber_correct [OF _ refl]) (use len largest assms(2) in auto)
qed



text \<open>
  C34: a generator made by \<open>newPacketNumberGenerator\<close> hands out 1, 2, 3, \<dots> without ever skipping
  a number, whatever the random source returns.
\<close>

theorem newPacketNumberGenerator_never_skips:
  assumes "length rnds < 2 ^ 64 - 1"
  shows "pngRun rnds (newPacketNumberGenerator period) = map of_nat [1..<1 + length rnds]"
  by (rule pngRun_no_skip) (use assms in \<open>simp_all add: newPacketNumberGenerator_def\<close>)

theorem newPacketNumberGenerator_never_skips_witness:
  "pngRun [Some (1, 2), None, Some (0, 0)] (newPacketNumberGenerator 500) = [1, 2, 3]"
  using newPacketNumberGenerator_never_skips [of "[Some (1, 2), None, Some (0, 0)]" 500]
  by (simp add: upt_conv_Cons)

text \<open>
  C35: version negotiation picks the first of our versions that the peer offers (and
  \<open>VersionUnsupported\<close> when there is none), and the tag sent for a version number below 1000 is
  read back as that number.
\<close>

theorem version_negotiation:
  "ChooseSupportedVersion ours theirs =
     (case find (\<lambda>v. IsSupportedVersion theirs v) ours of Some v \<Rightarrow> v | None \<Rightarrow> VersionUnsupported)"
  by (simp add: ChooseSupportedVersion_find IsSupportedVersion_iff)

end
