(* ===== verification/Wire_Simple.thy ===== *)
theory Wire_Simple
  imports Packet_Number
begin

text \<open>
  The frames of \<open>internal/wire\<close> with a fixed layout: RST_STREAM, WINDOW_UPDATE, BLOCKED, PING,
  GOAWAY, CONNECTION_CLOSE, STOP_WAITING, ADD_ADDRESS and PATHS. A frame is a record with the
  fields of the Go struct; \<open>Write\<close> returns the bytes it appends to the buffer or the error it
  returns (the caller drops the buffer then), \<open>Parse\<close> the frame and the bytes that are left.
  What Go's \<open>Frame\<close> interface promises is the locale \<open>frame_codec\<close>: \<open>MinLength\<close> is the number
  of bytes \<open>Write\<close> appends and the parser reads back exactly those bytes.
\<close>

subsection \<open>Error codes and limits\<close>

definition InternalError :: u32 where "InternalError = 1"

definition InvalidPacketHeader :: u32 where "InvalidPacketHeader = 3"

definition InvalidFrameData :: u32 where "InvalidFrameData = 4"

definition MissingPayload :: u32 where "MissingPayload = 48"

definition InvalidStreamData :: u32 where "InvalidStreamData = 46"

definition UnencryptedStreamData :: u32 where "UnencryptedStreamData = 61"

definition InvalidRstStreamData :: u32 where "InvalidRstStreamData = 6"

definition InvalidConnectionCloseData :: u32 where "InvalidConnectionCloseData = 7"

definition InvalidGoawayData :: u32 where "InvalidGoawayData = 8"

definition InvalidWindowUpdateData :: u32 where "InvalidWindowUpdateData = 57"

definition InvalidBlockedData :: u32 where "InvalidBlockedData = 58"

definition InvalidStopWaitingData :: u32 where "InvalidStopWaitingData = 60"

definition InvalidAckData :: u32 where "InvalidAckData = 9"

definition InvalidVersionNegotiationPacket :: u32 where "InvalidVersionNegotiationPacket = 10"

definition DecryptionFailure :: u32 where "DecryptionFailure = 12"

definition EmptyStreamFrameNoFin :: u32 where "EmptyStreamFrameNoFin = 50"

definition MaxPacketSize :: ByteCount where "MaxPacketSize = 1350"

definition PacketNumberLenInvalid :: PacketNumberLen where "PacketNumberLenInvalid = 0"

definition InitialPathID :: PathID where "InitialPathID = 0"

subsection \<open>RST_STREAM\<close>

record RstStreamFrame =
  rst_StreamID :: StreamID
  rst_ErrorCode :: u32
  rst_ByteOffset :: ByteCount

definition rst_Write :: "VersionNumber \<Rightarrow> RstStreamFrame \<Rightarrow> error + bytes" where
  [frame_defs]: "rst_Write version f =
     Inr ([0x01]
       @ WriteUint32 (GetByteOrder version) (rst_StreamID f)
       @ WriteUint64 (GetByteOrder version) (rst_ByteOffset f)
       @ WriteUint32 (GetByteOrder version) (rst_ErrorCode f))"

definition rst_MinLength :: "VersionNumber \<Rightarrow> RstStreamFrame \<Rightarrow> error + ByteCount" where
  [frame_defs]: "rst_MinLength version f = Inr (1 + 4 + 8 + 4)"

definition ParseRstStreamFrame ::
    "VersionNumber \<Rightarrow> bytes \<Rightarrow> error + RstStreamFrame \<times> bytes" where
  [frame_defs]: "ParseRstStreamFrame version r =
     bindE (ReadByte r) (\<lambda>(_, r).
     bindE (ReadUint32 (GetByteOrder version) r) (\<lambda>(sid, r).
     bindE (ReadUint64 (GetByteOrder version) r) (\<lambda>(byteOffset, r).
     bindE (ReadUint32 (GetByteOrder version) r) (\<lambda>(errorCode, r).
       Inr (\<lparr>rst_StreamID = sid, rst_ErrorCode = errorCode, rst_ByteOffset = byteOffset\<rparr>, r)))))"

subsection \<open>WINDOW_UPDATE\<close>

record WindowUpdateFrame =
  wu_StreamID :: StreamID
  wu_ByteOffset :: ByteCount

definition wu_Write :: "VersionNumber \<Rightarrow> WindowUpdateFrame \<Rightarrow> error + bytes" where
  [frame_defs]: "wu_Write version f =
     Inr ([0x04]
       @ WriteUint32 (GetByteOrder version) (wu_StreamID f)
       @ WriteUint64 (GetByteOrder version) (wu_ByteOffset f))"

definition wu_MinLength :: "VersionNumber \<Rightarrow> WindowUpdateFrame \<Rightarrow> error + ByteCount" where
  [frame_defs]: "wu_MinLength version f = Inr (1 + 4 + 8)"

definition ParseWindowUpdateFrame ::
    "VersionNumber \<Rightarrow> bytes \<Rightarrow> error + WindowUpdateFrame \<times> bytes" where
  [frame_defs]: "ParseWindowUpdateFrame version r =
     bindE (ReadByte r) (\<lambda>(_, r).
     bindE (ReadUint32 (GetByteOrder version) r) (\<lambda>(sid, r).
     bindE (ReadUint64 (GetByteOrder version) r) (\<lambda>(byteOffset, r).
       Inr (\<lparr>wu_StreamID = sid, wu_ByteOffset = byteOffset\<rparr>, r))))"

subsection \<open>BLOCKED\<close>

record BlockedFrame =
  blocked_StreamID :: StreamID

definition blocked_Write :: "VersionNumber \<Rightarrow> BlockedFrame \<Rightarrow> error + bytes" where
  [frame_defs]: "blocked_Write version f =
     Inr ([0x05] @ WriteUint32 (GetByteOrder version) (blocked_StreamID f))"

definition blocked_MinLength :: "VersionNumber \<Rightarrow> BlockedFrame \<Rightarrow> error + ByteCount" where
  [frame_defs]: "blocked_MinLength version f = Inr (1 + 4)"

definition ParseBlockedFrame :: "VersionNumber \<Rightarrow> bytes \<Rightarrow> error + BlockedFrame \<times> bytes" where
  [frame_defs]: "ParseBlockedFrame version r =
     bindE (ReadByte r) (\<lambda>(_, r).
     bindE (ReadUint32 (GetByteOrder version) r) (\<lambda>(sid, r).
       Inr (\<lparr>blocked_StreamID = sid\<rparr>, r)))"

subsection \<open>PING\<close>

datatype PingFrame = PingFrame

definition ping_Write :: "VersionNumber \<Rightarrow> PingFrame \<Rightarrow> error + bytes" where
  [frame_defs]: "ping_Write version f = Inr [0x07]"

definition ping_MinLength :: "VersionNumber \<Rightarrow> PingFrame \<Rightarrow> error + ByteCount" where
  [frame_defs]: "ping_MinLength version f = Inr 1"

definition ParsePingFrame :: "VersionNumber \<Rightarrow> bytes \<Rightarrow> error + PingFrame \<times> bytes" where
  [frame_defs]: "ParsePingFrame version r = bindE (ReadByte r) (\<lambda>(_, r). Inr (PingFrame, r))"

subsection \<open>GOAWAY\<close>

text \<open>A Go string is its bytes.\<close>

record GoawayFrame =
  goaway_ErrorCode :: u32
  goaway_LastGoodStream :: StreamID
  goaway_ReasonPhrase :: bytes

definition ParseGoawayFrame :: "VersionNumber \<Rightarrow> bytes \<Rightarrow> error + GoawayFrame \<times> bytes" where
  [frame_defs]: "ParseGoawayFrame version r =
     bindE (ReadByte r) (\<lambda>(_, r).
     bindE (ReadUint32 (GetByteOrder version) r) (\<lambda>(errorCode, r).
     bindE (ReadUint32 (GetByteOrder version) r) (\<lambda>(lastGoodStream, r).
     bindE (ReadUint16 (GetByteOrder version) r) (\<lambda>(reasonPhraseLen, r).
       if reasonPhraseLen > ucast MaxPacketSize then Inl (QuicError InvalidGoawayData)
       else bindE (ReadFull (unat reasonPhraseLen) r) (\<lambda>(reasonPhrase, r).
         Inr (\<lparr>goaway_ErrorCode = errorCode, goaway_LastGoodStream = lastGoodStream,
               goaway_ReasonPhrase = reasonPhrase\<rparr>, r))))))"

definition goaway_Write :: "VersionNumber \<Rightarrow> GoawayFrame \<Rightarrow> error + bytes" where
  [frame_defs]: "goaway_Write version f =
     Inr ([0x03]
       @ WriteUint32 (GetByteOrder version) (goaway_ErrorCode f)
       @ WriteUint32 (GetByteOrder version) (goaway_LastGoodStream f)
       @ WriteUint16 (GetByteOrder version) (of_nat (length (goaway_ReasonPhrase f)))
       @ goaway_ReasonPhrase f)"

definition goaway_MinLength :: "VersionNumber \<Rightarrow> GoawayFrame \<Rightarrow> error + ByteCount" where
  [frame_defs]: "goaway_MinLength version f =
     Inr (of_nat (1 + 4 + 4 + 2 + length (goaway_ReasonPhrase f)))"

subsection \<open>CONNECTION_CLOSE\<close>

record ConnectionCloseFrame =
  cc_ErrorCode :: u32
  cc_ReasonPhrase :: bytes

definition ParseConnectionCloseFrame ::
    "VersionNumber \<Rightarrow> bytes \<Rightarrow> error + ConnectionCloseFrame \<times> bytes" where
  [frame_defs]: "ParseConnectionCloseFrame version r =
     bindE (ReadByte r) (\<lambda>(_, r).
     bindE (ReadUint32 (GetByteOrder version) r) (\<lambda>(errorCode, r).
     bindE (ReadUint16 (GetByteOrder version) r) (\<lambda>(reasonPhraseLen, r).
       if reasonPhraseLen > ucast MaxPacketSize then Inl (QuicError InvalidConnectionCloseData)
       else bindE (ReadFull (unat reasonPhraseLen) r) (\<lambda>(reasonPhrase, r).
         Inr (\<lparr>cc_ErrorCode = errorCode, cc_ReasonPhrase = reasonPhrase\<rparr>, r)))))"

definition cc_MinLength :: "VersionNumber \<Rightarrow> ConnectionCloseFrame \<Rightarrow> error + ByteCount" where
  [frame_defs]: "cc_MinLength version f = Inr (1 + 4 + 2 + of_nat (length (cc_ReasonPhrase f)))"

definition cc_Write :: "VersionNumber \<Rightarrow> ConnectionCloseFrame \<Rightarrow> error + bytes" where
  [frame_defs]: "cc_Write version f =
     (if length (cc_ReasonPhrase f) > 65535 then Inl ErrReasonPhraseTooLong
      else Inr ([0x02]
        @ WriteUint32 (GetByteOrder version) (cc_ErrorCode f)
        @ WriteUint16 (GetByteOrder version) (of_nat (length (cc_ReasonPhrase f)))
        @ cc_ReasonPhrase f))"

subsection \<open>STOP_WAITING\<close>

record StopWaitingFrame =
  sw_LeastUnacked :: PacketNumber
  sw_PacketNumberLen :: PacketNumberLen
  sw_PacketNumber :: PacketNumber

text \<open>
  Packet numbers and lengths are written with 1, 2, 4 or 6 bytes in several frames; \<open>dflt\<close> is what
  the \<open>switch\<close> does on any other length. The public header, the ACK and the STOP_WAITING writer
  mask a 6-byte value; the CLOSE_PATH writer does not.
\<close>

definition write_pn ::
    "VersionNumber \<Rightarrow> error + bytes \<Rightarrow> PacketNumberLen \<Rightarrow> u64 \<Rightarrow> error + bytes" where
  [frame_defs]: "write_pn version dflt len x =
     (if len = PacketNumberLen1 then Inr [ucast x]
      else if len = PacketNumberLen2 then Inr (WriteUint16 (GetByteOrder version) (ucast x))
      else if len = PacketNumberLen4 then Inr (WriteUint32 (GetByteOrder version) (ucast x))
      else if len = PacketNumberLen6
      then WriteUint48 (GetByteOrder version) (x AND (push_bit 48 1 - 1))
      else dflt)"

definition sw_Write :: "VersionNumber \<Rightarrow> StopWaitingFrame \<Rightarrow> error + bytes" where
  [frame_defs]: "sw_Write version f =
     (if sw_PacketNumber f = 0 then Inl ErrPacketNumberNotSet
      else if sw_LeastUnacked f > sw_PacketNumber f then Inl ErrLeastUnackedHigherThanPacketNumber
      else
        let leastUnackedDelta = sw_PacketNumber f - sw_LeastUnacked f in
        bindE (write_pn version (Inl ErrPacketNumberLenNotSet) (sw_PacketNumberLen f) leastUnackedDelta)
          (\<lambda>d. Inr ([0x06] @ d)))"

definition sw_MinLength :: "VersionNumber \<Rightarrow> StopWaitingFrame \<Rightarrow> error + ByteCount" where
  [frame_defs]: "sw_MinLength version f =
     (if sw_PacketNumberLen f = PacketNumberLenInvalid then Inl ErrPacketNumberLenNotSet
      else Inr (1 + ucast (sw_PacketNumberLen f)))"

definition ParseStopWaitingFrame ::
    "PacketNumber \<Rightarrow> PacketNumberLen \<Rightarrow> VersionNumber \<Rightarrow> bytes \<Rightarrow> error + StopWaitingFrame \<times> bytes" where
  [frame_defs]: "ParseStopWaitingFrame packetNumber packetNumberLen version r =
     bindE (ReadByte r) (\<lambda>(_, r).
     bindE (ReadUintN (GetByteOrder version) packetNumberLen r) (\<lambda>(leastUnackedDelta, r).
       if leastUnackedDelta \<ge> packetNumber then Inl (QuicError InvalidStopWaitingData)
       else Inr (\<lparr>sw_LeastUnacked = packetNumber - leastUnackedDelta,
                  sw_PacketNumberLen = PacketNumberLenInvalid, sw_PacketNumber = 0\<rparr>, r)))"

subsection \<open>ADD_ADDRESS\<close>

text \<open>A \<open>net.IP\<close> is a byte slice; \<open>To4\<close> and \<open>To16\<close> are the conversions of the \<open>net\<close> package.\<close>

record UDPAddr =
  addr_IP :: bytes
  addr_Port :: int

record AddAddressFrame =
  aa_IPVersion :: u8
  aa_Addr :: UDPAddr

definition v4InV6Prefix :: bytes where
  "v4InV6Prefix = replicate 10 0 @ [0xff, 0xff]"

definition To4 :: "bytes \<Rightarrow> bytes option" where
  "To4 ip =
     (if length ip = 4 then Some ip
      else if length ip = 16 \<and> take 12 ip = v4InV6Prefix then Some (drop 12 ip)
      else None)"

definition To16 :: "bytes \<Rightarrow> bytes option" where
  "To16 ip =
     (if length ip = 4 then Some (v4InV6Prefix @ ip)
      else if length ip = 16 then Some ip
      else None)"

definition aa_Write :: "VersionNumber \<Rightarrow> AddAddressFrame \<Rightarrow> error + bytes" where
  [frame_defs]: "aa_Write version f =
     bindE
       (if aa_IPVersion f = 4
        then (case To4 (addr_IP (aa_Addr f)) of
                None \<Rightarrow> Inl ErrInconsistentAddrIPVersion | Some ip \<Rightarrow> Inr (take 4 ip))
        else if aa_IPVersion f = 6
        then (case To16 (addr_IP (aa_Addr f)) of
                None \<Rightarrow> Inl ErrInconsistentAddrIPVersion | Some ip \<Rightarrow> Inr (take 16 ip))
        else Inl ErrUnknownIPVersion)
       (\<lambda>ip. Inr ([0x10, aa_IPVersion f] @ ip
          @ WriteUint16 (GetByteOrder version) (word_of_int (addr_Port (aa_Addr f)))))"

definition ParseAddAddressFrame :: "VersionNumber \<Rightarrow> bytes \<Rightarrow> error + AddAddressFrame \<times> bytes" where
  [frame_defs]: "ParseAddAddressFrame version r =
     bindE (ReadByte r) (\<lambda>(_, r).
     bindE (ReadByte r) (\<lambda>(ipv, r).
     bindE
       (if ipv = 4 then
          bindE (ReadByte r) (\<lambda>(a, r).
          bindE (ReadByte r) (\<lambda>(b, r).
          bindE (ReadByte r) (\<lambda>(c, r).
          bindE (ReadByte r) (\<lambda>(d, r).
            Inr (v4InV6Prefix @ [a, b, c, d], r)))))
        else if ipv = 6 then
          mapE (\<lambda>_. EOF) (ReadFull 16 r)
        else Inl ErrUnknownIPVersion) (\<lambda>(ip, r).
     bindE (ReadUint16 (GetByteOrder version) r) (\<lambda>(port, r).
       Inr (\<lparr>aa_IPVersion = ipv, aa_Addr = \<lparr>addr_IP = ip, addr_Port = uint port\<rparr>\<rparr>, r)))))"

definition aa_MinLength :: "VersionNumber \<Rightarrow> AddAddressFrame \<Rightarrow> error + ByteCount" where
  [frame_defs]: "aa_MinLength version f =
     (if aa_IPVersion f = 4 then Inr (1 + 1 + 4 + 2)
      else if aa_IPVersion f = 6 then Inr (1 + 1 + 16 + 2)
      else Inl ErrUnknownIPVersion)"

subsection \<open>PATHS\<close>

record PathsFrame =
  paths_MaxNumPaths :: u8
  paths_NumPaths :: u8
  paths_PathIDs :: "PathID list"
  paths_RemoteRTTs :: "Duration list"

text \<open>The loop over the paths; both slices have the same length when it runs.\<close>

fun paths_Write_loop :: "VersionNumber \<Rightarrow> PathID list \<Rightarrow> Duration list \<Rightarrow> bytes" where
  "paths_Write_loop version (p # ps) (d # ds) =
     [p] @ writeUfloat16 (GetByteOrder version) (word_of_int (go_div d Microsecond))
     @ paths_Write_loop version ps ds"
| "paths_Write_loop version _ _ = []"

definition paths_Write :: "VersionNumber \<Rightarrow> PathsFrame \<Rightarrow> error + bytes" where
  [frame_defs]: "paths_Write version f =
     (if unat (paths_NumPaths f) \<noteq> length (paths_PathIDs f) then Inl ErrPathsNumber
      else if length (paths_PathIDs f) \<noteq> length (paths_RemoteRTTs f) then Inl ErrMissingRTT
      else Inr ([0x12, paths_MaxNumPaths f, paths_NumPaths f]
        @ paths_Write_loop version (paths_PathIDs f) (paths_RemoteRTTs f)))"

fun ParsePaths_loop ::
    "nat \<Rightarrow> VersionNumber \<Rightarrow> bytes \<Rightarrow> error + (PathID list \<times> Duration list) \<times> bytes" where
  "ParsePaths_loop 0 version r = Inr (([], []), r)"
| "ParsePaths_loop (Suc n) version r =
     bindE (ReadByte r) (\<lambda>(pathID, r).
     bindE (readUfloat16 (GetByteOrder version) r) (\<lambda>(remoteRTT, r).
     bindE (ParsePaths_loop n version r) (\<lambda>((ids, rtts), r).
       Inr ((pathID # ids, wrap64 (uint remoteRTT * Microsecond) # rtts), r))))"

definition ParsePathsFrame :: "VersionNumber \<Rightarrow> bytes \<Rightarrow> error + PathsFrame \<times> bytes" where
  [frame_defs]: "ParsePathsFrame version r =
     bindE (ReadByte r) (\<lambda>(_, r).
     bindE (ReadByte r) (\<lambda>(maxNum, r).
     bindE (ReadByte r) (\<lambda>(num, r).
       if num > maxNum then Inl ErrTooManyPaths
       else bindE (ParsePaths_loop (unat num) version r) (\<lambda>((ids, rtts), r).
         Inr (\<lparr>paths_MaxNumPaths = maxNum, paths_NumPaths = num,
               paths_PathIDs = ids, paths_RemoteRTTs = rtts\<rparr>, r)))))"

text \<open>The sum is computed in \<open>uint8\<close>, the type of \<open>NumPaths\<close>.\<close>

definition paths_MinLength :: "VersionNumber \<Rightarrow> PathsFrame \<Rightarrow> error + ByteCount" where
  [frame_defs]: "paths_MinLength version f =
     (let length = 1 + 1 + 1 + (3 * paths_NumPaths f) in Inr (ucast length))"

subsection \<open>What the frame interface promises\<close>

text \<open>
  \<open>ok\<close> are the frames that fit the wire format, \<open>decoded f\<close> is what the peer reads, \<open>tag\<close>
  recognises the type byte by which the receiver selects the parser.
\<close>

locale frame_codec =
  fixes Write :: "VersionNumber \<Rightarrow> 'f \<Rightarrow> error + bytes"
    and MinLength :: "VersionNumber \<Rightarrow> 'f \<Rightarrow> error + ByteCount"
    and Parse :: "VersionNumber \<Rightarrow> bytes \<Rightarrow> error + 'f \<times> bytes"
    and ok :: "'f \<Rightarrow> bool" and decoded :: "'f \<Rightarrow> 'f" and tag :: "byte \<Rightarrow> bool"
  assumes Write_ok: "ok f \<Longrightarrow> \<exists>t d. Write v f = Inr (t # d) \<and> tag t"
    and Parse_Write: "ok f \<Longrightarrow> Write v f = Inr bs \<Longrightarrow> Parse v (bs @ r) = Inr (decoded f, r)"
    and MinLength_Write:
      "ok f \<Longrightarrow> Write v f = Inr bs \<Longrightarrow> MinLength v f = Inr (of_nat (length bs))"
    and Parse_consumes: "Parse v r = Inr (f, r') \<Longrightarrow> length r' < length r"
begin

text \<open>The encoding of a frame is self-delimiting.\<close>

lemma Write_prefix_free:
  assumes "ok f" "ok g" "Write v f = Inr bs" "Write v g = Inr cs" "bs @ r = cs @ r'"
  shows "decoded f = decoded g \<and> r = r' \<and> bs = cs"
  using Parse_Write [OF assms(1,3), of r] Parse_Write [OF assms(2,4), of r'] assms(5) by simp

lemma Write_Parse_tagged:
  assumes "ok f"
  shows "\<exists>t d. Write v f = Inr (t # d) \<and> tag t \<and> MinLength v f = Inr (of_nat (length (t # d))) \<and>
    (\<forall>r. Parse v ((t # d) @ r) = Inr (decoded f, r))"
  using Write_ok [OF assms, of v] Parse_Write [OF assms] MinLength_Write [OF assms] by metis

lemma Write_Parse:
  assumes "ok f"
  obtains bs where "Write v f = Inr bs" "bs \<noteq> []" "tag (hd bs)"
    "\<And>r. Parse v (bs @ r) = Inr (decoded f, r)"
    "MinLength v f = Inr (of_nat (length bs))"
  using Write_ok [OF assms, of v] Parse_Write [OF assms] MinLength_Write [OF assms] by fastforce

end

lemma ucast_u16_MaxPacketSize: "(ucast MaxPacketSize :: u16) = 1350"
  by (simp add: MaxPacketSize_def)

lemma unat_of_nat_u16: "n \<le> 1350 \<Longrightarrow> unat (of_nat n :: u16) = n"
  by (simp add: unat_of_nat)

lemma reason_phrase_fits: "n \<le> 1350 \<Longrightarrow> \<not> (of_nat n :: u16) > ucast MaxPacketSize"
  by (simp add: ucast_u16_MaxPacketSize word_less_nat_alt unat_of_nat_u16)

lemma simple_frames_consume:
  "ParseRstStreamFrame v r = Inr (f1, r') \<Longrightarrow> length r' < length r"
  "ParseWindowUpdateFrame v r = Inr (f2, r') \<Longrightarrow> length r' < length r"
  "ParseBlockedFrame v r = Inr (f3, r') \<Longrightarrow> length r' < length r"
  "ParsePingFrame v r = Inr (f4, r') \<Longrightarrow> length r' < length r"
  "ParseGoawayFrame v r = Inr (f5, r') \<Longrightarrow> length r' < length r"
  "ParseConnectionCloseFrame v r = Inr (f6, r') \<Longrightarrow> length r' < length r"
  "ParseStopWaitingFrame pn len v r = Inr (f7, r') \<Longrightarrow> length r' < length r"
  by (auto simp: frame_defs bindE_eq_Inr split: if_splits dest!: read_length)

lemma mapE_eq_Inr: "mapE g m = Inr y \<longleftrightarrow> m = Inr y"
  by (cases m) auto

lemma ParseAddAddressFrame_consumes:
  "ParseAddAddressFrame v r = Inr (f, r') \<Longrightarrow> length r' < length r"
  by (auto simp: frame_defs bindE_eq_Inr mapE_eq_Inr split: if_splits dest!: read_length)

lemma readUfloat16_length: "readUfloat16 (GetByteOrder v) r = Inr (x, r') \<Longrightarrow> length r = length r' + 2"
  by (auto simp: readUfloat16_def bindE_eq_Inr Let_def split: if_splits dest!: read_length)

lemma ParsePaths_loop_length:
  "ParsePaths_loop n v r = Inr (x, r') \<Longrightarrow> length r = length r' + 3 * n"
  by (induction n arbitrary: r x)
    (auto simp: bindE_eq_Inr dest!: ReadByte_length readUfloat16_length)

lemma ParsePathsFrame_consumes:
  "ParsePathsFrame v r = Inr (f, r') \<Longrightarrow> length r' < length r"
  by (auto simp: frame_defs bindE_eq_Inr split: if_splits
      dest!: ReadByte_length ParsePaths_loop_length)

lemmas frames_consume =
  simple_frames_consume ParseAddAddressFrame_consumes ParsePathsFrame_consumes

subsection \<open>The frames keep the promise\<close>

interpretation rst: frame_codec rst_Write rst_MinLength ParseRstStreamFrame
    "\<lambda>_. True" "\<lambda>f. f" "\<lambda>t. t = 0x01"
  by unfold_locales (erule frames_consume | (auto simp: frame_defs codec)[1])+

interpretation wu: frame_codec wu_Write wu_MinLength ParseWindowUpdateFrame
    "\<lambda>_. True" "\<lambda>f. f" "\<lambda>t. t = 0x04"
  by unfold_locales (erule frames_consume | (auto simp: frame_defs codec)[1])+

interpretation blocked: frame_codec blocked_Write blocked_MinLength ParseBlockedFrame
    "\<lambda>_. True" "\<lambda>f. f" "\<lambda>t. t = 0x05"
  by unfold_locales (erule frames_consume | (auto simp: frame_defs codec)[1])+

interpretation ping: frame_codec ping_Write ping_MinLength ParsePingFrame
    "\<lambda>_. True" "\<lambda>_. PingFrame" "\<lambda>t. t = 0x07"
  by unfold_locales (erule frames_consume | (auto simp: frame_defs codec)[1])+

interpretation goaway: frame_codec goaway_Write goaway_MinLength ParseGoawayFrame
    "\<lambda>f. length (goaway_ReasonPhrase f) \<le> 1350" "\<lambda>f. f" "\<lambda>t. t = 0x03"
  by unfold_locales (erule frames_consume | (auto simp: frame_defs codec reason_phrase_fits unat_of_nat_u16)[1])+

interpretation cc: frame_codec cc_Write cc_MinLength ParseConnectionCloseFrame
    "\<lambda>f. length (cc_ReasonPhrase f) \<le> 1350" "\<lambda>f. f" "\<lambda>t. t = 0x02"
  by unfold_locales (erule frames_consume | (auto simp: frame_defs codec reason_phrase_fits unat_of_nat_u16)[1])+

text \<open>
  A STOP_WAITING frame is read with the packet number and the packet number length of the packet
  it comes in. It fits when the distance to the least unacked packet has that many bytes.
\<close>

definition sw_fits :: "PacketNumber \<Rightarrow> PacketNumberLen \<Rightarrow> StopWaitingFrame \<Rightarrow> bool" where
  "sw_fits pn len f \<longleftrightarrow>
     len \<in> {1, 2, 4, 6} \<and> sw_PacketNumberLen f = len \<and> sw_PacketNumber f = pn
     \<and> 0 < sw_LeastUnacked f \<and> sw_LeastUnacked f \<le> pn
     \<and> unat (pn - sw_LeastUnacked f) < 2 ^ (8 * unat len)"

definition sw_decoded :: "StopWaitingFrame \<Rightarrow> StopWaitingFrame" where
  "sw_decoded f = f\<lparr>sw_PacketNumberLen := PacketNumberLenInvalid, sw_PacketNumber := 0\<rparr>"

lemma ucast_small:
  fixes x :: u64
  shows "unat x < 256 \<Longrightarrow> ucast (ucast x :: u8) = x"
    and "unat x < 65536 \<Longrightarrow> ucast (ucast x :: u16) = x"
    and "unat x < 4294967296 \<Longrightarrow> ucast (ucast x :: u32) = x"
proof -
  have "ucast (ucast x :: u8) = take_bit 8 x" "ucast (ucast x :: u16) = take_bit 16 x"
    "ucast (ucast x :: u32) = take_bit 32 x"
    by (auto intro!: bit_word_eqI simp: bit_simps)
  then show "unat x < 256 \<Longrightarrow> ucast (ucast x :: u8) = x"
    and "unat x < 65536 \<Longrightarrow> ucast (ucast x :: u16) = x"
    and "unat x < 4294967296 \<Longrightarrow> ucast (ucast x :: u32) = x"
    using take_bit_small [of x 8] take_bit_small [of x 16] take_bit_small [of x 32] by simp_all
qed

lemma mask48: "x AND 281474976710655 = take_bit 48 (x :: u64)"
  by (simp add: take_bit_eq_mask mask_eq_exp_minus_1)

text \<open>What was written with \<open>write_pn\<close> is read back with \<open>ReadUintN\<close>.\<close>

lemma write_pn_read:
  assumes "len \<in> {1, 2, 4, 6}" "unat x < 2 ^ (8 * unat len)"
  obtains d where "write_pn v dflt len x = Inr d" "length d = unat len"
    "\<And>r. ReadUintN (GetByteOrder v) len (d @ r) = Inr (x, r)"
proof -
  have w48: "x < 0x1000000000000 \<Longrightarrow> \<exists>d. WriteUint48 (GetByteOrder v) x = Inr d"
    using gbo.WriteUint48_fits [of v x] by auto
  have "\<exists>d. write_pn v dflt len x = Inr d \<and> length d = unat len \<and>
    (\<forall>r. ReadUintN (GetByteOrder v) len (d @ r) = Inr (x, r))"
    using assms w48
    by (auto simp: write_pn_def PacketNumberLen_defs codec ucast_small mask48 take_bit_small
        word_less_nat_alt)
  with that show thesis by blast
qed

interpretation sw: frame_codec sw_Write sw_MinLength "ParseStopWaitingFrame pn len"
    "sw_fits pn len" sw_decoded "\<lambda>t. t = 0x06" for pn len
proof
  fix v f bs r
  assume f: "sw_fits pn len f"
  let ?x = "pn - sw_LeastUnacked f"
  from f have len: "len \<in> {1, 2, 4, 6}" "unat ?x < 2 ^ (8 * unat len)"
    by (auto simp: sw_fits_def)
  obtain d where d: "write_pn v (Inl ErrPacketNumberLenNotSet) len ?x = Inr d"
    "length d = unat len" "\<And>r. ReadUintN (GetByteOrder v) len (d @ r) = Inr (?x, r)"
    using write_pn_read [OF len, of v] by metis
  have pn: "pn \<noteq> 0" "\<not> sw_LeastUnacked f > pn" "sw_PacketNumberLen f = len" "sw_PacketNumber f = pn"
    using f by (auto simp: sw_fits_def)
  have W: "sw_Write v f = Inr (0x06 # d)"
    using d(1) pn by (simp add: sw_Write_def Let_def)
  then show "\<exists>t d. sw_Write v f = Inr (t # d) \<and> t = 0x06" by simp
  assume "sw_Write v f = Inr bs"
  then have bs: "bs = 0x06 # d" using W by simp
  have "\<not> ?x \<ge> pn" "pn - ?x = sw_LeastUnacked f"
    using f by (auto simp: sw_fits_def word_le_nat_alt word_less_nat_alt unat_sub_if')
  then show "ParseStopWaitingFrame pn len v (bs @ r) = Inr (sw_decoded f, r)"
    using d(3) bs by (simp add: ParseStopWaitingFrame_def sw_decoded_def)
  show "sw_MinLength v f = Inr (of_nat (length bs))"
    using bs d(2) pn len(1) by (auto simp: sw_MinLength_def PacketNumberLenInvalid_def)
qed (rule frames_consume)

text \<open>An address must be an IPv4 or an IPv6 address, as its version says, and have a valid port.\<close>

definition aa_fits :: "AddAddressFrame \<Rightarrow> bool" where
  "aa_fits f \<longleftrightarrow>
     (aa_IPVersion f = 4 \<and> To4 (addr_IP (aa_Addr f)) \<noteq> None \<or>
      aa_IPVersion f = 6 \<and> To16 (addr_IP (aa_Addr f)) \<noteq> None) \<and>
     0 \<le> addr_Port (aa_Addr f) \<and> addr_Port (aa_Addr f) < 65536"

definition aa_decoded :: "AddAddressFrame \<Rightarrow> AddAddressFrame" where
  "aa_decoded f = f\<lparr>aa_Addr := (aa_Addr f)\<lparr>addr_IP :=
     (if aa_IPVersion f = 4 then v4InV6Prefix @ the (To4 (addr_IP (aa_Addr f)))
      else the (To16 (addr_IP (aa_Addr f))))\<rparr>\<rparr>"

lemma length_To4: "To4 ip = Some ip' \<Longrightarrow> length ip' = 4"
  by (auto simp: To4_def split: if_splits)

lemma length_To16: "To16 ip = Some ip' \<Longrightarrow> length ip' = 16"
  by (auto simp: To16_def v4InV6Prefix_def split: if_splits)

lemma length4E:
  assumes "length xs = 4"
  obtains a b c d where "xs = [a, b, c, d]"
  using assms by (auto simp: eval_nat_numeral length_Suc_conv)

lemma uint_port: "0 \<le> p \<Longrightarrow> p < 65536 \<Longrightarrow> uint (word_of_int p :: u16) = p"
  by (simp add: unsigned_of_int take_bit_int_eq_self)

interpretation aa: frame_codec aa_Write aa_MinLength ParseAddAddressFrame
    aa_fits aa_decoded "\<lambda>t. t = 0x10"
proof
  fix v f bs r
  assume f: "aa_fits f"
  have port: "uint (word_of_int (addr_Port (aa_Addr f)) :: u16) = addr_Port (aa_Addr f)"
    using f by (intro uint_port) (auto simp: aa_fits_def)
  from f consider ip where "aa_IPVersion f = 4" "To4 (addr_IP (aa_Addr f)) = Some ip" "length ip = 4"
    | ip where "aa_IPVersion f = 6" "To16 (addr_IP (aa_Addr f)) = Some ip" "length ip = 16"
    by (auto simp: aa_fits_def dest: length_To4 length_To16)
  note cases = this
  then show "\<exists>t d. aa_Write v f = Inr (t # d) \<and> t = 0x10"
    by cases (auto simp: frame_defs)
  assume bs: "aa_Write v f = Inr bs"
  from cases show "ParseAddAddressFrame v (bs @ r) = Inr (aa_decoded f, r)"
  proof cases
    case 1
    moreover obtain a b c d where "ip = [a, b, c, d]" using 1(3) by (rule length4E)
    ultimately show ?thesis
      using bs port by (auto simp: aa_Write_def ParseAddAddressFrame_def codec aa_decoded_def)
  next
    case 2
    then show ?thesis
      using bs port by (auto simp: aa_Write_def ParseAddAddressFrame_def codec aa_decoded_def)
  qed
  from cases show "aa_MinLength v f = Inr (of_nat (length bs))"
    using bs by cases (auto simp: aa_Write_def aa_MinLength_def codec)
qed (rule frames_consume)

text \<open>What a remote RTT is after it has been written as a float of microseconds and read back.\<close>

definition ufloat16_rounded :: "u64 \<Rightarrow> u64" where
  "ufloat16_rounded x =
     (case readUfloat16 LittleEndian (writeUfloat16 LittleEndian x) of Inl _ \<Rightarrow> 0 | Inr (y, _) \<Rightarrow> y)"

lemma readUfloat16_writeUfloat16 [codec]:
  "readUfloat16 (GetByteOrder v) (writeUfloat16 (GetByteOrder v) x @ r) = Inr (ufloat16_rounded x, r)"
  using le.ReadUint16_write [of "ufloat16_encode x" "[]"]
  by (simp add: ufloat16_rounded_def readUfloat16_def writeUfloat16_def gbo.ReadUint16_write Let_def)

definition rtt_decoded :: "Duration \<Rightarrow> Duration" where
  "rtt_decoded d =
     wrap64 (uint (ufloat16_rounded (word_of_int (go_div d Microsecond))) * Microsecond)"

definition paths_fits :: "PathsFrame \<Rightarrow> bool" where
  "paths_fits f \<longleftrightarrow>
     unat (paths_NumPaths f) = length (paths_PathIDs f) \<and>
     length (paths_PathIDs f) = length (paths_RemoteRTTs f) \<and>
     paths_NumPaths f \<le> paths_MaxNumPaths f \<and> paths_NumPaths f < 85"

definition paths_decoded :: "PathsFrame \<Rightarrow> PathsFrame" where
  "paths_decoded f = f\<lparr>paths_RemoteRTTs := map rtt_decoded (paths_RemoteRTTs f)\<rparr>"

lemma paths_loop_roundtrip:
  "length ids = length rtts \<Longrightarrow>
   ParsePaths_loop (length ids) v (paths_Write_loop v ids rtts @ r) = Inr ((ids, map rtt_decoded rtts), r)"
  by (induction ids rtts rule: list_induct2) (simp_all add: codec rtt_decoded_def)

lemma length_paths_Write_loop:
  "length ids = length rtts \<Longrightarrow> length (paths_Write_loop v ids rtts) = 3 * length ids"
  by (induction ids rtts rule: list_induct2) simp_all

lemma paths_length_u8: "(n::u8) < 85 \<Longrightarrow> unat (3 + 3 * n) = 3 + 3 * unat n"
  by (simp add: unat_word_ariths word_less_nat_alt)

interpretation paths: frame_codec paths_Write paths_MinLength ParsePathsFrame
    paths_fits paths_decoded "\<lambda>t. t = 0x12"
proof
  fix v f bs r
  assume f: "paths_fits f"
  then show "\<exists>t d. paths_Write v f = Inr (t # d) \<and> t = 0x12"
    by (simp add: paths_fits_def paths_Write_def)
  assume bs: "paths_Write v f = Inr bs"
  show "ParsePathsFrame v (bs @ r) = Inr (paths_decoded f, r)"
    using f bs paths_loop_roundtrip [of "paths_PathIDs f" "paths_RemoteRTTs f" v r]
    by (auto simp: paths_fits_def paths_Write_def ParsePathsFrame_def paths_decoded_def)
  have "unat (3 + 3 * paths_NumPaths f) = length bs"
    using f bs paths_length_u8 [of "paths_NumPaths f"]
    by (auto simp: paths_fits_def paths_Write_def length_paths_Write_loop)
  then show "paths_MinLength v f = Inr (of_nat (length bs))"
    by (simp add: paths_MinLength_def Let_def flip: \<open>_ = length bs\<close>)
qed (rule frames_consume)



end
