(* ===== verification/Wire_Stream.thy ===== *)
theory Wire_Stream
  imports Wire_Simple
begin

text \<open>
  \<open>internal/wire/stream_frame.go\<close>: STREAM frames, whose stream ID and offset are written with as
  few bytes as they need and whose data runs to the end of the packet when no length is present.
\<close>

record StreamFrame =
  sf_StreamID :: StreamID
  sf_FinBit :: bool
  sf_DataLenPresent :: bool
  sf_Offset :: ByteCount
  sf_Data :: bytes
  sf_Rcvpkttime :: "Time option"
  sf_Priority :: bool

definition sf_DataLen :: "StreamFrame \<Rightarrow> ByteCount" where
  "sf_DataLen f = of_nat (length (sf_Data f))"

definition ParseStreamFrame :: "VersionNumber \<Rightarrow> bytes \<Rightarrow> error + StreamFrame \<times> bytes" where
  "ParseStreamFrame version r =
     bindE (ReadByte r) (\<lambda>(typeByte, r).
     let finBit = typeByte AND 0x40 > 0;
         dataLenPresent = typeByte AND 0x20 > 0;
         offsetLen = drop_bit 2 (typeByte AND 0x1c);
         offsetLen = (if offsetLen \<noteq> 0 then offsetLen + 1 else offsetLen);
         streamIDLen = (typeByte AND 0x3) + 1
     in
     bindE (ReadUintN (GetByteOrder version) streamIDLen r) (\<lambda>(sid, r).
     bindE (ReadUintN (GetByteOrder version) offsetLen r) (\<lambda>(offset, r).
     bindE (if dataLenPresent then ReadUint16 (GetByteOrder version) r else Inr (0, r)) (\<lambda>(dataLen, r).
     if dataLen > ucast MaxPacketSize then Inl (QuicError InvalidStreamData)
     else
     let dataLen = (if \<not> dataLenPresent then of_nat (length r) else dataLen) in
     bindE (if dataLen \<noteq> 0 then ReadFull (unat dataLen) r else Inr ([], r)) (\<lambda>(dat, r).
     let frame = \<lparr>sf_StreamID = ucast sid, sf_FinBit = finBit, sf_DataLenPresent = dataLenPresent,
                  sf_Offset = offset, sf_Data = dat, sf_Rcvpkttime = None, sf_Priority = False\<rparr>
     in
     if sf_Offset frame + sf_DataLen frame < sf_Offset frame then Inl (QuicError InvalidStreamData)
     else if \<not> sf_FinBit frame \<and> sf_DataLen frame = 0 then Inl (QuicError EmptyStreamFrameNoFin)
     else Inr (frame, r))))))"

definition calculateStreamIDLength :: "StreamFrame \<Rightarrow> u8" where
  "calculateStreamIDLength f =
     (if sf_StreamID f < push_bit 8 1 then 1
      else if sf_StreamID f < push_bit 16 1 then 2
      else if sf_StreamID f < push_bit 24 1 then 3
      else 4)"

definition getOffsetLength :: "StreamFrame \<Rightarrow> ByteCount" where
  "getOffsetLength f =
     (if sf_Offset f = 0 then 0
      else if sf_Offset f < push_bit 16 1 then 2
      else if sf_Offset f < push_bit 24 1 then 3
      else if sf_Offset f < push_bit 32 1 then 4
      else if sf_Offset f < push_bit 40 1 then 5
      else if sf_Offset f < push_bit 48 1 then 6
      else if sf_Offset f < push_bit 56 1 then 7
      else 8)"

text \<open>The two \<open>switch\<close> statements of \<open>Write\<close>.\<close>

definition write_streamID :: "VersionNumber \<Rightarrow> u8 \<Rightarrow> StreamID \<Rightarrow> error + bytes" where
  "write_streamID version streamIDLen sid =
     (if streamIDLen = 1 then Inr [ucast sid]
      else if streamIDLen = 2 then Inr (WriteUint16 (GetByteOrder version) (ucast sid))
      else if streamIDLen = 3 then WriteUint24 (GetByteOrder version) sid
      else if streamIDLen = 4 then Inr (WriteUint32 (GetByteOrder version) sid)
      else Inl ErrInvalidStreamIDLen)"

definition write_offset :: "VersionNumber \<Rightarrow> ByteCount \<Rightarrow> ByteCount \<Rightarrow> error + bytes" where
  "write_offset version offsetLength offset =
     (if offsetLength = 0 then Inr []
      else if offsetLength = 2 then Inr (WriteUint16 (GetByteOrder version) (ucast offset))
      else if offsetLength = 3 then WriteUint24 (GetByteOrder version) (ucast offset)
      else if offsetLength = 4 then Inr (WriteUint32 (GetByteOrder version) (ucast offset))
      else if offsetLength = 5 then WriteUint40 (GetByteOrder version) offset
      else if offsetLength = 6 then WriteUint48 (GetByteOrder version) offset
      else if offsetLength = 7 then WriteUint56 (GetByteOrder version) offset
      else if offsetLength = 8 then Inr (WriteUint64 (GetByteOrder version) offset)
      else Inl ErrInvalidOffsetLen)"

definition sf_typeByte :: "bool \<Rightarrow> bool \<Rightarrow> ByteCount \<Rightarrow> u8 \<Rightarrow> u8" where
  "sf_typeByte finBit dataLenPresent offsetLength streamIDLen =
     (let typeByte = 0x80;
          typeByte = (if finBit then typeByte XOR 0x40 else typeByte);
          typeByte = (if dataLenPresent then typeByte XOR 0x20 else typeByte);
          typeByte = (if offsetLength > 0 then typeByte XOR push_bit 2 (ucast offsetLength - 1)
                      else typeByte)
      in typeByte XOR (streamIDLen - 1))"

definition sf_Write :: "VersionNumber \<Rightarrow> StreamFrame \<Rightarrow> error + bytes" where
  "sf_Write version f =
     (if length (sf_Data f) = 0 \<and> \<not> sf_FinBit f then Inl ErrEmptyFrameWithoutFin
      else
        let offsetLength = getOffsetLength f;
            streamIDLen = calculateStreamIDLength f;
            typeByte = sf_typeByte (sf_FinBit f) (sf_DataLenPresent f) offsetLength streamIDLen
        in
        bindE (write_streamID version streamIDLen (sf_StreamID f)) (\<lambda>sid.
        bindE (write_offset version offsetLength (sf_Offset f)) (\<lambda>offset.
          Inr ([typeByte] @ sid @ offset
            @ (if sf_DataLenPresent f
               then WriteUint16 (GetByteOrder version) (of_nat (length (sf_Data f))) else [])
            @ sf_Data f))))"

definition sf_MinLength :: "VersionNumber \<Rightarrow> StreamFrame \<Rightarrow> error + ByteCount" where
  "sf_MinLength version f =
     (let length = 1 + ucast (calculateStreamIDLength f) + getOffsetLength f
      in Inr (if sf_DataLenPresent f then length + 2 else length))"

lemma unat_calculateStreamIDLength:
  "calculateStreamIDLength f \<in> {1, 2, 3, 4}"
  "unat (sf_StreamID f) < 2 ^ (8 * unat (calculateStreamIDLength f))"
  by (auto simp: calculateStreamIDLength_def word_less_nat_alt)

lemma unat_getOffsetLength:
  "getOffsetLength f \<in> {0, 2, 3, 4, 5, 6, 7, 8}"
  "unat (sf_Offset f) < 2 ^ (8 * unat (getOffsetLength f))"
  by (auto simp: getOffsetLength_def word_less_nat_alt)

lemma ucast_small_u32:
  fixes x :: u32
  shows "unat x < 256 \<Longrightarrow> ucast (ucast x :: u8) = (ucast x :: u64)"
    and "unat x < 65536 \<Longrightarrow> ucast (ucast x :: u16) = (ucast x :: u64)"
proof -
  have "ucast (ucast x :: u8) = take_bit 8 (ucast x :: u64)"
    "ucast (ucast x :: u16) = take_bit 16 (ucast x :: u64)"
    by (auto intro!: bit_word_eqI simp: bit_simps)
  then show "unat x < 256 \<Longrightarrow> ucast (ucast x :: u8) = (ucast x :: u64)"
    and "unat x < 65536 \<Longrightarrow> ucast (ucast x :: u16) = (ucast x :: u64)"
    by (simp_all add: take_bit_small unat_ucast_u64)
qed

lemma ucast_u32_u64: "ucast (ucast (x::u32) :: u64) = x"
  by (rule bit_word_eqI) (auto simp: bit_simps dest: bit_word_less)

text \<open>The variable-width fields are read back.\<close>

lemma write_streamID_read:
  assumes "len \<in> {1, 2, 3, 4}" "unat sid < 2 ^ (8 * unat len)"
  obtains d where "write_streamID v len sid = Inr d" "length d = unat len"
    "\<And>r. ReadUintN (GetByteOrder v) len (d @ r) = Inr (ucast sid, r)"
proof -
  have w24: "sid < 0x1000000 \<Longrightarrow> \<exists>d. WriteUint24 (GetByteOrder v) sid = Inr d"
    using gbo.WriteUint24_fits [of v sid] by auto
  have "\<exists>d. write_streamID v len sid = Inr d \<and> length d = unat len \<and>
    (\<forall>r. ReadUintN (GetByteOrder v) len (d @ r) = Inr (ucast sid, r))"
    using assms w24
    by (auto simp: write_streamID_def codec ucast_small_u32 word_less_nat_alt)
  with that show thesis by blast
qed

lemma ucast_u32_small: "unat (x::u64) < 4294967296 \<Longrightarrow> unat (ucast x :: u32) = unat x"
  by (simp add: unsigned_ucast_eq take_bit_nat_eq_self_iff)

lemma write_offset_read:
  assumes "len \<in> {0, 2, 3, 4, 5, 6, 7, 8}" "unat x < 2 ^ (8 * unat len)"
  obtains d where "write_offset v len x = Inr d" "length d = unat len"
    "\<And>r. ReadUintN (GetByteOrder v) (ucast len) (d @ r) = Inr (x, r)"
proof -
  have w: "unat x < 0x1000000 \<Longrightarrow> \<exists>d. WriteUint24 (GetByteOrder v) (ucast x) = Inr d"
    "unat x < 0x10000000000 \<Longrightarrow> \<exists>d. WriteUint40 (GetByteOrder v) x = Inr d"
    "unat x < 0x1000000000000 \<Longrightarrow> \<exists>d. WriteUint48 (GetByteOrder v) x = Inr d"
    "unat x < 0x100000000000000 \<Longrightarrow> \<exists>d. WriteUint56 (GetByteOrder v) x = Inr d"
    using gbo.WriteUint24_fits [of v "ucast x"] gbo.WriteUint40_fits [of v x]
      gbo.WriteUint48_fits [of v x] gbo.WriteUint56_fits [of v x]
    by (auto simp: word_less_nat_alt ucast_u32_small)
  have "\<exists>d. write_offset v len x = Inr d \<and> length d = unat len \<and>
    (\<forall>r. ReadUintN (GetByteOrder v) (ucast len) (d @ r) = Inr (x, r))"
    using assms w by (auto simp: write_offset_def codec ucast_small unsigned_eq_0_iff)
  with that show thesis by blast
qed

text \<open>The type byte determines the flags and the widths.\<close>

lemma sf_typeByte_fields:
  fixes fin dlp :: bool
  assumes "ol \<in> {0, 2, 3, 4, 5, 6, 7, 8}" "sl \<in> {1, 2, 3, 4}"
  defines "t \<equiv> sf_typeByte fin dlp ol sl"
  shows "t AND 0x80 = 0x80" "(t AND 0x40 > 0) = fin" "(t AND 0x20 > 0) = dlp" "(t AND 0x3) + 1 = sl"
    "(let l = drop_bit 2 (t AND 0x1c) in if l \<noteq> 0 then l + 1 else l) = ucast ol"
proof -
  define F where "F = (0x80 XOR (if fin then 0x40 else 0) XOR (if dlp then 0x20 else 0) :: u8)"
  define O' where "O' = (if ol > 0 then push_bit 2 (ucast ol - 1) else 0 :: u8)"
  define S where "S = sl - 1"
  have t: "t = (F XOR O') XOR S"
    by (simp add: t_def sf_typeByte_def F_def O'_def S_def Let_def)
  have F: "F AND 0x80 = 0x80" "F AND 0x40 = (if fin then 0x40 else 0)"
    "F AND 0x20 = (if dlp then 0x20 else 0)" "F AND 0x3 = 0" "F AND 0x1c = 0"
    by (simp_all add: F_def)
  have O': "O' AND 0x80 = 0" "O' AND 0x40 = 0" "O' AND 0x20 = 0" "O' AND 0x3 = 0"
    using assms(1) by (auto simp: O'_def)
  have O'2: "O' AND 0x1c = O'" "(if drop_bit 2 O' \<noteq> 0 then drop_bit 2 O' + 1 else drop_bit 2 O') = ucast ol"
    using assms(1) by (auto simp: O'_def)
  have S: "S AND 0x80 = 0" "S AND 0x40 = 0" "S AND 0x20 = 0" "S AND 0x3 = S" "S AND 0x1c = 0" "S + 1 = sl"
    using assms(2) by (auto simp: S_def)
  note m = bit.conj_xor_distrib2
  show "t AND 0x80 = 0x80" "(t AND 0x40 > 0) = fin" "(t AND 0x20 > 0) = dlp" "(t AND 0x3) + 1 = sl"
    by (simp_all only: t m F O' S) (simp_all add: S_def)
  have "t AND 0x1c = O'" by (simp only: t m F O'2 S) simp
  then show "(let l = drop_bit 2 (t AND 0x1c) in if l \<noteq> 0 then l + 1 else l) = ucast ol"
    by (simp only: Let_def O'2)
qed

definition sf_fits :: "StreamFrame \<Rightarrow> bool" where
  "sf_fits f \<longleftrightarrow>
     (sf_FinBit f \<or> sf_Data f \<noteq> []) \<and> length (sf_Data f) \<le> 1350 \<and>
     unat (sf_Offset f) + length (sf_Data f) < 2 ^ 64"

definition sf_decoded :: "StreamFrame \<Rightarrow> StreamFrame" where
  "sf_decoded f = f\<lparr>sf_Rcvpkttime := None, sf_Priority := False\<rparr>"

lemma no_offset_overflow:
  "unat (x::u64) + n < 2 ^ 64 \<Longrightarrow> \<not> x + of_nat n < x"
  by (simp add: word_less_nat_alt unat_word_ariths unat_of_nat)

lemma of_nat_u64_eq_0: "n < 2 ^ 64 \<Longrightarrow> (of_nat n :: u64) = 0 \<longleftrightarrow> n = 0"
  by (simp add: word_unat_eq_iff unat_of_nat)

lemma of_nat_u16_eq_0: "n \<le> 1350 \<Longrightarrow> (of_nat n :: u16) = 0 \<longleftrightarrow> n = 0"
  by (simp add: word_unat_eq_iff unat_of_nat)

lemma sf_Write_bytes:
  assumes "sf_fits f"
  obtains sid off where
    "sf_Write v f = Inr (sf_typeByte (sf_FinBit f) (sf_DataLenPresent f) (getOffsetLength f)
        (calculateStreamIDLength f) # sid @ off @
        (if sf_DataLenPresent f then WriteUint16 (GetByteOrder v) (of_nat (length (sf_Data f))) else [])
        @ sf_Data f)"
    "length sid = unat (calculateStreamIDLength f)" "length off = unat (getOffsetLength f)"
    "\<And>r. ReadUintN (GetByteOrder v) (calculateStreamIDLength f) (sid @ r) = Inr (ucast (sf_StreamID f), r)"
    "\<And>r. ReadUintN (GetByteOrder v) (ucast (getOffsetLength f)) (off @ r) = Inr (sf_Offset f, r)"
proof -
  obtain sid where 1: "write_streamID v (calculateStreamIDLength f) (sf_StreamID f) = Inr sid"
    "length sid = unat (calculateStreamIDLength f)"
    "\<And>r. ReadUintN (GetByteOrder v) (calculateStreamIDLength f) (sid @ r) = Inr (ucast (sf_StreamID f), r)"
    using write_streamID_read [OF unat_calculateStreamIDLength [of f], of v] by metis
  obtain off where 2: "write_offset v (getOffsetLength f) (sf_Offset f) = Inr off"
    "length off = unat (getOffsetLength f)"
    "\<And>r. ReadUintN (GetByteOrder v) (ucast (getOffsetLength f)) (off @ r) = Inr (sf_Offset f, r)"
    using write_offset_read [OF unat_getOffsetLength [of f], of v] by metis
  show thesis
    by (rule that [OF _ 1(2) 2(2) 1(3) 2(3)])
      (use 1(1) 2(1) assms in \<open>auto simp: sf_Write_def sf_fits_def Let_def\<close>)
qed

lemma ParseStreamFrame_Write:
  assumes "sf_fits f" "sf_Write v f = Inr bs" "sf_DataLenPresent f \<or> r = []"
  shows "ParseStreamFrame v (bs @ r) = Inr (sf_decoded f, r)"
proof -
  obtain sid off where W:
    "sf_Write v f = Inr (sf_typeByte (sf_FinBit f) (sf_DataLenPresent f) (getOffsetLength f)
        (calculateStreamIDLength f) # sid @ off @
        (if sf_DataLenPresent f then WriteUint16 (GetByteOrder v) (of_nat (length (sf_Data f))) else [])
        @ sf_Data f)"
    and R: "\<And>r. ReadUintN (GetByteOrder v) (calculateStreamIDLength f) (sid @ r) = Inr (ucast (sf_StreamID f), r)"
    "\<And>r. ReadUintN (GetByteOrder v) (ucast (getOffsetLength f)) (off @ r) = Inr (sf_Offset f, r)"
    using sf_Write_bytes [OF assms(1), of v] by metis
  note t = sf_typeByte_fields [OF unat_getOffsetLength(1) unat_calculateStreamIDLength(1)]
  have len: "length (sf_Data f) \<le> 1350" and ne: "sf_FinBit f \<or> sf_Data f \<noteq> []"
    and off: "\<not> sf_Offset f + of_nat (length (sf_Data f)) < sf_Offset f"
    using assms(1) by (auto simp: sf_fits_def no_offset_overflow)
  have dat: "(of_nat (length (sf_Data f)) :: u64) = 0 \<longleftrightarrow> sf_Data f = []"
    "(of_nat (length (sf_Data f)) :: u16) = 0 \<longleftrightarrow> sf_Data f = []"
    using len by (auto simp: of_nat_u64_eq_0 of_nat_u16_eq_0)
  note facts = assms(2,3) W R t len ne off dat gbo.ReadUint16_write [of v 0 "[]"] R(2) [of "[]"]
  note unfold = ParseStreamFrame_def Let_def codec sf_DataLen_def sf_decoded_def reason_phrase_fits
    unat_of_nat_u16 ucast_u32_u64 ReadFull_def
  show ?thesis
  proof (cases "sf_Data f = []")
    case True
    then show ?thesis using facts by (cases "sf_DataLenPresent f") (auto simp: unfold)
  next
    case False
    then show ?thesis using facts by (cases "sf_DataLenPresent f") (auto simp: unfold)
  qed
qed

lemma length_sf_Write:
  assumes "sf_fits f" "sf_Write v f = Inr bs"
  shows "length bs = (1 + unat (calculateStreamIDLength f) + unat (getOffsetLength f)
    + (if sf_DataLenPresent f then 2 else 0)) + length (sf_Data f)"
proof -
  obtain sid off where
    "sf_Write v f = Inr (sf_typeByte (sf_FinBit f) (sf_DataLenPresent f) (getOffsetLength f)
        (calculateStreamIDLength f) # sid @ off @
        (if sf_DataLenPresent f then WriteUint16 (GetByteOrder v) (of_nat (length (sf_Data f))) else [])
        @ sf_Data f)"
    "length sid = unat (calculateStreamIDLength f)" "length off = unat (getOffsetLength f)"
    using sf_Write_bytes [OF assms(1), of v] by metis
  with assms(2) show ?thesis by (auto simp: codec)
qed

text \<open>\<open>MinLength\<close> is the length of the header; the data comes on top.\<close>

lemma sf_MinLength_Write:
  assumes "sf_fits f" "sf_Write v f = Inr bs"
  shows "\<exists>h. sf_MinLength v f = Inr h \<and> h + sf_DataLen f = of_nat (length bs)"
proof -
  have "(ucast (calculateStreamIDLength f) :: u64) = of_nat (unat (calculateStreamIDLength f))"
    "getOffsetLength f = of_nat (unat (getOffsetLength f))"
    by simp_all
  then show ?thesis
    using length_sf_Write [OF assms]
    by (auto simp: sf_MinLength_def sf_DataLen_def Let_def simp del: of_nat_unat)
qed

lemma sf_Write_tag:
  assumes "sf_fits f"
  obtains t d where "sf_Write v f = Inr (t # d)" "t AND 0x80 = 0x80"
proof -
  obtain sid off where "sf_Write v f = Inr (sf_typeByte (sf_FinBit f) (sf_DataLenPresent f)
      (getOffsetLength f) (calculateStreamIDLength f) # sid @ off @
        (if sf_DataLenPresent f then WriteUint16 (GetByteOrder v) (of_nat (length (sf_Data f))) else [])
        @ sf_Data f)"
    using sf_Write_bytes [OF assms, of v] by metis
  then show thesis
    by (rule that) (rule sf_typeByte_fields(1) [OF unat_getOffsetLength(1) unat_calculateStreamIDLength(1)])
qed

lemma ParseStreamFrame_consumes:
  "ParseStreamFrame v r = Inr (f, r') \<Longrightarrow> length r' < length r"
  unfolding ParseStreamFrame_def Let_def
  by (erule consumes_type_byte) (intro within_intros order_refl; simp)

text \<open>
  The part of the contract of \<open>frame_codec\<close> for which \<open>MinLength\<close> counts the data as well, as the
  packers do.
\<close>

definition sf_length :: "VersionNumber \<Rightarrow> StreamFrame \<Rightarrow> error + ByteCount" where
  "sf_length v f = bindE (sf_MinLength v f) (\<lambda>h. Inr (h + sf_DataLen f))"

interpretation sf: frame_codec sf_Write sf_length ParseStreamFrame
    "\<lambda>f. sf_fits f \<and> sf_DataLenPresent f" sf_decoded "\<lambda>t. t AND 0x80 = 0x80"
proof
  fix v f bs r
  assume f: "sf_fits f \<and> sf_DataLenPresent f"
  then show "\<exists>t d. sf_Write v f = Inr (t # d) \<and> t AND 0x80 = 0x80"
    using sf_Write_tag [of f v] by metis
  assume bs: "sf_Write v f = Inr bs"
  then show "ParseStreamFrame v (bs @ r) = Inr (sf_decoded f, r)"
    using f by (simp add: ParseStreamFrame_Write)
  show "sf_length v f = Inr (of_nat (length bs))"
    using f sf_MinLength_Write [OF _ bs] by (auto simp: sf_length_def)
qed (rule ParseStreamFrame_consumes)

end
