(* ===== verification/Wire_Ack.thy ===== *)
theory Wire_Ack
  imports Wire_Stream
begin

text \<open>
  \<open>internal/wire/ack_range.go\<close>, \<open>ack_frame.go\<close> and \<open>close_path_frame.go\<close>: ACK and CLOSE_PATH frames,
  which carry the received packets as a first block and a sequence of (gap, length) blocks, a gap
  of more than 255 packets being split over several blocks. The two frames share their range
  code in the source text; here the shared functions take the ranges as arguments.
\<close>

subsection \<open>ACK ranges\<close>

record AckRange =
  First :: PacketNumber
  Last :: PacketNumber

definition HasMissingRanges :: "AckRange list \<Rightarrow> bool" where
  "HasMissingRanges ranges \<longleftrightarrow> length ranges > 0"

text \<open>The loop of \<open>validateAckRanges\<close> over neighbouring ranges.\<close>

fun validate_order :: "AckRange \<Rightarrow> AckRange list \<Rightarrow> bool" where
  "validate_order lastAckRange [] = True"
| "validate_order lastAckRange (ackRange # ranges) =
     (if First lastAckRange \<le> First ackRange then False
      else if First lastAckRange \<le> Last ackRange + 1 then False
      else validate_order ackRange ranges)"

definition validateAckRanges :: "PacketNumber \<Rightarrow> AckRange list \<Rightarrow> bool" where
  "validateAckRanges largestAcked ranges =
     (case ranges of
        [] \<Rightarrow> True
      | [_] \<Rightarrow> False
      | r0 # rs \<Rightarrow>
          if Last r0 \<noteq> largestAcked then False
          else if \<not> list_all (\<lambda>ackRange. First ackRange \<le> Last ackRange) ranges then False
          else validate_order r0 rs)"

text \<open>The loop of \<open>numWritableNackRanges\<close>: it stops at the first range that does not fit.\<close>

fun count_nack_ranges :: "u64 \<Rightarrow> AckRange \<Rightarrow> AckRange list \<Rightarrow> u64" where
  "count_nack_ranges numRanges lastAckRange [] = numRanges"
| "count_nack_ranges numRanges lastAckRange (ackRange # ranges) =
     (let gap = First lastAckRange - Last ackRange - 1;
          rangeLength = 1 + gap div 0xFF;
          rangeLength = (if gap mod 0xFF = 0 then rangeLength - 1 else rangeLength)
      in if numRanges + rangeLength < 0xFF
         then count_nack_ranges (numRanges + rangeLength) ackRange ranges
         else numRanges)"

definition numWritableNackRanges :: "AckRange list \<Rightarrow> u64" where
  "numWritableNackRanges ranges =
     (case ranges of [] \<Rightarrow> 0 | r0 # rs \<Rightarrow> count_nack_ranges 0 r0 rs + 1)"

fun max_range_length :: "PacketNumber \<Rightarrow> AckRange list \<Rightarrow> PacketNumber" where
  "max_range_length maxRangeLength [] = maxRangeLength"
| "max_range_length maxRangeLength (ackRange # ranges) =
     (let rangeLength = Last ackRange - First ackRange + 1 in
      max_range_length (if rangeLength > maxRangeLength then rangeLength else maxRangeLength) ranges)"

definition getMissingSequenceNumberDeltaLen ::
    "PacketNumber \<Rightarrow> PacketNumber \<Rightarrow> AckRange list \<Rightarrow> PacketNumberLen" where
  "getMissingSequenceNumberDeltaLen largestAcked lowestAcked ranges =
     (let maxRangeLength =
            (if HasMissingRanges ranges then max_range_length 0 ranges
             else largestAcked - lowestAcked + 1)
      in if maxRangeLength \<le> 0xFF then PacketNumberLen1
         else if maxRangeLength \<le> 0xFFFF then PacketNumberLen2
         else if maxRangeLength \<le> 0xFFFFFFFF then PacketNumberLen4
         else PacketNumberLen6)"

subsection \<open>Writing blocks\<close>

text \<open>
  \<open>wl\<close> writes a block length. A gap that needs several blocks is written by the inner loop: all
  blocks but the last have gap 255 and length 0.
\<close>

fun write_blocks :: "(u64 \<Rightarrow> error + bytes) \<Rightarrow> nat \<Rightarrow> u64 \<Rightarrow> u64 \<Rightarrow> error + bytes" where
  "write_blocks wl 0 gap len = Inr []"
| "write_blocks wl (Suc n) gap len =
     (let lastBlock = (n = 0);
          lengthWritten = (if lastBlock then len else 0);
          gapWritten = (if lastBlock then ucast (1 + ((gap - 1) mod 255)) else 0xFF)
      in bindE (wl lengthWritten) (\<lambda>d.
         bindE (write_blocks wl n gap len) (\<lambda>ds. Inr ([gapWritten] @ d @ ds))))"

fun write_ranges ::
    "(u64 \<Rightarrow> error + bytes) \<Rightarrow> u64 \<Rightarrow> AckRange \<Rightarrow> AckRange list \<Rightarrow> u64 \<Rightarrow> error + bytes \<times> u64" where
  "write_ranges wl numRanges lastAckRange [] numRangesWritten = Inr ([], numRangesWritten)"
| "write_ranges wl numRanges lastAckRange (ackRange # ranges) numRangesWritten =
     (let length = Last ackRange - First ackRange + 1;
          gap = First lastAckRange - Last ackRange - 1;
          num = gap div 0xFF + 1;
          num = (if gap mod 0xFF = 0 then num - 1 else num)
      in
      bindE
        (if num = 1
         then bindE (wl length) (\<lambda>d. Inr ([ucast gap] @ d, numRangesWritten + 1))
         else bindE (write_blocks wl (unat num) gap length) (\<lambda>d. Inr (d, numRangesWritten + num)))
        (\<lambda>(d, numRangesWritten).
           if numRangesWritten \<ge> numRanges then Inr (d, numRangesWritten)
           else bindE (write_ranges wl numRanges ackRange ranges numRangesWritten)
             (\<lambda>(ds, numRangesWritten). Inr (d @ ds, numRangesWritten))))"

text \<open>
  From the first block length on, both writers do the same: check the bounds, write the first
  block and the blocks of the other ranges, and check the number of blocks.
\<close>

definition write_ack_ranges ::
    "(u64 \<Rightarrow> error + bytes) \<Rightarrow> PacketNumber \<Rightarrow> PacketNumber \<Rightarrow> AckRange list \<Rightarrow> u64 \<Rightarrow> error + bytes" where
  "write_ack_ranges wl largestAcked lowestAcked ranges numRanges =
     (case ranges of
        [] \<Rightarrow> wl (largestAcked - lowestAcked + 1)
      | r0 # rs \<Rightarrow>
          if largestAcked \<noteq> Last r0 then Inl ErrInconsistentAckLargestAcked
          else if lowestAcked \<noteq> First (last ranges) then Inl ErrInconsistentAckLowestAcked
          else
            bindE (wl (largestAcked - First r0 + 1)) (\<lambda>d.
            bindE (write_ranges wl numRanges r0 rs 1) (\<lambda>(ds, numRangesWritten).
              if numRanges \<noteq> numRangesWritten then Inl ErrInconsistentNumAckRanges
              else Inr (d @ ds))))"

subsection \<open>Parsing blocks\<close>

fun parse_blocks ::
    "nat \<Rightarrow> VersionNumber \<Rightarrow> u8 \<Rightarrow> AckRange list \<Rightarrow> bool \<Rightarrow> bool \<Rightarrow> bytes
     \<Rightarrow> error + (AckRange list \<times> bool) \<times> bytes" where
  "parse_blocks 0 version deltaLen ranges inLongBlock lastRangeComplete r =
     Inr ((ranges, lastRangeComplete), r)"
| "parse_blocks (Suc n) version deltaLen ranges inLongBlock lastRangeComplete r =
     bindE (ReadByte r) (\<lambda>(gap, r).
     bindE (ReadUintN (GetByteOrder version) deltaLen r) (\<lambda>(ackBlockLength, r).
       let length = ackBlockLength;
           cur = last ranges;
           (ranges, lastRangeComplete) =
             (if inLongBlock
              then (butlast ranges @ [\<lparr>First = First cur - (ucast gap + length),
                                        Last = Last cur - ucast gap\<rparr>], lastRangeComplete)
              else
                let l = First cur - ucast gap - 1
                in (ranges @ [\<lparr>First = l - length + 1, Last = l\<rparr>], False));
           lastRangeComplete = (if length > 0 then True else lastRangeComplete)
       in parse_blocks n version deltaLen ranges (ackBlockLength = 0) lastRangeComplete r))"

text \<open>From the first block length up to the range validation; the result is \<open>LowestAcked\<close> and the ranges.\<close>

definition parse_ack_ranges ::
    "bool \<Rightarrow> u64 \<Rightarrow> u8 \<Rightarrow> u8 \<Rightarrow> VersionNumber \<Rightarrow> bytes
     \<Rightarrow> error + (PacketNumber \<times> AckRange list) \<times> bytes" where
  "parse_ack_ranges hasMissingRanges largestAcked numAckBlocks deltaLen version r =
     bindE (ReadUintN (GetByteOrder version) deltaLen r) (\<lambda>(ackBlockLength, r).
       if largestAcked > 0 \<and> ackBlockLength < 1 then Inl ErrInvalidFirstAckRange
       else if ackBlockLength > largestAcked then Inl ErrInvalidAckRanges
       else if hasMissingRanges then
         bindE (parse_blocks (unat numAckBlocks) version deltaLen
                  [\<lparr>First = largestAcked - ackBlockLength + 1, Last = largestAcked\<rparr>] False False r)
           (\<lambda>((ranges, lastRangeComplete), r).
             let ranges = (if \<not> lastRangeComplete then butlast ranges else ranges)
             in if ranges = [] then Inl Panic
                else if \<not> validateAckRanges largestAcked ranges then Inl ErrInvalidAckRanges
                else Inr ((First (last ranges), ranges), r))
       else
         Inr ((if largestAcked = 0 then 0 else largestAcked + 1 - ackBlockLength, []), r))"

subsection \<open>ACK frames\<close>

record AckFrame =
  ack_PathID :: PathID
  ack_LargestAcked :: PacketNumber
  ack_LowestAcked :: PacketNumber
  ack_AckRanges :: "AckRange list"
  ack_PacketReceivedTime :: "Time option"
  ack_DelayTime :: Duration

text \<open>The timestamps of a received ACK are read and ignored.\<close>

fun skip_timestamps :: "nat \<Rightarrow> VersionNumber \<Rightarrow> bytes \<Rightarrow> error + unit \<times> bytes" where
  "skip_timestamps 0 version r = Inr ((), r)"
| "skip_timestamps (Suc n) version r =
     bindE (ReadByte r) (\<lambda>(_, r).
     bindE (ReadUint16 (GetByteOrder version) r) (\<lambda>(_, r).
       skip_timestamps n version r))"

definition parse_timestamps :: "VersionNumber \<Rightarrow> bytes \<Rightarrow> error + unit \<times> bytes" where
  "parse_timestamps version r =
     bindE (ReadByte r) (\<lambda>(numTimestamp, r).
       if numTimestamp > 0 then
         bindE (ReadByte r) (\<lambda>(_, r).
         bindE (ReadUint32 (GetByteOrder version) r) (\<lambda>(_, r).
           skip_timestamps (unat numTimestamp - 1) version r))
       else Inr ((), r))"

definition ParseAckFrame :: "VersionNumber \<Rightarrow> bytes \<Rightarrow> error + AckFrame \<times> bytes" where
  "ParseAckFrame version r =
     bindE (ReadByte r) (\<lambda>(typeByte, r).
     let hasMissingRanges = (typeByte AND 0x20 = 0x20);
         largestAckedLen = 2 * drop_bit 2 (typeByte AND 0x0C);
         largestAckedLen = (if largestAckedLen = 0 then 1 else largestAckedLen);
         deltaLen = 2 * (typeByte AND 0x03);
         deltaLen = (if deltaLen = 0 then 1 else deltaLen)
     in
     bindE (if typeByte AND 0x10 = 0x10 then ReadByte r else Inr (0, r)) (\<lambda>(pathID, r).
     bindE (ReadUintN (GetByteOrder version) largestAckedLen r) (\<lambda>(largestAcked, r).
     bindE (readUfloat16 (GetByteOrder version) r) (\<lambda>(delay, r).
     bindE (if hasMissingRanges then ReadByte r else Inr (0, r)) (\<lambda>(numAckBlocks, r).
     if hasMissingRanges \<and> numAckBlocks = 0 then Inl ErrInvalidAckRanges
     else
     bindE (parse_ack_ranges hasMissingRanges largestAcked numAckBlocks deltaLen version r)
       (\<lambda>((lowestAcked, ranges), r).
     bindE (parse_timestamps version r) (\<lambda>(_, r).
       Inr (\<lparr>ack_PathID = pathID, ack_LargestAcked = largestAcked, ack_LowestAcked = lowestAcked,
             ack_AckRanges = ranges, ack_PacketReceivedTime = None,
             ack_DelayTime = wrap64 (uint delay * Microsecond)\<rparr>, r))))))))"

definition ack_typeByte :: "PacketNumberLen \<Rightarrow> PacketNumberLen \<Rightarrow> bool \<Rightarrow> PathID \<Rightarrow> u8" where
  "ack_typeByte largestAckedLen deltaLen missing pathID =
     (let typeByte = 0x40;
          typeByte = (if largestAckedLen \<noteq> PacketNumberLen1
                      then typeByte XOR push_bit 2 (largestAckedLen div 2) else typeByte);
          typeByte = (if deltaLen \<noteq> PacketNumberLen1 then typeByte XOR (deltaLen div 2) else typeByte);
          typeByte = (if missing then typeByte OR 0x20 else typeByte)
      in if pathID \<noteq> InitialPathID then typeByte OR 0x10 else typeByte)"

text \<open>\<open>Write\<close> also sets \<open>DelayTime\<close>; \<open>now\<close> is the time at which it runs.\<close>

definition ack_Write :: "Time \<Rightarrow> VersionNumber \<Rightarrow> AckFrame \<Rightarrow> (error + bytes) \<times> AckFrame" where
  "ack_Write now version f =
     (let largestAckedLen = GetPacketNumberLength (ack_LargestAcked f);
          ranges = ack_AckRanges f;
          deltaLen = getMissingSequenceNumberDeltaLen (ack_LargestAcked f) (ack_LowestAcked f) ranges;
          typeByte = ack_typeByte largestAckedLen deltaLen (HasMissingRanges ranges) (ack_PathID f);
          f = f\<lparr>ack_DelayTime := time_Since now (ack_PacketReceivedTime f)\<rparr>;
          numRanges = (if HasMissingRanges ranges then numWritableNackRanges ranges else 0)
      in
      (bindE (write_pn version (Inr []) largestAckedLen (ack_LargestAcked f)) (\<lambda>largest.
       if HasMissingRanges ranges \<and> numRanges > 0xFF then Inl Panic
       else
       bindE (write_ack_ranges (write_pn version (Inr []) deltaLen)
                (ack_LargestAcked f) (ack_LowestAcked f) ranges numRanges) (\<lambda>blocks.
         Inr ([typeByte]
           @ (if ack_PathID f \<noteq> InitialPathID then [ack_PathID f] else [])
           @ largest
           @ writeUfloat16 (GetByteOrder version) (word_of_int (go_div (ack_DelayTime f) Microsecond))
           @ (if HasMissingRanges ranges then [ucast (numRanges - 1)] else [])
           @ blocks
           @ [0]))),
       f))"

definition ack_MinLength :: "VersionNumber \<Rightarrow> AckFrame \<Rightarrow> error + ByteCount" where
  "ack_MinLength version f =
     (let length = 1 + 2 + 1;
          length = length + ucast (GetPacketNumberLength (ack_LargestAcked f));
          deltaLen = ucast (getMissingSequenceNumberDeltaLen
                       (ack_LargestAcked f) (ack_LowestAcked f) (ack_AckRanges f));
          length = (if HasMissingRanges (ack_AckRanges f)
                    then length + (1 + deltaLen) * numWritableNackRanges (ack_AckRanges f)
                    else length + deltaLen)
      in Inr (if ack_PathID f \<noteq> InitialPathID then length + 1 else length))"

fun in_some_range :: "PacketNumber \<Rightarrow> AckRange list \<Rightarrow> bool" where
  "in_some_range p [] = False"
| "in_some_range p (ackRange # ranges) =
     (if p \<ge> First ackRange \<and> p \<le> Last ackRange then True else in_some_range p ranges)"

definition AcksPacket :: "AckFrame \<Rightarrow> PacketNumber \<Rightarrow> bool" where
  "AcksPacket f p =
     (if p < ack_LowestAcked f \<or> p > ack_LargestAcked f then False
      else if HasMissingRanges (ack_AckRanges f) then in_some_range p (ack_AckRanges f)
      else p \<ge> ack_LowestAcked f \<and> p \<le> ack_LargestAcked f)"

subsection \<open>CLOSE_PATH frames\<close>

record ClosePathFrame =
  cp_PathID :: PathID
  cp_LargestAcked :: PacketNumber
  cp_LowestAcked :: PacketNumber
  cp_AckRanges :: "AckRange list"

definition cp_flags :: "PacketNumberLen \<Rightarrow> PacketNumberLen \<Rightarrow> bool \<Rightarrow> u8" where
  "cp_flags largestAckedLen deltaLen missing =
     (let flags = 0x00;
          flags = (if missing then flags OR 0x10 else flags);
          flags = (if largestAckedLen \<noteq> PacketNumberLen1
                   then flags XOR push_bit 2 (largestAckedLen div 2) else flags)
      in if deltaLen \<noteq> PacketNumberLen1 then flags XOR (deltaLen div 2) else flags)"

text \<open>This writer does not mask 6-byte values, so \<open>WriteUint48\<close> panics on larger ones.\<close>

definition cp_write_pn :: "VersionNumber \<Rightarrow> PacketNumberLen \<Rightarrow> u64 \<Rightarrow> error + bytes" where
  "cp_write_pn version len x =
     (if len = PacketNumberLen1 then Inr [ucast x]
      else if len = PacketNumberLen2 then Inr (WriteUint16 (GetByteOrder version) (ucast x))
      else if len = PacketNumberLen4 then Inr (WriteUint32 (GetByteOrder version) (ucast x))
      else if len = PacketNumberLen6 then WriteUint48 (GetByteOrder version) x
      else Inr [])"

definition cp_Write :: "VersionNumber \<Rightarrow> ClosePathFrame \<Rightarrow> error + bytes" where
  "cp_Write version f =
     (let ranges = cp_AckRanges f;
          largestAckedLen = GetPacketNumberLength (cp_LargestAcked f);
          deltaLen = getMissingSequenceNumberDeltaLen (cp_LargestAcked f) (cp_LowestAcked f) ranges;
          flags = cp_flags largestAckedLen deltaLen (HasMissingRanges ranges);
          numRanges = (if HasMissingRanges ranges then numWritableNackRanges ranges else 0)
      in
      if HasMissingRanges ranges \<and> numRanges > 0xFF then Inl Panic
      else
      bindE (cp_write_pn version largestAckedLen (cp_LargestAcked f)) (\<lambda>largest.
      bindE (write_ack_ranges (cp_write_pn version deltaLen)
               (cp_LargestAcked f) (cp_LowestAcked f) ranges numRanges) (\<lambda>blocks.
        Inr ([0x11, cp_PathID f, flags]
          @ (if HasMissingRanges ranges then [ucast (numRanges - 1)] else [])
          @ largest
          @ blocks))))"

definition ParseClosePathFrame :: "VersionNumber \<Rightarrow> bytes \<Rightarrow> error + ClosePathFrame \<times> bytes" where
  "ParseClosePathFrame version r =
     bindE (ReadByte r) (\<lambda>(_, r).
     bindE (ReadByte r) (\<lambda>(pathID, r).
     bindE (ReadByte r) (\<lambda>(flags, r).
     let hasMissingRanges = (flags AND 0x10 = 0x10);
         largestAckedLen = 2 * drop_bit 2 (flags AND 0x0C);
         largestAckedLen = (if largestAckedLen = 0 then 1 else largestAckedLen);
         deltaLen = 2 * (flags AND 0x03);
         deltaLen = (if deltaLen = 0 then 1 else deltaLen)
     in
     bindE (if hasMissingRanges then ReadByte r else Inr (0, r)) (\<lambda>(numAckBlocks, r).
     if hasMissingRanges \<and> numAckBlocks = 0 then Inl ErrInvalidAckRanges
     else
     bindE (ReadUintN (GetByteOrder version) largestAckedLen r) (\<lambda>(largestAcked, r).
     bindE (parse_ack_ranges hasMissingRanges largestAcked numAckBlocks deltaLen version r)
       (\<lambda>((lowestAcked, ranges), r).
       Inr (\<lparr>cp_PathID = pathID, cp_LargestAcked = largestAcked, cp_LowestAcked = lowestAcked,
             cp_AckRanges = ranges\<rparr>, r)))))))"

definition cp_MinLength :: "VersionNumber \<Rightarrow> ClosePathFrame \<Rightarrow> error + ByteCount" where
  "cp_MinLength version f =
     (let length = 1 + 1 + 1;
          length = length + ucast (GetPacketNumberLength (cp_LargestAcked f));
          deltaLen = ucast (getMissingSequenceNumberDeltaLen
                       (cp_LargestAcked f) (cp_LowestAcked f) (cp_AckRanges f))
      in Inr (if HasMissingRanges (cp_AckRanges f)
              then length + (1 + deltaLen) * numWritableNackRanges (cp_AckRanges f)
              else length + deltaLen))"

subsection \<open>Widths\<close>

lemma GetPacketNumberLength_len: "GetPacketNumberLength x \<in> {1, 2, 4, 6}"
  by (simp add: GetPacketNumberLength_def PacketNumberLen_defs)

lemma GetPacketNumberLength_fits:
  "unat x < 2 ^ 48 \<Longrightarrow> unat x < 2 ^ (8 * unat (GetPacketNumberLength x))"
  by (auto simp: GetPacketNumberLength_def PacketNumberLen_defs word_less_nat_alt)

lemma deltaLen_len: "getMissingSequenceNumberDeltaLen l h ranges \<in> {1, 2, 4, 6}"
  by (simp add: getMissingSequenceNumberDeltaLen_def PacketNumberLen_defs Let_def)

lemma max_range_length_mono: "m \<le> max_range_length m ranges"
  by (induction ranges arbitrary: m) (auto simp: Let_def intro: order.trans less_imp_le)

lemma max_range_length_ge:
  "x \<in> set ranges \<Longrightarrow> Last x - First x + 1 \<le> max_range_length m ranges"
proof (induction ranges arbitrary: m)
  case (Cons a ranges)
  have "Last a - First a + 1 \<le> max_range_length m (a # ranges)"
    using max_range_length_mono [of "Last a - First a + 1" ranges] max_range_length_mono [of m ranges]
    by (auto simp: Let_def)
  with Cons show ?case by (auto simp: Let_def)
qed simp

lemma max_range_length_less:
  "unat m < n \<Longrightarrow> (\<And>x. x \<in> set ranges \<Longrightarrow> unat (Last x - First x + 1) < n) \<Longrightarrow>
   unat (max_range_length m ranges) < n"
  by (induction ranges arbitrary: m) (auto simp: Let_def)

lemma deltaLen_of_max:
  fixes m :: u64
  assumes "unat x \<le> unat m" "unat m < 2 ^ 48"
  shows "unat x < 2 ^ (8 * unat
    (if m \<le> 0xFF then PacketNumberLen1 else if m \<le> 0xFFFF then PacketNumberLen2
     else if m \<le> 0xFFFFFFFF then PacketNumberLen4 else PacketNumberLen6))"
  using assms by (auto simp: PacketNumberLen_defs word_le_nat_alt)

lemma deltaLen_ranges:
  assumes "\<And>x. x \<in> set ranges \<Longrightarrow> unat (Last x - First x + 1) < 2 ^ 48" "y \<in> set ranges"
  shows "unat (Last y - First y + 1) < 2 ^ (8 * unat (getMissingSequenceNumberDeltaLen l h ranges))"
proof -
  have "HasMissingRanges ranges" using assms(2) by (auto simp: HasMissingRanges_def)
  moreover have "unat (max_range_length 0 ranges) < 2 ^ 48"
    using assms(1) by (intro max_range_length_less) auto
  moreover have "unat (Last y - First y + 1) \<le> unat (max_range_length 0 ranges)"
    using max_range_length_ge [OF assms(2), of 0] by (simp add: word_le_nat_alt)
  ultimately show ?thesis
    unfolding getMissingSequenceNumberDeltaLen_def Let_def by (simp only: if_True) (rule deltaLen_of_max)
qed

lemma deltaLen_no_ranges:
  assumes "unat (l - h + 1) < 2 ^ 48"
  shows "unat (l - h + 1) < 2 ^ (8 * unat (getMissingSequenceNumberDeltaLen l h []))"
  using deltaLen_of_max [OF order_refl assms]
  by (simp only: getMissingSequenceNumberDeltaLen_def Let_def HasMissingRanges_def list.size
      less_irrefl if_False)

subsection \<open>Type bytes\<close>

lemma ack_typeByte_fields:
  fixes missing :: bool and p :: PathID
  assumes "la \<in> {1, 2, 4, 6}" "dl \<in> {1, 2, 4, 6}"
  defines "t \<equiv> ack_typeByte la dl missing p"
  shows "t AND 0xc0 = 0x40" "(t AND 0x20 = 0x20) = missing" "(t AND 0x10 = 0x10) = (p \<noteq> 0)"
    "(let l = 2 * drop_bit 2 (t AND 0x0C) in if l = 0 then 1 else l) = la"
    "(let l = 2 * (t AND 0x03) in if l = 0 then 1 else l) = dl"
proof -
  define A where "A = (if la \<noteq> 1 then push_bit 2 (la div 2) else 0 :: u8)"
  define B where "B = (if dl \<noteq> 1 then dl div 2 else 0 :: u8)"
  define M where "M = (if missing then 0x20 else 0 :: u8)"
  define P where "P = (if p \<noteq> 0 then 0x10 else 0 :: u8)"
  have t: "t = (((0x40 XOR A) XOR B) OR M) OR P"
    by (simp add: t_def ack_typeByte_def A_def B_def M_def P_def Let_def PacketNumberLen_defs InitialPathID_def)
  have A: "A AND 0xc0 = 0" "A AND 0x20 = 0" "A AND 0x10 = 0" "A AND 0x0C = A" "A AND 0x03 = 0"
    "(if 2 * drop_bit 2 A = 0 then 1 else 2 * drop_bit 2 A) = la"
    using assms(1) by (auto simp: A_def)
  have B: "B AND 0xc0 = 0" "B AND 0x20 = 0" "B AND 0x10 = 0" "B AND 0x0C = 0" "B AND 0x03 = B"
    "(if 2 * B = 0 then 1 else 2 * B) = dl"
    using assms(2) by (auto simp: B_def)
  have M: "M AND 0xc0 = 0" "M AND 0x20 = M" "M AND 0x10 = 0" "M AND 0x0C = 0" "M AND 0x03 = 0"
    by (simp_all add: M_def)
  have P: "P AND 0xc0 = 0" "P AND 0x20 = 0" "P AND 0x10 = P" "P AND 0x0C = 0" "P AND 0x03 = 0"
    by (simp_all add: P_def)
  note m = bit.conj_xor_distrib2 bit.conj_disj_distrib2
  show "t AND 0xc0 = 0x40" by (simp only: t m A B M P) simp
  have "t AND 0x20 = M" by (simp only: t m A B M P) simp
  then show "(t AND 0x20 = 0x20) = missing" by (simp add: M_def)
  have "t AND 0x10 = P" by (simp only: t m A B M P) simp
  then show "(t AND 0x10 = 0x10) = (p \<noteq> 0)" by (simp add: P_def)
  have "t AND 0x0C = A" by (simp only: t m A B M P) simp
  then show "(let l = 2 * drop_bit 2 (t AND 0x0C) in if l = 0 then 1 else l) = la"
    by (simp only: Let_def A)
  have "t AND 0x03 = B" by (simp only: t m A B M P) simp
  then show "(let l = 2 * (t AND 0x03) in if l = 0 then 1 else l) = dl"
    by (simp only: Let_def B)
qed

lemma cp_flags_fields:
  fixes missing :: bool
  assumes "la \<in> {1, 2, 4, 6}" "dl \<in> {1, 2, 4, 6}"
  defines "t \<equiv> cp_flags la dl missing"
  shows "(t AND 0x10 = 0x10) = missing"
    "(let l = 2 * drop_bit 2 (t AND 0x0C) in if l = 0 then 1 else l) = la"
    "(let l = 2 * (t AND 0x03) in if l = 0 then 1 else l) = dl"
  using assms(1,2) unfolding t_def
  by (auto simp: cp_flags_def PacketNumberLen_defs Let_def)

subsection \<open>Blocks are read back\<close>

text \<open>
  The code that writes ranges relies on a writer for block lengths whose values are read back with
  \<open>ReadUintN\<close>; both frames provide one.
\<close>

locale length_codec =
  fixes wl :: "PacketNumberLen \<Rightarrow> u64 \<Rightarrow> error + bytes" and v :: VersionNumber
  assumes wl_read: "len \<in> {1, 2, 4, 6} \<Longrightarrow> unat x < 2 ^ (8 * unat len) \<Longrightarrow>
    \<exists>d. wl len x = Inr d \<and> length d = unat len \<and>
      (\<forall>r. ReadUintN (GetByteOrder v) len (d @ r) = Inr (x, r))"

interpretation ack_length: length_codec "write_pn v (Inr [])" v for v
  by unfold_locales (metis write_pn_read)

lemma cp_write_pn_eq: "unat x < 2 ^ 48 \<Longrightarrow> cp_write_pn v len x = write_pn v (Inr []) len x"
  by (simp add: cp_write_pn_def write_pn_def mask48 take_bit_small)

interpretation cp_length: length_codec "cp_write_pn v" v for v
proof
  fix len :: PacketNumberLen and x :: u64
  assume len: "len \<in> {1, 2, 4, 6}" "unat x < 2 ^ (8 * unat len)"
  then have "unat x < 2 ^ 48" by auto
  then show "\<exists>d. cp_write_pn v len x = Inr d \<and> length d = unat len \<and>
      (\<forall>r. ReadUintN (GetByteOrder v) len (d @ r) = Inr (x, r))"
    using ack_length.wl_read [OF len, of v] by (simp add: cp_write_pn_eq)
qed

text \<open>The number of blocks of a gap, and of a chain of ranges, as natural numbers.\<close>

definition range_gap :: "AckRange \<Rightarrow> AckRange \<Rightarrow> u64" where
  "range_gap prev a = First prev - Last a - 1"

definition range_len :: "AckRange \<Rightarrow> u64" where
  "range_len a = Last a - First a + 1"

definition nblocks :: "u64 \<Rightarrow> nat" where
  "nblocks gap = (unat gap + 254) div 255"

primrec chain_blocks :: "AckRange \<Rightarrow> AckRange list \<Rightarrow> nat" where
  "chain_blocks prev [] = 0"
| "chain_blocks prev (a # as) = nblocks (range_gap prev a) + chain_blocks a as"

text \<open>A chain whose gaps and lengths are not zero and whose lengths have \<open>dl\<close> bytes.\<close>

primrec writable_chain :: "PacketNumberLen \<Rightarrow> AckRange \<Rightarrow> AckRange list \<Rightarrow> bool" where
  "writable_chain dl prev [] \<longleftrightarrow> True"
| "writable_chain dl prev (a # as) \<longleftrightarrow>
     range_gap prev a \<noteq> 0 \<and> range_len a \<noteq> 0 \<and> unat (range_len a) < 2 ^ (8 * unat dl)
     \<and> writable_chain dl a as"

lemma nblocks_pos: "gap \<noteq> 0 \<Longrightarrow> 0 < nblocks gap"
  using unat_gt_0 [of gap] by (simp add: nblocks_def div_greater_zero_iff)

lemma div_mod_255:
  fixes g :: nat
  shows "(if g mod 255 = 0 then g div 255 else g div 255 + 1) = (g + 254) div 255"
proof -
  have "g = 255 * (g div 255) + g mod 255" "g mod 255 < 255" by simp_all
  then obtain q r where g: "g = 255 * q + r" "r < 255" by blast
  then have "g div 255 = q" "g mod 255 = r" by simp_all
  moreover have "(g + 254) div 255 = (if r = 0 then q else q + 1)"
    using g by (auto intro!: div_nat_eqI)
  ultimately show ?thesis by auto
qed

lemma num_nblocks:
  fixes gap :: u64
  defines "num \<equiv> (if gap mod 0xFF = 0 then gap div 0xFF + 1 - 1 else gap div 0xFF + 1)"
  shows "unat num = nblocks gap" "num = of_nat (nblocks gap)"
proof -
  have "unat gap div 255 \<le> 2 ^ 64 div 255" by (intro div_le_mono) (simp add: less_imp_le)
  then have "unat (gap div 0xFF + 1) = unat gap div 255 + 1"
    by (simp add: unat_word_ariths unat_div)
  moreover have "gap mod 0xFF = 0 \<longleftrightarrow> unat gap mod 255 = 0"
    by (simp add: word_unat_eq_iff unat_mod)
  ultimately show "unat num = nblocks gap"
    unfolding num_def nblocks_def div_mod_255 [symmetric] by (cases "unat gap mod 255 = 0") (simp_all add: unat_div)
  then show "num = of_nat (nblocks gap)" by (rule unat_eq_of_nat)
qed

text \<open>The gaps of the blocks add up: 255 for all but the last.\<close>

definition last_gap :: "u64 \<Rightarrow> u64" where
  "last_gap gap = 1 + (gap - 1) mod 255"

lemma last_gap_u8: "ucast (ucast (last_gap gap) :: u8) = last_gap gap"
proof -
  have "unat ((gap - 1) mod 255) < 255" by (simp add: unat_mod)
  then have "unat (last_gap gap) < 256" by (simp add: last_gap_def unat_word_ariths)
  then show ?thesis by (rule ucast_small)
qed

lemma gap_blocks:
  assumes "gap \<noteq> 0" "nblocks gap = Suc n"
  shows "of_nat (255 * n) + last_gap gap = gap"
proof -
  obtain g where g: "unat gap = Suc g" using assms(1) by (cases "unat gap") (auto simp: unsigned_eq_0_iff)
  have "(g + 255) div 255 = g div 255 + 1" by simp
  then have n: "n = g div 255" using assms(2) g by (simp add: nblocks_def)
  have g1: "unat (gap - 1) = g" using g assms(1) by (simp add: u64_pred)
  have "unat gap = 255 * n + Suc (g mod 255)" using g n by simp
  then have "gap = of_nat (255 * n + Suc (g mod 255))" by (rule unat_eq_of_nat)
  moreover have "(gap - 1) mod 255 = of_nat (g mod 255)"
    by (simp add: word_unat_eq_iff unat_mod g1 unat_of_nat)
  ultimately show ?thesis by (simp add: last_gap_def)
qed

lemma write_range_blocks:
  assumes "gap \<noteq> 0"
  shows "(if of_nat (nblocks gap) = (1::u64)
      then bindE (wl len) (\<lambda>d. Inr ([ucast gap] @ d, w + 1))
      else bindE (write_blocks wl (nblocks gap) gap len) (\<lambda>d. Inr (d, w + of_nat (nblocks gap))))
    = bindE (write_blocks wl (nblocks gap) gap len) (\<lambda>d. Inr (d, w + of_nat (nblocks gap)))"
proof (cases "nblocks gap = 1")
  case True
  have "last_gap gap = gap" using gap_blocks [OF assms, of 0] True by simp
  then show ?thesis
    using True by (cases "wl len") (simp_all add: last_gap_def)
next
  case False
  have "nblocks gap < 2 ^ 64"
  proof -
    have "nblocks gap \<le> (2 ^ 64 + 254) div 255"
      unfolding nblocks_def by (intro div_le_mono) (simp add: less_imp_le)
    then show ?thesis by simp
  qed
  then have "unat (of_nat (nblocks gap) :: u64) = nblocks gap" by (simp add: u64_of_nat_unat)
  with False have "of_nat (nblocks gap) \<noteq> (1::u64)" by (metis unsigned_1)
  then show ?thesis by simp
qed

lemma parse_blocks_step:
  assumes "\<And>r. ReadUintN (GetByteOrder v) dl (d @ r) = Inr (x, r)"
  shows "parse_blocks (Suc k) v dl (R @ [c]) False complete ((g # d) @ r)
      = parse_blocks k v dl (R @ [c, \<lparr>First = First c - ucast g - x, Last = First c - ucast g - 1\<rparr>])
          (x = 0) (x > 0) r"
    and "parse_blocks (Suc k) v dl (R @ [c]) True complete ((g # d) @ r)
      = parse_blocks k v dl (R @ [\<lparr>First = First c - ucast g - x, Last = Last c - ucast g\<rparr>])
          (x = 0) (if x > 0 then True else complete) r"
  using assms by (simp_all add: Let_def algebra_simps)

declare parse_blocks.simps(2) [simp del]

context length_codec
begin

lemma write_blocks_long:
  assumes dl: "dl \<in> {1, 2, 4, 6}" and len: "len \<noteq> 0" "unat len < 2 ^ (8 * unat dl)"
  shows "\<exists>bs. write_blocks (wl dl) (Suc n) gap len = Inr bs \<and> length bs = (1 + unat dl) * Suc n \<and>
    (\<forall>R c complete k r. parse_blocks (Suc n + k) v dl (R @ [c]) True complete (bs @ r)
      = parse_blocks k v dl (R @ [\<lparr>First = First c - (of_nat (255 * n) + last_gap gap) - len,
                                     Last = Last c - (of_nat (255 * n) + last_gap gap)\<rparr>]) False True r)"
proof (induction n)
  case 0
  obtain d where d: "wl dl len = Inr d" "length d = unat dl"
    "\<And>r. ReadUintN (GetByteOrder v) dl (d @ r) = Inr (len, r)"
    using wl_read [OF dl len(2)] by blast
  have "parse_blocks (Suc k) v dl (R @ [c]) True complete ((ucast (last_gap gap) # d) @ r)
      = parse_blocks k v dl (R @ [\<lparr>First = First c - last_gap gap - len, Last = Last c - last_gap gap\<rparr>])
          False True r" for R c complete k r
    using parse_blocks_step(2) [OF d(3), of k R c complete "ucast (last_gap gap)" r] len(1)
    by (simp add: last_gap_u8 word_gt_0)
  with d show ?case by (auto simp flip: last_gap_def)
next
  case (Suc n)
  then obtain bs where bs: "write_blocks (wl dl) (Suc n) gap len = Inr bs"
    "length bs = (1 + unat dl) * Suc n"
    "\<And>R c complete k r. parse_blocks (Suc n + k) v dl (R @ [c]) True complete (bs @ r)
      = parse_blocks k v dl (R @ [\<lparr>First = First c - (of_nat (255 * n) + last_gap gap) - len,
                                     Last = Last c - (of_nat (255 * n) + last_gap gap)\<rparr>]) False True r"
    by blast
  have "unat (0::u64) < 2 ^ (8 * unat dl)" by simp
  then obtain d where d: "wl dl 0 = Inr d" "length d = unat dl"
    "\<And>r. ReadUintN (GetByteOrder v) dl (d @ r) = Inr (0, r)"
    using wl_read [OF dl] by blast
  have W: "write_blocks (wl dl) (Suc (Suc n)) gap len = Inr (0xFF # d @ bs)"
    using d(1) bs(1) by (simp only: write_blocks.simps(2)) (simp add: Let_def)
  have "parse_blocks (Suc (Suc n) + k) v dl (R @ [c]) True complete ((0xFF # d @ bs) @ r)
      = parse_blocks k v dl (R @ [\<lparr>First = First c - (of_nat (255 * Suc n) + last_gap gap) - len,
                                     Last = Last c - (of_nat (255 * Suc n) + last_gap gap)\<rparr>]) False True r"
    for R c complete k r
  proof -
    let ?c = "\<lparr>First = First c - 255, Last = Last c - 255\<rparr>"
    have "parse_blocks (Suc (Suc n) + k) v dl (R @ [c]) True complete ((0xFF # d @ bs) @ r)
        = parse_blocks (Suc n + k) v dl (R @ [?c]) True complete (bs @ r)"
      using parse_blocks_step(2) [OF d(3), of "Suc n + k" R c complete "0xFF" "bs @ r"] by simp
    also have "\<dots> = parse_blocks k v dl (R @ [\<lparr>First = First ?c - (of_nat (255 * n) + last_gap gap) - len,
        Last = Last ?c - (of_nat (255 * n) + last_gap gap)\<rparr>]) False True r"
      by (rule bs(3))
    also have "First ?c - (of_nat (255 * n) + last_gap gap) = First c - (of_nat (255 * Suc n) + last_gap gap)"
      by simp
    also have "Last ?c - (of_nat (255 * n) + last_gap gap) = Last c - (of_nat (255 * Suc n) + last_gap gap)"
      by simp
    finally show ?thesis .
  qed
  with W d(2) bs(2) show ?case by auto
qed

lemma write_blocks_range:
  assumes dl: "dl \<in> {1, 2, 4, 6}" and len: "len \<noteq> 0" "unat len < 2 ^ (8 * unat dl)"
    and gap: "gap \<noteq> 0"
  shows "\<exists>bs. write_blocks (wl dl) (nblocks gap) gap len = Inr bs \<and>
    length bs = (1 + unat dl) * nblocks gap \<and>
    (\<forall>R c complete k r. parse_blocks (nblocks gap + k) v dl (R @ [c]) False complete (bs @ r)
      = parse_blocks k v dl (R @ [c, \<lparr>First = First c - gap - len, Last = First c - gap - 1\<rparr>]) False True r)"
proof -
  obtain n where n: "nblocks gap = Suc n" using nblocks_pos [OF gap] by (cases "nblocks gap") auto
  note sum = gap_blocks [OF gap n]
  show ?thesis
  proof (cases n)
    case 0
    then have lg: "last_gap gap = gap" using sum by simp
    obtain d where d: "wl dl len = Inr d" "length d = unat dl"
      "\<And>r. ReadUintN (GetByteOrder v) dl (d @ r) = Inr (len, r)"
      using wl_read [OF dl len(2)] by blast
    have "parse_blocks (Suc k) v dl (R @ [c]) False complete ((ucast gap # d) @ r)
        = parse_blocks k v dl (R @ [c, \<lparr>First = First c - gap - len, Last = First c - gap - 1\<rparr>])
            False True r" for R c complete k r
      using parse_blocks_step(1) [OF d(3), of k R c complete "ucast gap" r] len(1)
        last_gap_u8 [of gap] lg
      by (simp add: word_gt_0)
    with d show ?thesis using n 0 lg by (auto simp flip: last_gap_def)
  next
    case (Suc m)
    obtain bs where bs: "write_blocks (wl dl) (Suc m) gap len = Inr bs"
      "length bs = (1 + unat dl) * Suc m"
      "\<And>R c complete k r. parse_blocks (Suc m + k) v dl (R @ [c]) True complete (bs @ r)
        = parse_blocks k v dl (R @ [\<lparr>First = First c - (of_nat (255 * m) + last_gap gap) - len,
                                       Last = Last c - (of_nat (255 * m) + last_gap gap)\<rparr>]) False True r"
      using write_blocks_long [OF dl len, of m gap] by blast
    obtain d where d: "wl dl 0 = Inr d" "length d = unat dl"
      "\<And>r. ReadUintN (GetByteOrder v) dl (d @ r) = Inr (0, r)"
      using wl_read [OF dl, of 0] by auto
    have W: "write_blocks (wl dl) (Suc n) gap len = Inr (0xFF # d @ bs)"
      using d(1) bs(1) Suc by (simp only: write_blocks.simps(2)) (simp add: Let_def)
    have g: "of_nat (255 * m) + last_gap gap = gap - 255" using sum Suc by (simp add: algebra_simps)
    have "parse_blocks (nblocks gap + k) v dl (R @ [c]) False complete ((0xFF # d @ bs) @ r)
      = parse_blocks k v dl (R @ [c, \<lparr>First = First c - gap - len, Last = First c - gap - 1\<rparr>]) False True r"
      for R c complete k r
    proof -
      let ?c = "\<lparr>First = First c - 255, Last = First c - 255 - 1\<rparr>"
      have "parse_blocks (nblocks gap + k) v dl (R @ [c]) False complete ((0xFF # d @ bs) @ r)
          = parse_blocks (Suc m + k) v dl ((R @ [c]) @ [?c]) True False (bs @ r)"
        using parse_blocks_step(1) [OF d(3), of "Suc m + k" R c complete "0xFF" "bs @ r"] n Suc by simp
      also have "\<dots> = parse_blocks k v dl ((R @ [c]) @ [\<lparr>First = First ?c - (gap - 255) - len,
          Last = Last ?c - (gap - 255)\<rparr>]) False True r"
        unfolding g [symmetric] by (rule bs(3))
      also have "First ?c - (gap - 255) = First c - gap" by simp
      also have "Last ?c - (gap - 255) = First c - gap - 1" by simp
      finally show ?thesis by (simp only: append_assoc append_Cons append_Nil)
    qed
    with W d(2) bs(2) n Suc show ?thesis by auto
  qed
qed

end

subsection \<open>Ranges are read back\<close>

text \<open>The ranges that fit in the 255 blocks of a frame: the reference for \<open>numWritableNackRanges\<close>.\<close>

primrec fitting :: "nat \<Rightarrow> AckRange \<Rightarrow> AckRange list \<Rightarrow> AckRange list" where
  "fitting b prev [] = []"
| "fitting b prev (a # as) =
     (let n = nblocks (range_gap prev a) in
      if b + n < 255 then a # fitting (b + n) a as else [])"

lemma fitting_prefix: "\<exists>gs. rs = fitting b prev rs @ gs"
  by (induction rs arbitrary: b prev) (auto simp: Let_def)

lemma nblocks_bound: "nblocks gap \<le> 2 ^ 57"
proof -
  have "nblocks gap \<le> (2 ^ 64 + 254) div 255"
    unfolding nblocks_def by (intro div_le_mono) (simp add: less_imp_le)
  then show ?thesis by simp
qed

lemma count_nack_ranges_eq:
  "b < 255 \<Longrightarrow> count_nack_ranges (of_nat b) prev rs = of_nat (b + chain_blocks prev (fitting b prev rs))
     \<and> b + chain_blocks prev (fitting b prev rs) < 255"
proof (induction rs arbitrary: b prev)
  case (Cons a rs)
  let ?n = "nblocks (range_gap prev a)"
  have num: "(if range_gap prev a mod 0xFF = 0 then 1 + range_gap prev a div 0xFF - 1
      else 1 + range_gap prev a div 0xFF) = of_nat ?n"
    using num_nblocks(2) [of "range_gap prev a"] unfolding add.commute [of "_ div _" 1] .
  have "b + ?n < 18446744073709551616" using nblocks_bound [of "range_gap prev a"] Cons.prems by simp
  then have "unat (of_nat b + of_nat ?n :: u64) = b + ?n"
    by (simp only: of_nat_add [symmetric] u64_of_nat_unat)
  then have less: "of_nat b + of_nat ?n < (0xFF :: u64) \<longleftrightarrow> b + ?n < 255"
    by (simp add: word_less_nat_alt)
  have step: "count_nack_ranges (of_nat b) prev (a # rs)
      = (if b + ?n < 255 then count_nack_ranges (of_nat (b + ?n)) a rs else of_nat b)"
    using num less unfolding range_gap_def by (simp only: count_nack_ranges.simps Let_def) simp
  show ?case
    unfolding step using Cons.IH [of "b + ?n" a] Cons.prems by (simp add: Let_def add.assoc)
qed simp

context length_codec
begin

lemma write_ranges_read:
  assumes dl: "dl \<in> {1, 2, 4, 6}"
  shows "fs \<noteq> [] \<Longrightarrow> writable_chain dl prev fs \<Longrightarrow> w + chain_blocks prev fs < 2 ^ 64 \<Longrightarrow>
    \<exists>bs. write_ranges (wl dl) (of_nat (w + chain_blocks prev fs)) prev (fs @ gs) (of_nat w)
          = Inr (bs, of_nat (w + chain_blocks prev fs)) \<and>
      length bs = (1 + unat dl) * chain_blocks prev fs \<and>
      (\<forall>R complete k r. parse_blocks (chain_blocks prev fs + k) v dl (R @ [prev]) False complete (bs @ r)
        = parse_blocks k v dl (R @ prev # fs) False True r)"
proof (induction fs arbitrary: prev w)
  case (Cons a fs)
  let ?gap = "range_gap prev a" and ?len = "range_len a"
  let ?n = "nblocks ?gap"
  have gap: "?gap \<noteq> 0" and len: "?len \<noteq> 0" "unat ?len < 2 ^ (8 * unat dl)"
    and chain: "writable_chain dl a fs"
    using Cons.prems(2) by simp_all
  obtain d where d: "write_blocks (wl dl) ?n ?gap ?len = Inr d" "length d = (1 + unat dl) * ?n"
    "\<And>R c complete k r. parse_blocks (?n + k) v dl (R @ [c]) False complete (d @ r)
      = parse_blocks k v dl (R @ [c, \<lparr>First = First c - ?gap - ?len, Last = First c - ?gap - 1\<rparr>]) False True r"
    using write_blocks_range [OF dl len gap] by blast
  have a: "\<lparr>First = First prev - ?gap - ?len, Last = First prev - ?gap - 1\<rparr> = a"
    by (simp add: range_gap_def range_len_def)
  let ?N = "of_nat (w + chain_blocks prev (a # fs)) :: u64"
  have step: "write_ranges (wl dl) ?N prev (a # fs @ gs) (of_nat w)
      = (if of_nat (w + ?n) \<ge> ?N then Inr (d, of_nat (w + ?n))
         else bindE (write_ranges (wl dl) ?N a (fs @ gs) (of_nat (w + ?n)))
             (\<lambda>(ds, numRangesWritten). Inr (d @ ds, numRangesWritten)))"
    unfolding write_ranges.simps Let_def range_gap_def [symmetric] range_len_def [symmetric]
      num_nblocks(2) num_nblocks(1) [unfolded num_nblocks(2)] write_range_blocks [OF gap]
    by (simp only: d(1) bindE_simps prod.case of_nat_add)
  have ge: "of_nat (w + ?n) \<ge> ?N \<longleftrightarrow> chain_blocks a fs = 0"
    using Cons.prems(3) by (simp add: word_le_nat_alt u64_of_nat_unat del: of_nat_add)
  show ?case
  proof (cases "fs = []")
    case True
    with step ge d a show ?thesis by auto
  next
    case False
    then obtain b bs' where "fs = b # bs'" by (cases fs) auto
    with chain have "chain_blocks a fs \<noteq> 0" using nblocks_pos [of "range_gap a b"] by simp
    moreover obtain ds where ds: "write_ranges (wl dl) ?N a (fs @ gs) (of_nat (w + ?n)) = Inr (ds, ?N)"
      "length ds = (1 + unat dl) * chain_blocks a fs"
      "\<And>R complete k r. parse_blocks (chain_blocks a fs + k) v dl (R @ [a]) False complete (ds @ r)
        = parse_blocks k v dl (R @ a # fs) False True r"
      using Cons.IH [OF False chain, of "w + ?n"] Cons.prems(3) by (auto simp: add.assoc)
    ultimately have "write_ranges (wl dl) ?N prev ((a # fs) @ gs) (of_nat w) = Inr (d @ ds, ?N)"
      using step ge by simp
    moreover have "parse_blocks (chain_blocks prev (a # fs) + k) v dl (R @ [prev]) False complete ((d @ ds) @ r)
        = parse_blocks k v dl (R @ prev # a # fs) False True r" for R complete k r
      using d(3) [of "chain_blocks a fs + k" R prev complete "ds @ r"] ds(3) [of k "R @ [prev]" True r] a
      by (simp add: add.assoc)
    ultimately show ?thesis using d(2) ds(2) by (auto simp: algebra_simps)
  qed
qed simp

end

text \<open>
  What a frame needs to be written: the ranges descend and do not touch, the numbers have 48
  bits, packet 0 is not acked, and the first gap is not too long for the blocks of a frame.
\<close>

primrec sorted_ranges :: "AckRange \<Rightarrow> AckRange list \<Rightarrow> bool" where
  "sorted_ranges prev [] \<longleftrightarrow> First prev \<le> Last prev"
| "sorted_ranges prev (a # as) \<longleftrightarrow>
     First prev \<le> Last prev \<and> unat (Last a) + 1 < unat (First prev) \<and> sorted_ranges a as"

definition ranges_fit :: "PacketNumber \<Rightarrow> PacketNumber \<Rightarrow> AckRange list \<Rightarrow> bool" where
  "ranges_fit largest lowest ranges \<longleftrightarrow>
     0 < lowest \<and> unat largest < 2 ^ 48 \<and>
     (case ranges of
        [] \<Rightarrow> lowest \<le> largest
      | r0 # rs \<Rightarrow> rs \<noteq> [] \<and> Last r0 = largest \<and> sorted_ranges r0 rs \<and> lowest = First (last ranges)
          \<and> nblocks (range_gap r0 (hd rs)) < 255)"

definition written_ranges :: "AckRange list \<Rightarrow> AckRange list" where
  "written_ranges ranges = (case ranges of [] \<Rightarrow> [] | r0 # rs \<Rightarrow> r0 # fitting 0 r0 rs)"

definition written_lowest :: "PacketNumber \<Rightarrow> AckRange list \<Rightarrow> PacketNumber" where
  "written_lowest lowest ranges = (if ranges = [] then lowest else First (last (written_ranges ranges)))"

lemma sorted_ranges_first:
  "sorted_ranges r0 rs \<Longrightarrow> x \<in> set (r0 # rs) \<Longrightarrow>
   First x \<le> Last x \<and> Last x \<le> Last r0 \<and> First (last (r0 # rs)) \<le> First x"
proof (induction rs arbitrary: r0 x)
  case (Cons a rs)
  have IH: "First y \<le> Last y" "Last y \<le> Last a" "First (last (a # rs)) \<le> First y"
    if "y \<in> set (a # rs)" for y
    using Cons.IH [of a y] Cons.prems(1) that by auto
  have r0: "First r0 \<le> Last r0" "Last a \<le> First r0"
    using Cons.prems(1) by (auto simp: word_le_nat_alt)
  show ?case
  proof (cases "x = r0")
    case True
    then show ?thesis using IH [of a] r0 by auto
  next
    case False
    with Cons.prems(2) have "x \<in> set (a # rs)" by simp
    then show ?thesis using IH [of x] r0 by auto
  qed
qed simp

lemma sorted_ranges_append: "sorted_ranges r0 (rs @ gs) \<Longrightarrow> sorted_ranges r0 rs"
proof (induction rs arbitrary: r0)
  case Nil
  then show ?case by (cases gs) auto
qed simp

lemma sorted_ranges_validate:
  assumes "sorted_ranges r0 rs" "rs \<noteq> []"
  shows "validateAckRanges (Last r0) (r0 # rs)"
proof -
  have "list_all (\<lambda>x. First x \<le> Last x) (r0 # rs)"
    using sorted_ranges_first [OF assms(1)] by (auto simp: list_all_iff)
  moreover have "validate_order r0 rs"
    using assms(1)
  proof (induction rs arbitrary: r0)
    case (Cons a rs)
    then have "unat (Last a + 1) = Suc (unat (Last a))" "First a \<le> Last a"
      using u64_Suc [of "Last a" "First r0"] sorted_ranges_first [of a rs a]
      by (auto simp: word_less_nat_alt)
    with Cons show ?case by (auto simp: word_le_nat_alt)
  qed simp
  ultimately show ?thesis using assms(2) by (cases rs) (auto simp: validateAckRanges_def)
qed

lemma gap_nonzero: "unat l + 1 < unat f \<Longrightarrow> f - l - 1 \<noteq> (0::u64)"
  by unat_arith

lemma len_nonzero: "f \<le> l \<Longrightarrow> 0 < f \<Longrightarrow> l - f + 1 \<noteq> (0::u64)"
  by unat_arith

lemma sorted_ranges_writable:
  "sorted_ranges r0 rs \<Longrightarrow> unat (Last r0) < 2 ^ 48 \<Longrightarrow> 0 < First (last (r0 # rs)) \<Longrightarrow>
   (\<And>x. x \<in> set rs \<Longrightarrow> unat (range_len x) < 2 ^ (8 * unat dl)) \<Longrightarrow> writable_chain dl r0 rs"
proof (induction rs arbitrary: r0)
  case (Cons a rs)
  have f: "First a \<le> Last a" "0 < First a"
    using sorted_ranges_first [of a rs a] Cons.prems(1,3) by (auto simp: word_less_nat_alt word_le_nat_alt split: if_splits)
  have "unat (Last a) + 1 < unat (First r0)" "unat (First r0) \<le> unat (Last r0)"
    using Cons.prems(1) by (auto simp: word_le_nat_alt)
  then have "range_gap r0 a \<noteq> 0" "unat (Last a) < 2 ^ 48"
    using Cons.prems(2) gap_nonzero [of "Last a" "First r0"] unfolding range_gap_def by linarith+
  moreover have "range_len a \<noteq> 0"
    using f unfolding range_len_def by (rule len_nonzero)
  moreover have "writable_chain dl a rs"
    using Cons.prems \<open>unat (Last a) < 2 ^ 48\<close> by (intro Cons.IH) auto
  ultimately show ?case using Cons.prems(4) by simp
qed simp

lemma range_len_less:
  assumes "First x \<le> Last x" "0 < First x" "unat (Last x) < 2 ^ 48"
  shows "unat (range_len x) < 2 ^ 48"
  using assms unfolding range_len_def by unat_arith

lemma first_block:
  assumes "(f::u64) \<le> l" "0 < f"
  shows "\<not> (l > 0 \<and> l - f + 1 < 1)" "\<not> l - f + 1 > l" "l - (l - f + 1) + 1 = f"
    "l \<noteq> 0" "l + 1 - (l - f + 1) = f"
  using assms by (auto; unat_arith)+

lemma ranges_fit_len:
  assumes "ranges_fit largest lowest ranges" "x \<in> set ranges"
  shows "First x \<le> Last x" "0 < First x" "unat (Last x) < 2 ^ 48"
proof -
  obtain r0 rs where r: "ranges = r0 # rs" using assms(2) by (cases ranges) auto
  then have "sorted_ranges r0 rs" "0 < First (last (r0 # rs))" "unat (Last r0) < 2 ^ 48"
    using assms(1) by (auto simp: ranges_fit_def)
  with sorted_ranges_first [of r0 rs x] r assms(2)
  show "First x \<le> Last x" "0 < First x" "unat (Last x) < 2 ^ 48"
    by (auto simp: word_le_nat_alt word_less_nat_alt)
qed

lemma numWritableNackRanges_eq:
  "numWritableNackRanges (r0 # rs) = of_nat (chain_blocks r0 (fitting 0 r0 rs) + 1)"
  "chain_blocks r0 (fitting 0 r0 rs) < 255"
  using count_nack_ranges_eq [of 0 r0 rs] by (simp_all add: numWritableNackRanges_def)

context length_codec
begin

lemma write_ack_ranges_none:
  assumes fit: "ranges_fit largest lowest []"
  defines "dl \<equiv> getMissingSequenceNumberDeltaLen largest lowest []"
  shows "\<exists>bs. write_ack_ranges (wl dl) largest lowest [] 0 = Inr bs \<and> length bs = unat dl \<and>
    (\<forall>r. parse_ack_ranges False largest n dl v (bs @ r) = Inr ((lowest, []), r))"
proof -
  have l: "lowest \<le> largest" "0 < lowest" "unat largest < 2 ^ 48"
    using fit by (auto simp: ranges_fit_def)
  then have "unat (largest - lowest + 1) < 2 ^ 48" by unat_arith
  then have "unat (largest - lowest + 1) < 2 ^ (8 * unat dl)"
    unfolding dl_def by (rule deltaLen_no_ranges)
  moreover have "dl \<in> {1, 2, 4, 6}" unfolding dl_def by (rule deltaLen_len)
  ultimately obtain d where "wl dl (largest - lowest + 1) = Inr d" "length d = unat dl"
    "\<And>r. ReadUintN (GetByteOrder v) dl (d @ r) = Inr (largest - lowest + 1, r)"
    using wl_read by blast
  then show ?thesis
    using first_block [OF l(1,2)] by (auto simp: write_ack_ranges_def parse_ack_ranges_def)
qed

lemma write_ack_ranges_some:
  assumes fit: "ranges_fit largest lowest ranges" and "ranges \<noteq> []"
  defines "dl \<equiv> getMissingSequenceNumberDeltaLen largest lowest ranges"
    and "N \<equiv> numWritableNackRanges ranges"
  shows "\<exists>bs. write_ack_ranges (wl dl) largest lowest ranges N = Inr bs \<and>
    length bs = unat dl + (1 + unat dl) * (unat N - 1) \<and>
    (\<forall>r. parse_ack_ranges True largest (ucast (N - 1)) dl v (bs @ r)
      = Inr ((written_lowest lowest ranges, written_ranges ranges), r))"
proof -
  obtain r0 rs where r: "ranges = r0 # rs" using assms(2) by (cases ranges) auto
  define fs where "fs = fitting 0 r0 rs"
  obtain gs where gs: "rs = fs @ gs" using fitting_prefix unfolding fs_def by blast
  have f: "rs \<noteq> []" "Last r0 = largest" "sorted_ranges r0 rs" "lowest = First (last ranges)"
    "nblocks (range_gap r0 (hd rs)) < 255" "0 < lowest" "unat largest < 2 ^ 48"
    using fit r by (auto simp: ranges_fit_def)
  then have "fs \<noteq> []" by (cases rs) (auto simp: fs_def Let_def)
  have N: "N = of_nat (chain_blocks r0 fs + 1)" "chain_blocks r0 fs < 255"
    unfolding N_def r fs_def by (rule numWritableNackRanges_eq)+
  have "unat N = chain_blocks r0 fs + 1" unfolding N(1) using N(2) by (intro u64_of_nat_unat) simp
  moreover have "N - 1 = of_nat (chain_blocks r0 fs)" by (simp add: N(1))
  ultimately have uN: "unat N = chain_blocks r0 fs + 1" "unat (ucast (N - 1) :: u8) = chain_blocks r0 fs"
    using N(2) by (simp_all add: unsigned_ucast_eq take_bit_nat_eq_self u64_of_nat_unat)
  have dl: "dl \<in> {1, 2, 4, 6}" unfolding dl_def by (rule deltaLen_len)
  have "unat (range_len x) < 2 ^ 48" if "x \<in> set ranges" for x
    using ranges_fit_len [OF fit that] by (rule range_len_less)
  then have len: "unat (range_len x) < 2 ^ (8 * unat dl)" if "x \<in> set ranges" for x
    using that unfolding range_len_def dl_def by (intro deltaLen_ranges)
  have "writable_chain dl r0 rs"
    using f r len by (intro sorted_ranges_writable) auto
  then have "writable_chain dl r0 fs" unfolding gs by (induction fs arbitrary: r0) auto
  then obtain ds where ds: "write_ranges (wl dl) (of_nat (1 + chain_blocks r0 fs)) r0 (fs @ gs) (of_nat 1)
      = Inr (ds, of_nat (1 + chain_blocks r0 fs))" "length ds = (1 + unat dl) * chain_blocks r0 fs"
    "\<And>R complete k r. parse_blocks (chain_blocks r0 fs + k) v dl (R @ [r0]) False complete (ds @ r)
        = parse_blocks k v dl (R @ r0 # fs) False True r"
    using write_ranges_read [OF dl \<open>fs \<noteq> []\<close>, of r0 1 gs] N(2) by auto
  obtain d where d: "wl dl (range_len r0) = Inr d" "length d = unat dl"
    "\<And>r. ReadUintN (GetByteOrder v) dl (d @ r) = Inr (range_len r0, r)"
    using wl_read [OF dl len [of r0]] r by auto
  have r0: "First r0 \<le> Last r0" "0 < First r0" using ranges_fit_len [OF fit, of r0] r by auto
  have W: "write_ack_ranges (wl dl) largest lowest ranges N = Inr (d @ ds)"
    using ds(1) d(1) f r gs N(1) by (simp add: write_ack_ranges_def range_len_def add.commute)
  have valid: "validateAckRanges largest (r0 # fs)"
    using sorted_ranges_validate [OF sorted_ranges_append \<open>fs \<noteq> []\<close>, of r0 gs] f gs by auto
  have r0_eq: "\<lparr>First = largest - range_len r0 + 1, Last = largest\<rparr> = r0"
    using f(2) by (simp add: range_len_def)
  have fb: "\<not> (largest > 0 \<and> range_len r0 < 1)" "\<not> range_len r0 > largest"
    using first_block [OF r0] f(2) by (simp_all add: range_len_def)
  have "parse_ack_ranges True largest (ucast (N - 1)) dl v (d @ ds @ r)
      = Inr ((First (last (r0 # fs)), r0 # fs), r)" for r
    using ds(3) [of 0 "[]" False r] valid uN(2)
    by (simp only: parse_ack_ranges_def d(3) bindE_simps prod.case fb if_False if_True r0_eq) simp
  then have "parse_ack_ranges True largest (ucast (N - 1)) dl v ((d @ ds) @ r)
      = Inr ((written_lowest lowest ranges, written_ranges ranges), r)" for r
    using r by (simp add: written_lowest_def written_ranges_def fs_def)
  with W d(2) ds(2) uN(1) show ?thesis by auto
qed

end


subsection \<open>The frames\<close>

definition ack_fits :: "AckFrame \<Rightarrow> bool" where
  "ack_fits f \<longleftrightarrow> ranges_fit (ack_LargestAcked f) (ack_LowestAcked f) (ack_AckRanges f)"

text \<open>The peer reads the ranges that were written and the rounded delay.\<close>

definition ack_decoded :: "Time \<Rightarrow> AckFrame \<Rightarrow> AckFrame" where
  "ack_decoded now f =
     f\<lparr>ack_LowestAcked := written_lowest (ack_LowestAcked f) (ack_AckRanges f),
       ack_AckRanges := written_ranges (ack_AckRanges f),
       ack_PacketReceivedTime := None,
       ack_DelayTime := rtt_decoded (time_Since now (ack_PacketReceivedTime f))\<rparr>"

definition cp_fits :: "ClosePathFrame \<Rightarrow> bool" where
  "cp_fits f \<longleftrightarrow> ranges_fit (cp_LargestAcked f) (cp_LowestAcked f) (cp_AckRanges f)"

definition cp_decoded :: "ClosePathFrame \<Rightarrow> ClosePathFrame" where
  "cp_decoded f =
     f\<lparr>cp_LowestAcked := written_lowest (cp_LowestAcked f) (cp_AckRanges f),
       cp_AckRanges := written_ranges (cp_AckRanges f)\<rparr>"

text \<open>Both writers in one form: \<open>numRanges\<close> is 0 without ranges.\<close>

definition num_ranges :: "AckRange list \<Rightarrow> u64" where
  "num_ranges ranges = (if ranges \<noteq> [] then numWritableNackRanges ranges else 0)"

context length_codec
begin

lemma write_ack_ranges_read:
  assumes "ranges_fit largest lowest ranges"
  defines "dl \<equiv> getMissingSequenceNumberDeltaLen largest lowest ranges"
    and "N \<equiv> num_ranges ranges"
  obtains bs where "write_ack_ranges (wl dl) largest lowest ranges N = Inr bs"
    "length bs = unat dl + (1 + unat dl) * (unat N - 1)"
    "\<And>r. parse_ack_ranges (ranges \<noteq> []) largest (if ranges \<noteq> [] then ucast (N - 1) else 0) dl v (bs @ r)
      = Inr ((written_lowest lowest ranges, written_ranges ranges), r)"
proof (cases "ranges = []")
  case True
  with write_ack_ranges_none [of largest lowest 0] assms that show ?thesis
    by (auto simp: num_ranges_def written_lowest_def written_ranges_def)
next
  case False
  with write_ack_ranges_some [OF assms(1)] assms that show ?thesis
    by (auto simp: num_ranges_def)
qed

end

lemma num_ranges_bounds:
  "\<not> num_ranges ranges > 0xFF" "ranges \<noteq> [] \<Longrightarrow> unat (num_ranges ranges) \<noteq> 0"
  "ranges_fit l h ranges \<Longrightarrow> ranges \<noteq> [] \<Longrightarrow> (ucast (num_ranges ranges - 1) :: u8) \<noteq> 0"
proof -
  have u: "unat (num_ranges (r0 # rs)) = chain_blocks r0 (fitting 0 r0 rs) + 1"
    "chain_blocks r0 (fitting 0 r0 rs) < 255"
    "unat (num_ranges (r0 # rs) - 1) = chain_blocks r0 (fitting 0 r0 rs)" for r0 rs
    using numWritableNackRanges_eq [of r0 rs]
    by (simp_all add: num_ranges_def u64_of_nat_unat del: of_nat_add of_nat_Suc) (simp add: u64_of_nat_unat)
  show "\<not> num_ranges ranges > 0xFF"
  proof (cases ranges)
    case (Cons a as)
    then show ?thesis using u(1,2) [of a as] by (simp add: word_less_nat_alt)
  qed (simp add: num_ranges_def)
  show "ranges \<noteq> [] \<Longrightarrow> unat (num_ranges ranges) \<noteq> 0"
    using u by (cases ranges) auto
  show "(ucast (num_ranges ranges - 1) :: u8) \<noteq> 0" if fit: "ranges_fit l h ranges" "ranges \<noteq> []"
  proof -
    obtain r0 r1 rs where r: "ranges = r0 # r1 # rs" "nblocks (range_gap r0 r1) < 255" "sorted_ranges r0 (r1 # rs)"
      using fit by (cases ranges; cases "tl ranges") (auto simp: ranges_fit_def)
    then have "range_gap r0 r1 \<noteq> 0" unfolding range_gap_def by (intro gap_nonzero) auto
    then have "chain_blocks r0 (fitting 0 r0 (r1 # rs)) \<noteq> 0"
      using r(2) nblocks_pos [of "range_gap r0 r1"] by (simp add: Let_def)
    then have "unat (ucast (num_ranges ranges - 1) :: u8) \<noteq> 0"
      using u [of r0 "r1 # rs"] r(1) by (simp add: unsigned_ucast_eq take_bit_nat_eq_self)
    then show ?thesis by (metis unsigned_0)
  qed
qed


lemma within_readUfloat16 [within_intros]:
  "length r \<le> n \<Longrightarrow> within n (readUfloat16 (GetByteOrder v) r)"
  by (auto simp: within_def dest: readUfloat16_length)

lemma within_parse_blocks [within_intros]:
  "length r \<le> n \<Longrightarrow> within n (parse_blocks k v dl ranges inLong complete r)"
proof (induction k arbitrary: ranges inLong complete r)
  case (Suc k)
  then show ?case
    unfolding parse_blocks.simps(2) Let_def by (intro within_intros Suc.IH; assumption?)
qed (simp add: within_def)

lemma within_parse_ack_ranges [within_intros]:
  "length r \<le> n \<Longrightarrow> within n (parse_ack_ranges m l k dl v r)"
  unfolding parse_ack_ranges_def Let_def by (intro within_intros; assumption?)

lemma within_skip_timestamps [within_intros]: "length r \<le> n \<Longrightarrow> within n (skip_timestamps k v r)"
proof (induction k arbitrary: r)
  case (Suc k)
  then show ?case unfolding skip_timestamps.simps by (intro within_intros Suc.IH; assumption?)
qed (simp add: within_def)

lemma within_parse_timestamps [within_intros]: "length r \<le> n \<Longrightarrow> within n (parse_timestamps v r)"
  unfolding parse_timestamps_def by (intro within_intros; assumption?)

lemma ParseAckFrame_consumes: "ParseAckFrame v r = Inr (f, r') \<Longrightarrow> length r' < length r"
  unfolding ParseAckFrame_def Let_def
  by (erule consumes_type_byte) (intro within_intros order_refl; assumption?)

lemma ParseClosePathFrame_consumes: "ParseClosePathFrame v r = Inr (f, r') \<Longrightarrow> length r' < length r"
  unfolding ParseClosePathFrame_def Let_def
  by (erule consumes_type_byte) (intro within_intros order_refl; assumption?)

lemma HasMissingRanges_iff [simp]: "HasMissingRanges ranges \<longleftrightarrow> ranges \<noteq> []"
  by (simp add: HasMissingRanges_def)

lemma num_ranges_if: "(if ranges \<noteq> [] then numWritableNackRanges ranges else 0) = num_ranges ranges"
  by (simp add: num_ranges_def)

lemma ack_Write_bytes:
  assumes "ack_fits f"
  defines "la \<equiv> GetPacketNumberLength (ack_LargestAcked f)"
    and "dl \<equiv> getMissingSequenceNumberDeltaLen (ack_LargestAcked f) (ack_LowestAcked f) (ack_AckRanges f)"
    and "N \<equiv> num_ranges (ack_AckRanges f)"
  obtains lg bs where
    "fst (ack_Write now v f) = Inr (ack_typeByte la dl (ack_AckRanges f \<noteq> []) (ack_PathID f)
       # (if ack_PathID f \<noteq> 0 then [ack_PathID f] else []) @ lg
       @ writeUfloat16 (GetByteOrder v)
           (word_of_int (go_div (time_Since now (ack_PacketReceivedTime f)) Microsecond))
       @ (if ack_AckRanges f \<noteq> [] then [ucast (N - 1)] else []) @ bs @ [0])"
    "length lg = unat la" "length bs = unat dl + (1 + unat dl) * (unat N - 1)"
    "\<And>r. ReadUintN (GetByteOrder v) la (lg @ r) = Inr (ack_LargestAcked f, r)"
    "\<And>r. parse_ack_ranges (ack_AckRanges f \<noteq> []) (ack_LargestAcked f)
        (if ack_AckRanges f \<noteq> [] then ucast (N - 1) else 0) dl v (bs @ r)
      = Inr ((written_lowest (ack_LowestAcked f) (ack_AckRanges f), written_ranges (ack_AckRanges f)), r)"
proof -
  have fit: "ranges_fit (ack_LargestAcked f) (ack_LowestAcked f) (ack_AckRanges f)"
    using assms(1) by (simp add: ack_fits_def)
  then have "unat (ack_LargestAcked f) < 2 ^ (8 * unat la)"
    unfolding la_def by (intro GetPacketNumberLength_fits) (simp add: ranges_fit_def)
  then obtain lg where lg: "write_pn v (Inr []) la (ack_LargestAcked f) = Inr lg" "length lg = unat la"
    "\<And>r. ReadUintN (GetByteOrder v) la (lg @ r) = Inr (ack_LargestAcked f, r)"
    using write_pn_read [of la "ack_LargestAcked f" v] GetPacketNumberLength_len unfolding la_def by metis
  obtain bs where bs: "write_ack_ranges (write_pn v (Inr []) dl) (ack_LargestAcked f) (ack_LowestAcked f)
      (ack_AckRanges f) N = Inr bs" "length bs = unat dl + (1 + unat dl) * (unat N - 1)"
    "\<And>r. parse_ack_ranges (ack_AckRanges f \<noteq> []) (ack_LargestAcked f)
        (if ack_AckRanges f \<noteq> [] then ucast (N - 1) else 0) dl v (bs @ r)
      = Inr ((written_lowest (ack_LowestAcked f) (ack_AckRanges f), written_ranges (ack_AckRanges f)), r)"
    using ack_length.write_ack_ranges_read [OF fit, of v] unfolding dl_def N_def by metis
  have "fst (ack_Write now v f) = Inr (ack_typeByte la dl (ack_AckRanges f \<noteq> []) (ack_PathID f)
       # (if ack_PathID f \<noteq> 0 then [ack_PathID f] else []) @ lg
       @ writeUfloat16 (GetByteOrder v)
           (word_of_int (go_div (time_Since now (ack_PacketReceivedTime f)) Microsecond))
       @ (if ack_AckRanges f \<noteq> [] then [ucast (N - 1)] else []) @ bs @ [0])"
    using lg(1) bs(1) num_ranges_bounds(1) [of "ack_AckRanges f"]
    by (simp add: ack_Write_def Let_def num_ranges_if InitialPathID_def flip: la_def dl_def N_def)
  then show thesis using lg(2) bs(2) lg(3) bs(3) by (rule that)
qed

lemma parse_timestamps_0: "parse_timestamps v (0 # r) = Inr ((), r)"
  by (simp add: parse_timestamps_def)

lemma length_blocks:
  "ranges_fit l h ranges \<Longrightarrow> (if ranges \<noteq> [] then L + (1 + d) * numWritableNackRanges ranges else L + d)
   = L + of_nat ((if ranges \<noteq> [] then 1 else 0) + (unat d + (1 + unat d) * (unat (num_ranges ranges) - 1)))"
proof (cases "ranges = []")
  case True
  then show ?thesis by (simp add: num_ranges_def)
next
  case False
  then obtain n where n: "unat (num_ranges ranges) = Suc n"
    using num_ranges_bounds(2) [of ranges] not0_implies_Suc by blast
  then have "numWritableNackRanges ranges = of_nat (Suc n)"
    using False unat_eq_of_nat by (fastforce simp: num_ranges_def)
  then show ?thesis using False n by (simp add: algebra_simps)
qed

interpretation ack: frame_codec "\<lambda>v f. fst (ack_Write now v f)" ack_MinLength ParseAckFrame
    ack_fits "ack_decoded now" "\<lambda>t. t AND 0xc0 = 0x40" for now
proof
  fix v f bs r
  assume f: "ack_fits f"
  let ?la = "GetPacketNumberLength (ack_LargestAcked f)"
  let ?dl = "getMissingSequenceNumberDeltaLen (ack_LargestAcked f) (ack_LowestAcked f) (ack_AckRanges f)"
  obtain lg ds where W:
    "fst (ack_Write now v f) = Inr (ack_typeByte ?la ?dl (ack_AckRanges f \<noteq> []) (ack_PathID f)
       # (if ack_PathID f \<noteq> 0 then [ack_PathID f] else []) @ lg
       @ writeUfloat16 (GetByteOrder v)
           (word_of_int (go_div (time_Since now (ack_PacketReceivedTime f)) Microsecond))
       @ (if ack_AckRanges f \<noteq> [] then [ucast (num_ranges (ack_AckRanges f) - 1)] else []) @ ds @ [0])"
    "length lg = unat ?la" "length ds = unat ?dl + (1 + unat ?dl) * (unat (num_ranges (ack_AckRanges f)) - 1)"
    "\<And>r. ReadUintN (GetByteOrder v) ?la (lg @ r) = Inr (ack_LargestAcked f, r)"
    "\<And>r. parse_ack_ranges (ack_AckRanges f \<noteq> []) (ack_LargestAcked f)
        (if ack_AckRanges f \<noteq> [] then ucast (num_ranges (ack_AckRanges f) - 1) else 0) ?dl v (ds @ r)
      = Inr ((written_lowest (ack_LowestAcked f) (ack_AckRanges f), written_ranges (ack_AckRanges f)), r)"
    using ack_Write_bytes [OF f, of now v] by metis
  note t = ack_typeByte_fields [OF GetPacketNumberLength_len deltaLen_len]
  show "\<exists>t d. fst (ack_Write now v f) = Inr (t # d) \<and> t AND 0xc0 = 0x40"
    using W(1) t(1) by simp
  assume bs: "fst (ack_Write now v f) = Inr bs"
  have nz: "ack_AckRanges f \<noteq> [] \<Longrightarrow> (ucast (num_ranges (ack_AckRanges f) - 1) :: u8) \<noteq> 0"
    using num_ranges_bounds(3) f by (auto simp: ack_fits_def)
  show "ParseAckFrame v (bs @ r) = Inr (ack_decoded now f, r)"
    using bs W(1,4,5) t nz
    by (auto simp: ParseAckFrame_def ack_decoded_def rtt_decoded_def codec parse_timestamps_0 Let_def
        split: if_splits)
  show "ack_MinLength v f = Inr (of_nat (length bs))"
    using bs W(1-3) length_blocks [of "ack_LargestAcked f" "ack_LowestAcked f" "ack_AckRanges f"] f
    by (auto simp: ack_MinLength_def Let_def InitialPathID_def ack_fits_def)
qed (rule ParseAckFrame_consumes)

end
