(* ===== verification/Ack_Codec.thy ===== *)
theory Ack_Codec
  imports Wire_Ack
begin

text \<open>
  CLOSE_PATH frames keep the promise of \<open>frame_codec\<close> as ACK frames do, the ranges of received
  ACK frames are sorted and disjoint, and the properties of the two frames.
\<close>

interpretation cp: frame_codec cp_Write cp_MinLength ParseClosePathFrame
    cp_fits cp_decoded "\<lambda>t. t = 0x11"
proof
  fix v f bs r
  assume "cp_fits f"
  then have fit: "ranges_fit (cp_LargestAcked f) (cp_LowestAcked f) (cp_AckRanges f)"
    by (simp add: cp_fits_def)
  define la where "la = GetPacketNumberLength (cp_LargestAcked f)"
  define dl where
    "dl = getMissingSequenceNumberDeltaLen (cp_LargestAcked f) (cp_LowestAcked f) (cp_AckRanges f)"
  define N where "N = num_ranges (cp_AckRanges f)"
  have "unat (cp_LargestAcked f) < 2 ^ (8 * unat la)"
    unfolding la_def using fit by (intro GetPacketNumberLength_fits) (simp add: ranges_fit_def)
  then obtain lg where lg: "cp_write_pn v la (cp_LargestAcked f) = Inr lg" "length lg = unat la"
    "\<And>r. ReadUintN (GetByteOrder v) la (lg @ r) = Inr (cp_LargestAcked f, r)"
    using cp_length.wl_read [of la "cp_LargestAcked f" v] GetPacketNumberLength_len unfolding la_def by blast
  obtain ds where ds: "write_ack_ranges (cp_write_pn v dl) (cp_LargestAcked f) (cp_LowestAcked f)
      (cp_AckRanges f) N = Inr ds" "length ds = unat dl + (1 + unat dl) * (unat N - 1)"
    "\<And>r. parse_ack_ranges (cp_AckRanges f \<noteq> []) (cp_LargestAcked f)
        (if cp_AckRanges f \<noteq> [] then ucast (N - 1) else 0) dl v (ds @ r)
      = Inr ((written_lowest (cp_LowestAcked f) (cp_AckRanges f), written_ranges (cp_AckRanges f)), r)"
    using cp_length.write_ack_ranges_read [OF fit, of v] unfolding dl_def N_def by metis
  have W: "cp_Write v f = Inr (0x11 # cp_PathID f # cp_flags la dl (cp_AckRanges f \<noteq> [])
      # (if cp_AckRanges f \<noteq> [] then [ucast (N - 1)] else []) @ lg @ ds)"
    using lg(1) ds(1) num_ranges_bounds(1) [of "cp_AckRanges f"]
    by (simp add: cp_Write_def Let_def num_ranges_if flip: la_def dl_def N_def)
  then show "\<exists>t d. cp_Write v f = Inr (t # d) \<and> t = 0x11" by simp
  assume bs: "cp_Write v f = Inr bs"
  have "(ucast (N - 1) :: u8) \<noteq> 0" if "cp_AckRanges f \<noteq> []"
    using num_ranges_bounds(3) [OF fit that] by (simp add: N_def)
  then show "ParseClosePathFrame v (bs @ r) = Inr (cp_decoded f, r)"
    using bs W lg(3) ds(3) cp_flags_fields [OF GetPacketNumberLength_len deltaLen_len]
    by (auto simp: ParseClosePathFrame_def cp_decoded_def Let_def la_def dl_def split: if_splits)
  show "cp_MinLength v f = Inr (of_nat (length bs))"
    using bs W lg(2) ds(2) length_blocks [OF fit]
    by (auto simp: cp_MinLength_def Let_def N_def simp flip: la_def dl_def)
qed (rule ParseClosePathFrame_consumes)

subsection \<open>Received ranges\<close>

text \<open>
  The invariant of the parsing loop: every range covers between 1 and \<open>2 ^ 48 - 1\<close> packets, since
  a block length has at most 6 bytes, except for a range whose gap is still being read.
\<close>

definition short_range :: "AckRange \<Rightarrow> bool" where
  "short_range a \<longleftrightarrow> 0 < unat (range_len a) \<and> unat (range_len a) < 2 ^ 48"

definition parsing_inv :: "AckRange list \<Rightarrow> bool \<Rightarrow> bool \<Rightarrow> bool" where
  "parsing_inv ranges inLong complete \<longleftrightarrow>
     ranges \<noteq> [] \<and> list_all short_range (butlast ranges) \<and>
     (if inLong then range_len (last ranges) = 0 \<and> \<not> complete else short_range (last ranges))"

lemma parsing_inv_snoc:
  "parsing_inv (R @ [c]) inLong complete \<longleftrightarrow> list_all short_range R \<and>
     (if inLong then range_len c = 0 \<and> \<not> complete else short_range c)"
  by (simp add: parsing_inv_def)

lemma parse_blocks_inv:
  "parse_blocks k v dl ranges inLong complete r = Inr ((ranges', complete'), r') \<Longrightarrow> unat dl \<le> 6 \<Longrightarrow>
   parsing_inv ranges inLong complete \<Longrightarrow> \<exists>inLong'. parsing_inv ranges' inLong' complete'"
proof (induction k arbitrary: ranges inLong complete r)
  case (Suc k)
  then obtain R c where R: "ranges = R @ [c]" by (metis rev_exhaust parsing_inv_def)
  obtain gap r1 x r2 where rd: "ReadByte r = Inr (gap, r1)"
    "ReadUintN (GetByteOrder v) dl r1 = Inr (x, r2)"
    using Suc.prems(1) by (auto simp: parse_blocks.simps(2) bindE_eq_Inr)
  have "unat x < 2 ^ (8 * unat dl)" using gbo.ReadUintN_bound [OF rd(2)] Suc.prems(2) by simp
  also have "(2::nat) ^ (8 * unat dl) \<le> 2 ^ 48" using Suc.prems(2) by (intro power_increasing) auto
  finally have x: "unat x < 2 ^ 48" .
  have inv: "list_all short_range R" "if inLong then range_len c = 0 \<and> \<not> complete else short_range c"
    using Suc.prems(3) R by (auto simp: parsing_inv_snoc)
  show ?case
  proof (cases inLong)
    case True
    let ?c = "\<lparr>First = First c - (ucast gap + x), Last = Last c - ucast gap\<rparr>"
    have c: "range_len ?c = x" using inv(2) True by (simp add: range_len_def algebra_simps)
    have "parse_blocks k v dl (R @ [?c]) (x = 0) (if x > 0 then True else complete) r2
        = Inr ((ranges', complete'), r')"
      using Suc.prems(1) rd R True by (simp add: parse_blocks.simps(2))
    moreover have "parsing_inv (R @ [?c]) (x = 0) (if x > 0 then True else complete)"
      using inv True x c by (auto simp: parsing_inv_snoc short_range_def unat_gt_0)
    ultimately show ?thesis using Suc.IH Suc.prems(2) by blast
  next
    case False
    let ?l = "First c - ucast gap - 1"
    let ?c = "\<lparr>First = ?l - x + 1, Last = ?l\<rparr>"
    have c: "range_len ?c = x" by (simp add: range_len_def)
    have sc: "short_range ?c \<longleftrightarrow> x \<noteq> 0 \<and> unat x < 2 ^ 48" by (simp only: short_range_def c unat_gt_0)
    have "parse_blocks k v dl ((R @ [c]) @ [?c]) (x = 0) (if 0 < x then True else False) r2 = Inr ((ranges', complete'), r')"
      using Suc.prems(1) rd R False by (simp add: parse_blocks.simps(2) Let_def)
    moreover have "parsing_inv ((R @ [c]) @ [?c]) (x = 0) (if 0 < x then True else False)"
      unfolding parsing_inv_snoc list_all_append sc c using inv False x by simp
    ultimately show ?thesis using Suc.IH Suc.prems(2) by blast
  qed
qed auto

lemma no_wrap:
  fixes f l g :: u64
  assumes "f \<le> l" "f < g" "l + 1 < g" "0 < unat (l - f + 1)" "unat (l - f + 1) < 2 ^ 48" "unat g < 2 ^ 48"
  shows "unat l + 1 < unat g"
proof (cases "l = - 1")
  case True
  then have "unat (- f) < 2 ^ 48" "f \<noteq> 0" using assms(4,5) by auto
  moreover have "unat f < 2 ^ 48" using assms(2,6) by (simp add: word_less_nat_alt)
  moreover have "unat (0 - f) = 2 ^ 64 - unat f"
    using \<open>f \<noteq> 0\<close> unat_gt_0 [of f] by (simp only: unat_sub_if' unsigned_0) simp
  ultimately show ?thesis by simp
next
  case False
  then have "unat (l + 1) = unat l + 1"
    by (metis Suc_eq_plus1 add.commute unatSuc add_eq_0_iff2)
  then show ?thesis using assms(3) by (simp add: word_less_nat_alt)
qed

lemma validate_sorted:
  "validate_order r0 rs \<Longrightarrow> list_all (\<lambda>a. First a \<le> Last a) (r0 # rs) \<Longrightarrow> list_all short_range rs \<Longrightarrow>
   unat (Last r0) < 2 ^ 48 \<Longrightarrow> sorted_ranges r0 rs"
proof (induction rs arbitrary: r0)
  case (Cons a rs)
  have a: "First a \<le> Last a" "First r0 \<le> Last r0" "First a < First r0" "Last a + 1 < First r0"
    "0 < unat (Last a - First a + 1)" "unat (Last a - First a + 1) < 2 ^ 48"
    using Cons.prems(1-3) by (auto simp: short_range_def range_len_def not_le split: if_splits)
  have g: "unat (First r0) < 2 ^ 48" using a(2) Cons.prems(4) by (simp add: word_le_nat_alt)
  have l: "unat (Last a) + 1 < unat (First r0)" by (rule no_wrap [OF a(1,3-6) g])
  have "sorted_ranges a rs"
    using Cons.prems(1-3) l g by (intro Cons.IH) (auto split: if_splits)
  with l a(2) show ?case by simp
qed simp

text \<open>The ranges of a received frame descend, are disjoint and do not touch.\<close>

lemma parse_ack_ranges_sorted:
  assumes "parse_ack_ranges missing largest n dl v r = Inr ((lowest, ranges), r')"
    and "unat dl \<le> 6" "unat largest < 2 ^ 48"
  shows "if ranges = [] then lowest \<le> largest \<or> largest = 0 \<and> lowest = 0
    else Last (hd ranges) = largest \<and> tl ranges \<noteq> [] \<and> sorted_ranges (hd ranges) (tl ranges)
      \<and> lowest = First (last ranges)"
proof (cases missing)
  case False
  obtain x s where "ReadUintN (GetByteOrder v) dl r = Inr (x, s)" "\<not> (largest > 0 \<and> x < 1)"
    "\<not> x > largest" "ranges = []" "lowest = (if largest = 0 then 0 else largest + 1 - x)"
    using assms(1) False by (auto simp: parse_ack_ranges_def bindE_eq_Inr split: if_splits)
  moreover have "largest + 1 - x \<le> largest" if "x \<noteq> 0" "x \<le> largest"
    using that by unat_arith
  ultimately show ?thesis by (auto simp: not_less word_less_1)
next
  case True
  obtain x s where x: "ReadUintN (GetByteOrder v) dl r = Inr (x, s)" "\<not> x > largest"
      "\<not> (largest > 0 \<and> x < 1)"
    using assms(1) True by (auto simp: parse_ack_ranges_def bindE_eq_Inr split: if_splits)
  let ?r0 = "\<lparr>First = largest - x + 1, Last = largest\<rparr>"
  obtain rs c s' where pb: "parse_blocks (unat n) v dl [?r0] False False s = Inr ((rs, c), s')"
    using assms(1) True x by (auto simp: parse_ack_ranges_def bindE_eq_Inr split: if_splits)
  define rs' where "rs' = (if \<not> c then butlast rs else rs)"
  have p: "ranges = rs'" "rs' \<noteq> []" "validateAckRanges largest rs'" "lowest = First (last rs')"
    using assms(1) True x pb
    by (auto simp: parse_ack_ranges_def Let_def rs'_def [symmetric] split: if_splits)
  obtain r0 r1 rest where r: "ranges = r0 # r1 # rest" "Last r0 = largest"
    "list_all (\<lambda>a. First a \<le> Last a) ranges" "validate_order r0 (r1 # rest)"
    using p(1-3) by (auto simp: validateAckRanges_def split: list.splits if_splits)
  have "First r1 < First r0" "First r0 \<le> Last r0" using r by (auto split: if_splits)
  then have "0 < largest" using r(2) by (auto simp: word_less_nat_alt word_le_nat_alt)
  then have "parsing_inv [?r0] False False"
    using x(2,3) assms(3) by (simp add: parsing_inv_def short_range_def range_len_def word_le_nat_alt not_less unat_gt_0)
  then obtain l where "parsing_inv rs l c" using parse_blocks_inv [OF pb assms(2)] by blast
  then have "list_all short_range ranges"
    unfolding p(1) rs'_def by (cases rs rule: rev_cases) (auto simp: parsing_inv_def split: if_splits)
  then have "sorted_ranges r0 (r1 # rest)"
    using r assms(3) by (intro validate_sorted) auto
  then show ?thesis using r p by simp
qed

lemma in_some_range_iff: "in_some_range p ranges \<longleftrightarrow> (\<exists>a\<in>set ranges. First a \<le> p \<and> p \<le> Last a)"
  by (induction ranges) auto

text \<open>The widths a received ACK announces.\<close>

lemma ack_width: "unat (if 2 * drop_bit 2 (t AND 0x0C) = (0::u8) then 1 else 2 * drop_bit 2 (t AND 0x0C)) \<le> 6"
  "unat (if 2 * (t AND 0x03) = (0::u8) then 1 else 2 * (t AND 0x03)) \<le> 6"
proof -
  have "unat (drop_bit 2 (t AND 0x0C)) \<le> 3" "unat (t AND 0x03) \<le> 3"
  proof -
    have "t AND 0x0C \<le> 0x0C" "t AND 0x03 \<le> 0x03" by (rule word_and_le1)+
    then show "unat (drop_bit 2 (t AND 0x0C)) \<le> 3" "unat (t AND 0x03) \<le> 3"
      unfolding unat_drop_bit by (auto simp: word_le_nat_alt)
  qed
  then show "unat (if 2 * drop_bit 2 (t AND 0x0C) = (0::u8) then 1 else 2 * drop_bit 2 (t AND 0x0C)) \<le> 6"
    "unat (if 2 * (t AND 0x03) = (0::u8) then 1 else 2 * (t AND 0x03)) \<le> 6"
    by (auto simp: unat_word_ariths)
qed

lemma if_Inl_eq_Inr: "(if c then Inl e else m) = Inr y \<longleftrightarrow> \<not> c \<and> m = Inr y"
  by simp

lemma ParseAckFrame_sorted:
  assumes "ParseAckFrame v r = Inr (f, r')" "ack_AckRanges f \<noteq> []"
  shows "Last (hd (ack_AckRanges f)) = ack_LargestAcked f \<and> ack_LowestAcked f = First (last (ack_AckRanges f))
    \<and> length (ack_AckRanges f) \<ge> 2 \<and> sorted_ranges (hd (ack_AckRanges f)) (tl (ack_AckRanges f))"
proof -
  obtain typeByte s n t s' s2 missing where
    rd: "ReadUintN (GetByteOrder v) (if 2 * drop_bit 2 (typeByte AND 0x0C) = 0 then 1
        else 2 * drop_bit 2 (typeByte AND 0x0C)) s = Inr (ack_LargestAcked f, s')"
      (is "ReadUintN _ ?la _ = _")
    and pr: "parse_ack_ranges missing (ack_LargestAcked f) n
        (if 2 * (typeByte AND 0x03) = 0 then 1 else 2 * (typeByte AND 0x03)) v t
      = Inr ((ack_LowestAcked f, ack_AckRanges f), s2)" (is "parse_ack_ranges _ _ _ ?dl _ _ = _")
    using assms(1)
    unfolding ParseAckFrame_def Let_def bindE_eq_Inr if_Inl_eq_Inr split_paired_Ex prod.case
      sum.inject prod.inject
    by (elim exE conjE) (metis AckFrame.select_convs(2,3,4))
  have "unat (ack_LargestAcked f) < 2 ^ (8 * unat ?la)" using gbo.ReadUintN_bound [OF rd] ack_width(1) by (meson order.trans numeral_le_iff semiring_norm)
  also have "(2::nat) ^ (8 * unat ?la) \<le> 2 ^ 48" using ack_width(1) by (intro power_increasing) auto
  finally show ?thesis
    using parse_ack_ranges_sorted [OF pr ack_width(2)] assms(2)
    by (cases "ack_AckRanges f"; cases "tl (ack_AckRanges f)") auto
qed

lemma write_pn_total: "\<exists>d. write_pn v (Inr []) len x = Inr d"
proof -
  have "x AND 0xFFFFFFFFFFFF \<le> 0xFFFFFFFFFFFF" by (rule word_and_le1)
  then have "x AND 0xFFFFFFFFFFFF < 0x1000000000000" by (simp add: word_le_nat_alt word_less_nat_alt)
  then show ?thesis using gbo.WriteUint48_fits [of v "x AND 0xFFFFFFFFFFFF"] by (auto simp: write_pn_def)
qed

lemma write_blocks_total:
  assumes "\<And>x. \<exists>d. wl x = Inr d"
  shows "\<exists>d. write_blocks wl n gap len = Inr d"
proof (induction n)
  case (Suc n)
  then obtain ds where "write_blocks wl n gap len = Inr ds" by blast
  moreover obtain d where "wl (if n = 0 then len else 0) = Inr d" using assms by blast
  ultimately show ?case by (simp add: Let_def)
qed simp

lemma write_ack_ranges_long_gap:
  assumes wl: "\<And>x. \<exists>d. wl x = Inr d" and gap: "nblocks (range_gap r0 r1) \<ge> 255"
  shows "write_ack_ranges wl (Last r0) (First (last (r0 # r1 # rs))) (r0 # r1 # rs)
    (numWritableNackRanges (r0 # r1 # rs)) = Inl ErrInconsistentNumAckRanges"
proof -
  let ?gap = "range_gap r0 r1"
  have N: "numWritableNackRanges (r0 # r1 # rs) = 1"
    using gap by (simp add: numWritableNackRanges_eq)
  have nz: "?gap \<noteq> 0" using gap by (auto simp: nblocks_def)
  obtain d where d: "write_blocks wl (nblocks ?gap) ?gap (range_len r1) = Inr d"
    using write_blocks_total [of wl, OF wl] by blast
  have u: "unat (1 + of_nat (nblocks ?gap) :: u64) = 1 + nblocks ?gap"
    using nblocks_bound [of ?gap] u64_of_nat_unat [of "1 + nblocks ?gap"] by simp
  then have ge: "(1::u64) \<le> 1 + of_nat (nblocks ?gap)" by (simp add: word_le_nat_alt)
  have ne: "1 \<noteq> (1 + of_nat (nblocks ?gap) :: u64)" using u gap by (metis One_nat_def Suc_eq_plus1_left
        add_eq_self_zero not_numeral_le_zero unsigned_1)
  have "write_ranges wl 1 r0 (r1 # rs) 1 = Inr (d, 1 + of_nat (nblocks ?gap))"
    unfolding write_ranges.simps Let_def range_gap_def [symmetric] range_len_def [symmetric]
      num_nblocks(2) num_nblocks(1) [unfolded num_nblocks(2)] write_range_blocks [OF nz]
    using ge by (simp only: d bindE_simps prod.case if_True)
  moreover obtain d0 where "wl (Last r0 - First r0 + 1) = Inr d0" using wl by blast
  ultimately show ?thesis using ne by (simp add: write_ack_ranges_def N)
qed

subsection \<open>Properties\<close>

text \<open>
  C4: an ACK frame that is written is read back by the peer: the same path and largest packet, the
  delay rounded to a float, and exactly the ranges that fit into 255 blocks, whatever the lengths
  of the gaps. \<open>MinLength\<close> is the number of bytes written.
\<close>

theorem ack_frame_roundtrip:
  assumes "ack_fits f"
  shows "\<exists>bs. fst (ack_Write now v f) = Inr bs \<and> ParseAckFrame v (bs @ r) = Inr (ack_decoded now f, r)
    \<and> ack_MinLength v f = Inr (of_nat (length bs))"
  using ack.Write_Parse [OF assms, of now v] by metis

theorem ack_frame_roundtrip_witness:
  "\<exists>bs. fst (ack_Write 5000000 39 \<lparr>ack_PathID = 1, ack_LargestAcked = 1000, ack_LowestAcked = 10,
      ack_AckRanges = [\<lparr>First = 900, Last = 1000\<rparr>, \<lparr>First = 10, Last = 300\<rparr>],
      ack_PacketReceivedTime = Some 0, ack_DelayTime = 0\<rparr>) = Inr bs
    \<and> ParseAckFrame 39 (bs @ [7]) = Inr (ack_decoded 5000000
      \<lparr>ack_PathID = 1, ack_LargestAcked = 1000, ack_LowestAcked = 10,
      ack_AckRanges = [\<lparr>First = 900, Last = 1000\<rparr>, \<lparr>First = 10, Last = 300\<rparr>],
      ack_PacketReceivedTime = Some 0, ack_DelayTime = 0\<rparr>, [7])"
proof -
  let ?f = "\<lparr>ack_PathID = 1, ack_LargestAcked = 1000, ack_LowestAcked = 10,
      ack_AckRanges = [\<lparr>First = 900, Last = 1000\<rparr>, \<lparr>First = 10, Last = 300\<rparr>],
      ack_PacketReceivedTime = Some 0, ack_DelayTime = 0\<rparr>"
  have "ack_fits ?f" by (simp add: ack_fits_def ranges_fit_def range_gap_def nblocks_def)
  from ack_frame_roundtrip [OF this, of 5000000 39 "[7]"] show ?thesis by blast
qed

text \<open>
  C8: the ranges of every ACK frame the parser accepts descend, are disjoint and separated by at
  least one packet, start at \<open>LargestAcked\<close> and end at \<open>LowestAcked\<close>.
\<close>

theorem ParseAckFrame_ranges_sorted:
  assumes "ParseAckFrame v r = Inr (f, r')" "ack_AckRanges f \<noteq> []"
  shows "Last (hd (ack_AckRanges f)) = ack_LargestAcked f \<and> ack_LowestAcked f = First (last (ack_AckRanges f))
    \<and> length (ack_AckRanges f) \<ge> 2 \<and> sorted_ranges (hd (ack_AckRanges f)) (tl (ack_AckRanges f))"
  using ParseAckFrame_sorted [OF assms] .

theorem ParseAckFrame_ranges_sorted_witness:
  "\<exists>f. ParseAckFrame 39 [0x60, 10, 0, 5, 1, 3, 2, 4, 0] = Inr (f, []) \<and>
     sorted_ranges (hd (ack_AckRanges f)) (tl (ack_AckRanges f))"
proof -
  let ?f = "\<lparr>ack_PathID = 0, ack_LargestAcked = 10, ack_LowestAcked = 2,
      ack_AckRanges = [\<lparr>First = 8, Last = 10\<rparr>, \<lparr>First = 2, Last = 5\<rparr>],
      ack_PacketReceivedTime = None, ack_DelayTime = 5000\<rparr>"
  have "ParseAckFrame 39 [0x60, 10, 0, 5, 1, 3, 2, 4, 0] = Inr (?f, [])" by code_simp
  from this ParseAckFrame_ranges_sorted [OF this] show ?thesis by simp
qed

text \<open>
  C22: the bounds check in \<open>AcksPacket\<close> is only an optimisation: for a received ACK frame with
  ranges, \<open>AcksPacket\<close> holds exactly for the packets in one of its ranges.
\<close>

theorem AcksPacket_ranges:
  assumes "ParseAckFrame v r = Inr (f, r')" "ack_AckRanges f \<noteq> []"
  shows "AcksPacket f p \<longleftrightarrow> (\<exists>a\<in>set (ack_AckRanges f). First a \<le> p \<and> p \<le> Last a)"
proof -
  obtain r0 rs where r: "ack_AckRanges f = r0 # rs" using assms(2) by (cases "ack_AckRanges f") auto
  note s = ParseAckFrame_sorted [OF assms]
  have b: "ack_LowestAcked f \<le> First a" "Last a \<le> ack_LargestAcked f" if "a \<in> set (r0 # rs)" for a
    using sorted_ranges_first [of r0 rs a] s r that by auto
  have "\<not> p < ack_LowestAcked f \<and> \<not> p > ack_LargestAcked f"
    if "a \<in> set (r0 # rs)" "First a \<le> p" "p \<le> Last a" for a
    using b [OF that(1)] that(2,3) by (meson leD order.trans)
  then show ?thesis
    using r by (auto simp: AcksPacket_def in_some_range_iff simp del: list.set)
qed

theorem AcksPacket_ranges_witness:
  "\<exists>f. ParseAckFrame 39 [0x60, 10, 0, 5, 1, 3, 2, 4, 0] = Inr (f, []) \<and> AcksPacket f 4 \<and> \<not> AcksPacket f 7"
proof -
  let ?f = "\<lparr>ack_PathID = 0, ack_LargestAcked = 10, ack_LowestAcked = 2,
      ack_AckRanges = [\<lparr>First = 8, Last = 10\<rparr>, \<lparr>First = 2, Last = 5\<rparr>],
      ack_PacketReceivedTime = None, ack_DelayTime = 5000\<rparr>"
  have "ParseAckFrame 39 [0x60, 10, 0, 5, 1, 3, 2, 4, 0] = Inr (?f, [])" by code_simp
  from this AcksPacket_ranges [OF this, of 4] AcksPacket_ranges [OF this, of 7] show ?thesis by simp
qed

text \<open>
  C31: a frame whose first gap needs 255 blocks or more (more than 64770 missing packets) cannot be
  written: \<open>numWritableNackRanges\<close> leaves no room for the second range, the writing loop writes it
  nevertheless, and \<open>Write\<close> returns the error about an inconsistent number of ranges.
\<close>

theorem ack_Write_long_gap_fails:
  assumes "ack_AckRanges f = r0 # r1 # rs" "ack_LargestAcked f = Last r0"
    and "ack_LowestAcked f = First (last (r0 # r1 # rs))" "nblocks (range_gap r0 r1) \<ge> 255"
  shows "fst (ack_Write now v f) = Inl ErrInconsistentNumAckRanges"
proof -
  obtain d where "write_pn v (Inr []) (GetPacketNumberLength (Last r0)) (Last r0) = Inr d"
    using write_pn_total by blast
  then show ?thesis
    using write_ack_ranges_long_gap [of "write_pn v (Inr []) (getMissingSequenceNumberDeltaLen (Last r0) (First (last (r0 # r1 # rs))) (r0 # r1 # rs))", OF write_pn_total assms(4), of rs] assms(1-3)
      num_ranges_bounds(1) [of "r0 # r1 # rs"]
    by (simp add: ack_Write_def Let_def num_ranges_def)
qed

theorem ack_Write_long_gap_fails_witness:
  "fst (ack_Write 0 39 \<lparr>ack_PathID = 0, ack_LargestAcked = 70000, ack_LowestAcked = 1,
      ack_AckRanges = [\<lparr>First = 70000, Last = 70000\<rparr>, \<lparr>First = 1, Last = 10\<rparr>],
      ack_PacketReceivedTime = Some 0, ack_DelayTime = 0\<rparr>) = Inl ErrInconsistentNumAckRanges"
  using ack_Write_long_gap_fails [of "\<lparr>ack_PathID = 0, ack_LargestAcked = 70000, ack_LowestAcked = 1,
      ack_AckRanges = [\<lparr>First = 70000, Last = 70000\<rparr>, \<lparr>First = 1, Last = 10\<rparr>],
      ack_PacketReceivedTime = Some 0, ack_DelayTime = 0\<rparr>" "\<lparr>First = 70000, Last = 70000\<rparr>"
      "\<lparr>First = 1, Last = 10\<rparr>" "[]" 0 39]
  by (simp add: range_gap_def nblocks_def)

end
