(* ===== verification/Wire_Header.thy ===== *)
theory Wire_Header
  imports Ack_Codec
begin

text \<open>
  \<open>internal/wire/public_header.go\<close> and \<open>version_negotiation.go\<close>: the public header of a packet,
  the connection ID a server peeks at, and version negotiation packets.
\<close>

datatype Perspective = PerspectiveServer | PerspectiveClient

record PublicHeader =
  Raw :: bytes
  hdr_ConnectionID :: ConnectionID
  hdr_PathID :: PathID
  VersionFlag :: bool
  ResetFlag :: bool
  TruncateConnectionID :: bool
  MultipathFlag :: bool
  hdr_PacketNumberLen :: PacketNumberLen
  hdr_PacketNumber :: PacketNumber
  hdr_VersionNumber :: VersionNumber
  hdr_SupportedVersions :: "VersionNumber list"
  DiversificationNonce :: bytes

definition emptyPublicHeader :: PublicHeader where
  "emptyPublicHeader =
     \<lparr>Raw = [], hdr_ConnectionID = 0, hdr_PathID = 0, VersionFlag = False, ResetFlag = False,
      TruncateConnectionID = False, MultipathFlag = False, hdr_PacketNumberLen = PacketNumberLenInvalid,
      hdr_PacketNumber = 0, hdr_VersionNumber = 0, hdr_SupportedVersions = [],
      DiversificationNonce = []\<rparr>"

definition hasPacketNumber :: "PublicHeader \<Rightarrow> Perspective \<Rightarrow> bool" where
  "hasPacketNumber h packetSentBy =
     (if ResetFlag h then False
      else if VersionFlag h \<and> packetSentBy = PerspectiveServer then False
      else True)"

definition hdr_flagByte :: "PublicHeader \<Rightarrow> Perspective \<Rightarrow> u8" where
  "hdr_flagByte h pers =
     (let b = 0x00;
          b = (if VersionFlag h then b OR 0x01 else b);
          b = (if ResetFlag h then b OR 0x02 else b);
          b = (if \<not> TruncateConnectionID h then b OR 0x08 else b);
          b = (if length (DiversificationNonce h) > 0 then b OR 0x04 else b);
          b = (if hasPacketNumber h pers
               then (if hdr_PacketNumberLen h = PacketNumberLen1 then b OR 0x00
                     else if hdr_PacketNumberLen h = PacketNumberLen2 then b OR 0x10
                     else if hdr_PacketNumberLen h = PacketNumberLen4 then b OR 0x20
                     else if hdr_PacketNumberLen h = PacketNumberLen6 then b OR 0x30
                     else b)
               else b)
      in if MultipathFlag h then b OR 0x40 else b)"

definition hdr_Write :: "PublicHeader \<Rightarrow> VersionNumber \<Rightarrow> Perspective \<Rightarrow> error + bytes" where
  "hdr_Write h version pers =
     (if VersionFlag h \<and> ResetFlag h then Inl ErrResetAndVersionFlagSet
      else if length (DiversificationNonce h) > 0 \<and> length (DiversificationNonce h) \<noteq> 32
      then Inl ErrInvalidNonceLength
      else
        let b = [hdr_flagByte h pers]
              @ (if \<not> TruncateConnectionID h then WriteUint64 LittleEndian (hdr_ConnectionID h) else [])
              @ (if VersionFlag h \<and> pers = PerspectiveClient
                 then WriteUint32 LittleEndian (VersionNumberToTag (hdr_VersionNumber h)) else [])
              @ (if length (DiversificationNonce h) > 0 then DiversificationNonce h else [])
              @ (if MultipathFlag h then [hdr_PathID h] else [])
        in if \<not> hasPacketNumber h pers then Inr b
           else bindE (write_pn version (Inl ErrPacketNumberLenNotSet)
                         (hdr_PacketNumberLen h) (hdr_PacketNumber h)) (\<lambda>pn. Inr (b @ pn)))"

text \<open>The reader is restored afterwards, so only the connection ID is returned.\<close>

definition PeekConnectionID :: "bytes \<Rightarrow> Perspective \<Rightarrow> error + ConnectionID" where
  "PeekConnectionID b packetSentBy =
     bindE (ReadByte b) (\<lambda>(publicFlagByte, b).
       let truncateConnectionID = (publicFlagByte AND 0x08 = 0) in
       if truncateConnectionID \<and> packetSentBy = PerspectiveClient
       then Inl (QuicError InvalidPacketHeader)
       else if \<not> truncateConnectionID
       then bindE (ReadUint64 LittleEndian b) (\<lambda>(connID, b). Inr connID)
       else Inr 0)"

text \<open>The versions of a version negotiation packet: the loop ends at the first read error.\<close>

function read_versions :: "bytes \<Rightarrow> VersionNumber list" where
  "read_versions b =
     (case ReadUint32 LittleEndian b of
        Inl _ \<Rightarrow> []
      | Inr (versionTag, b') \<Rightarrow> VersionTagToNumber versionTag # read_versions b')"
  by pat_completeness auto
termination
  by (relation "measure length") (auto dest: le.ReadUint32_length)

declare read_versions.simps [simp del]

text \<open>The last part of \<open>ParsePublicHeader\<close>: path ID and packet number.\<close>

definition parse_path_and_number ::
    "PublicHeader \<Rightarrow> Perspective \<Rightarrow> VersionNumber \<Rightarrow> bytes \<Rightarrow> error + PublicHeader \<times> bytes" where
  "parse_path_and_number header packetSentBy version b =
     bindE (if MultipathFlag header then ReadByte b else Inr (0, b)) (\<lambda>(pathID, b).
     let header = header\<lparr>hdr_PathID := pathID\<rparr> in
     if hasPacketNumber header packetSentBy
     then bindE (ReadUintN (GetByteOrder version) (hdr_PacketNumberLen header) b) (\<lambda>(packetNumber, b).
            Inr (header\<lparr>hdr_PacketNumber := packetNumber\<rparr>, b))
     else Inr (header, b))"

definition ParsePublicHeader ::
    "bytes \<Rightarrow> Perspective \<Rightarrow> VersionNumber \<Rightarrow> error + PublicHeader \<times> bytes" where
  "ParsePublicHeader b packetSentBy version =
     bindE (ReadByte b) (\<lambda>(publicFlagByte, b).
     let header = emptyPublicHeader\<lparr>ResetFlag := publicFlagByte AND 0x02 > 0,
                                    VersionFlag := publicFlagByte AND 0x01 > 0\<rparr>
     in
     if version = VersionUnknown \<and> \<not> (VersionFlag header \<or> ResetFlag header)
     then Inl ErrPacketWithUnknownVersion
     else
     let header = header\<lparr>TruncateConnectionID := publicFlagByte AND 0x08 = 0\<rparr> in
     if TruncateConnectionID header \<and> packetSentBy = PerspectiveClient
     then Inl (QuicError InvalidPacketHeader)
     else
     let header =
           (if hasPacketNumber header packetSentBy
            then header\<lparr>hdr_PacketNumberLen :=
              (let l = publicFlagByte AND 0x30 in
               if l = 0x30 then PacketNumberLen6
               else if l = 0x20 then PacketNumberLen4
               else if l = 0x10 then PacketNumberLen2
               else PacketNumberLen1)\<rparr>
            else header);
         header = header\<lparr>MultipathFlag := publicFlagByte AND 0x40 > 0\<rparr>
     in
     bindE (if \<not> TruncateConnectionID header
            then bindE (ReadUint64 LittleEndian b) (\<lambda>(connID, b).
                   if connID = 0 then Inl (QuicError InvalidPacketHeader)
                   else Inr (header\<lparr>hdr_ConnectionID := connID\<rparr>, b))
            else Inr (header, b)) (\<lambda>(header, b).
     bindE (if packetSentBy = PerspectiveServer \<and> publicFlagByte AND 0x04 > 0
               \<and> \<not> VersionFlag header \<and> \<not> ResetFlag header
            then bindE (ReadFull 32 b) (\<lambda>(nonce, b).
                   Inr (header\<lparr>DiversificationNonce := nonce\<rparr>, b))
            else Inr (header, b)) (\<lambda>(header, b).
     if \<not> ResetFlag header \<and> VersionFlag header then
       if packetSentBy = PerspectiveServer then
         if length b mod 4 \<noteq> 0 then Inl (QuicError InvalidVersionNegotiationPacket)
         else Inr (header\<lparr>hdr_SupportedVersions := read_versions b\<rparr>, [])
       else
         bindE (ReadUint32 LittleEndian b) (\<lambda>(versionTag, b).
           let header = header\<lparr>hdr_VersionNumber := VersionTagToNumber versionTag\<rparr>
           in parse_path_and_number header packetSentBy (hdr_VersionNumber header) b)
     else parse_path_and_number header packetSentBy version b)))"

definition hdr_GetLength :: "PublicHeader \<Rightarrow> Perspective \<Rightarrow> error + ByteCount" where
  "hdr_GetLength h pers =
     (if VersionFlag h \<and> ResetFlag h then Inl ErrResetAndVersionFlagSet
      else if VersionFlag h \<and> pers = PerspectiveServer then Inl ErrGetLengthNotForVersionNegotiation
      else if hasPacketNumber h pers
        \<and> hdr_PacketNumberLen h \<noteq> PacketNumberLen1 \<and> hdr_PacketNumberLen h \<noteq> PacketNumberLen2
        \<and> hdr_PacketNumberLen h \<noteq> PacketNumberLen4 \<and> hdr_PacketNumberLen h \<noteq> PacketNumberLen6
      then Inl ErrPacketNumberLenNotSet
      else
        let len = 1;
            len = (if hasPacketNumber h pers then len + ucast (hdr_PacketNumberLen h) else len);
            len = (if \<not> TruncateConnectionID h then len + 8 else len);
            len = (if VersionFlag h then len + 4 else len);
            len = len + of_nat (length (DiversificationNonce h))
        in Inr (if MultipathFlag h then len + 1 else len))"

text \<open>A failing \<open>Write\<close> is only logged, and the versions are appended in any case.\<close>

definition ComposeVersionNegotiation :: "ConnectionID \<Rightarrow> VersionNumber list \<Rightarrow> bytes" where
  "ComposeVersionNegotiation connectionID versions =
     (case hdr_Write (emptyPublicHeader\<lparr>hdr_ConnectionID := connectionID, hdr_PacketNumber := 1,
                        VersionFlag := True\<rparr>) VersionWhatever PerspectiveServer of
        Inl _ \<Rightarrow> [] | Inr b \<Rightarrow> b)
     @ concat (map (\<lambda>v. WriteUint32 LittleEndian (VersionNumberToTag v)) versions)"

subsection \<open>The flag byte\<close>

definition pn_bits :: "PacketNumberLen \<Rightarrow> u8" where
  "pn_bits len = (if len = 1 then 0 else if len = 2 then 0x10 else if len = 4 then 0x20
                  else if len = 6 then 0x30 else 0)"

lemma hdr_flagByte_fields:
  fixes h :: PublicHeader and pers :: Perspective
  defines "b \<equiv> hdr_flagByte h pers"
  shows "(b AND 0x02 > 0) = ResetFlag h" "(b AND 0x01 > 0) = VersionFlag h"
    "(b AND 0x08 = 0) = TruncateConnectionID h" "(b AND 0x04 > 0) = (DiversificationNonce h \<noteq> [])"
    "(b AND 0x40 > 0) = MultipathFlag h"
    "hasPacketNumber h pers \<Longrightarrow> b AND 0x30 = pn_bits (hdr_PacketNumberLen h)"
proof -
  define V where "V = (if VersionFlag h then 0x01 else 0 :: u8)"
  define R where "R = (if ResetFlag h then 0x02 else 0 :: u8)"
  define T where "T = (if TruncateConnectionID h then 0 else 0x08 :: u8)"
  define D where "D = (if DiversificationNonce h \<noteq> [] then 0x04 else 0 :: u8)"
  define P where "P = (if hasPacketNumber h pers then pn_bits (hdr_PacketNumberLen h) else 0 :: u8)"
  define M where "M = (if MultipathFlag h then 0x40 else 0 :: u8)"
  have b: "b = ((((V OR R) OR T) OR D) OR P) OR M"
    by (simp add: b_def hdr_flagByte_def V_def R_def T_def D_def P_def M_def pn_bits_def
        PacketNumberLen_defs Let_def)
  have V: "V AND 0x01 = V" "V AND 0x02 = 0" "V AND 0x08 = 0" "V AND 0x04 = 0" "V AND 0x40 = 0" "V AND 0x30 = 0"
    by (simp_all add: V_def)
  have R: "R AND 0x01 = 0" "R AND 0x02 = R" "R AND 0x08 = 0" "R AND 0x04 = 0" "R AND 0x40 = 0" "R AND 0x30 = 0"
    by (simp_all add: R_def)
  have T: "T AND 0x01 = 0" "T AND 0x02 = 0" "T AND 0x08 = T" "T AND 0x04 = 0" "T AND 0x40 = 0" "T AND 0x30 = 0"
    by (simp_all add: T_def)
  have D: "D AND 0x01 = 0" "D AND 0x02 = 0" "D AND 0x08 = 0" "D AND 0x04 = D" "D AND 0x40 = 0" "D AND 0x30 = 0"
    by (simp_all add: D_def)
  have P: "P AND 0x01 = 0" "P AND 0x02 = 0" "P AND 0x08 = 0" "P AND 0x04 = 0" "P AND 0x40 = 0" "P AND 0x30 = P"
    by (simp_all add: P_def pn_bits_def)
  have M: "M AND 0x01 = 0" "M AND 0x02 = 0" "M AND 0x08 = 0" "M AND 0x04 = 0" "M AND 0x40 = M" "M AND 0x30 = 0"
    by (simp_all add: M_def)
  note m = bit.conj_disj_distrib2 V R T D P M
  have "b AND 0x02 = R" "b AND 0x01 = V" "b AND 0x08 = T" "b AND 0x04 = D" "b AND 0x40 = M" "b AND 0x30 = P"
    by (simp_all only: b m) simp_all
  then show "(b AND 0x02 > 0) = ResetFlag h" "(b AND 0x01 > 0) = VersionFlag h"
    "(b AND 0x08 = 0) = TruncateConnectionID h" "(b AND 0x04 > 0) = (DiversificationNonce h \<noteq> [])"
    "(b AND 0x40 > 0) = MultipathFlag h"
    "hasPacketNumber h pers \<Longrightarrow> b AND 0x30 = pn_bits (hdr_PacketNumberLen h)"
    by (simp_all add: V_def R_def T_def D_def P_def M_def)
qed

lemma pn_len_of_bits:
  assumes "len \<in> {1, 2, 4, 6}"
  shows "(if pn_bits len = 0x30 then PacketNumberLen6 else if pn_bits len = 0x20 then PacketNumberLen4
    else if pn_bits len = 0x10 then PacketNumberLen2 else PacketNumberLen1) = len"
  using assms by (auto simp: pn_bits_def PacketNumberLen_defs)

subsection \<open>Regular packets\<close>

text \<open>
  What a header of a packet with a packet number must satisfy to be understood by the peer: a
  client never truncates the connection ID and has no nonce, and the version it announces is
  the version it writes in; a server announces no version.
\<close>

definition hdr_fits :: "Perspective \<Rightarrow> VersionNumber \<Rightarrow> PublicHeader \<Rightarrow> bool" where
  "hdr_fits pers version h \<longleftrightarrow>
     \<not> ResetFlag h \<and> hdr_PacketNumberLen h \<in> {1, 2, 4, 6} \<and> version \<noteq> VersionUnknown \<and>
     (\<not> TruncateConnectionID h \<longrightarrow> hdr_ConnectionID h \<noteq> 0) \<and>
     (case pers of
        PerspectiveClient \<Rightarrow>
          \<not> TruncateConnectionID h \<and> DiversificationNonce h = [] \<and>
          (VersionFlag h \<longrightarrow> hdr_VersionNumber h = version \<and> 0 \<le> version \<and> version < 1000)
      | PerspectiveServer \<Rightarrow>
          \<not> VersionFlag h \<and> (DiversificationNonce h = [] \<or> length (DiversificationNonce h) = 32))"

definition hdr_decoded :: "PublicHeader \<Rightarrow> PublicHeader" where
  "hdr_decoded h =
     h\<lparr>Raw := [], hdr_ConnectionID := (if TruncateConnectionID h then 0 else hdr_ConnectionID h),
       hdr_PathID := (if MultipathFlag h then hdr_PathID h else 0),
       hdr_PacketNumber := take_bit (8 * unat (hdr_PacketNumberLen h)) (hdr_PacketNumber h),
       hdr_VersionNumber := (if VersionFlag h then hdr_VersionNumber h else 0),
       hdr_SupportedVersions := []\<rparr>"

lemma ucast_take_bit:
  fixes x :: u64
  shows "ucast (ucast x :: u8) = take_bit 8 x" "ucast (ucast x :: u16) = take_bit 16 x"
    "ucast (ucast x :: u32) = take_bit 32 x"
  by (auto intro!: bit_word_eqI simp: bit_simps)

text \<open>A packet number is truncated to the low bytes.\<close>

lemma write_pn_truncates:
  assumes "len \<in> {1, 2, 4, 6}"
  obtains d where "write_pn v dflt len x = Inr d" "length d = unat len"
    "\<And>r. ReadUintN (GetByteOrder v) len (d @ r) = Inr (take_bit (8 * unat len) x, r)"
proof -
  let ?x = "take_bit (8 * unat len) x"
  have "unat ?x < 2 ^ (8 * unat len)"
    by (simp add: unsigned_take_bit_eq)
  moreover have "write_pn v dflt len x = write_pn v dflt len ?x"
    using assms
    by (auto simp: write_pn_def PacketNumberLen_defs mask48 intro!: bit_word_eqI arg_cong [of _ _ "WriteUint16 _"]
        arg_cong [of _ _ "WriteUint32 _"] simp: bit_simps)
  ultimately show thesis using write_pn_read [OF assms, of ?x v dflt] that by metis
qed

lemma hdr_Write_bytes:
  assumes "hdr_fits pers v h"
  obtains pn where
    "hdr_Write h v pers = Inr (hdr_flagByte h pers
       # (if TruncateConnectionID h then [] else WriteUint64 LittleEndian (hdr_ConnectionID h))
       @ (if VersionFlag h then WriteUint32 LittleEndian (VersionNumberToTag (hdr_VersionNumber h)) else [])
       @ DiversificationNonce h @ (if MultipathFlag h then [hdr_PathID h] else []) @ pn)"
    "length pn = unat (hdr_PacketNumberLen h)"
    "\<And>r. ReadUintN (GetByteOrder v) (hdr_PacketNumberLen h) (pn @ r)
      = Inr (take_bit (8 * unat (hdr_PacketNumberLen h)) (hdr_PacketNumber h), r)"
proof -
  have "hdr_PacketNumberLen h \<in> {1, 2, 4, 6}" using assms by (simp add: hdr_fits_def)
  then obtain pn where pn: "write_pn v (Inl ErrPacketNumberLenNotSet) (hdr_PacketNumberLen h) (hdr_PacketNumber h) = Inr pn"
    "length pn = unat (hdr_PacketNumberLen h)"
    "\<And>r. ReadUintN (GetByteOrder v) (hdr_PacketNumberLen h) (pn @ r)
      = Inr (take_bit (8 * unat (hdr_PacketNumberLen h)) (hdr_PacketNumber h), r)"
    using write_pn_truncates [of "hdr_PacketNumberLen h" v] by metis
  show thesis
    by (rule that [OF _ pn(2,3)])
      (use assms pn(1) in \<open>auto simp: hdr_Write_def hdr_fits_def hasPacketNumber_def Let_def
        split: Perspective.splits\<close>)
qed

lemma hasPacketNumber_fits: "hdr_fits pers v h \<Longrightarrow> hasPacketNumber h pers"
  by (auto simp: hdr_fits_def hasPacketNumber_def split: Perspective.splits)

lemma ParsePublicHeader_client:
  assumes fits: "hdr_fits PerspectiveClient v h" and W: "hdr_Write h v PerspectiveClient = Inr bs"
  shows "ParsePublicHeader (bs @ r) PerspectiveClient v = Inr (hdr_decoded h, r)"
proof -
  obtain pn where pn:
    "hdr_Write h v PerspectiveClient = Inr (hdr_flagByte h PerspectiveClient
       # (if TruncateConnectionID h then [] else WriteUint64 LittleEndian (hdr_ConnectionID h))
       @ (if VersionFlag h then WriteUint32 LittleEndian (VersionNumberToTag (hdr_VersionNumber h)) else [])
       @ DiversificationNonce h @ (if MultipathFlag h then [hdr_PathID h] else []) @ pn)"
    "\<And>r. ReadUintN (GetByteOrder v) (hdr_PacketNumberLen h) (pn @ r)
      = Inr (take_bit (8 * unat (hdr_PacketNumberLen h)) (hdr_PacketNumber h), r)"
    using hdr_Write_bytes [OF fits] by metis
  have f: "\<not> ResetFlag h" "\<not> TruncateConnectionID h" "DiversificationNonce h = []" "hdr_ConnectionID h \<noteq> 0"
    "v \<noteq> VersionUnknown" "hdr_PacketNumberLen h \<in> {1, 2, 4, 6}"
    "VersionFlag h \<Longrightarrow> hdr_VersionNumber h = v \<and> VersionTagToNumber (VersionNumberToTag v) = v"
    using fits by (auto simp: hdr_fits_def VersionTag_roundtrip)
  note b = hdr_flagByte_fields [of h PerspectiveClient]
  have l: "hdr_flagByte h PerspectiveClient AND 0x30 = pn_bits (hdr_PacketNumberLen h)"
    by (rule b(6) [OF hasPacketNumber_fits [OF fits]])
  have bs: "bs = hdr_flagByte h PerspectiveClient # WriteUint64 LittleEndian (hdr_ConnectionID h)
       @ (if VersionFlag h then WriteUint32 LittleEndian (VersionNumberToTag v) else [])
       @ (if MultipathFlag h then [hdr_PathID h] else []) @ pn"
    using W pn(1) f by auto
  show ?thesis
    unfolding bs
    using f(1-5,7) pn(2)
    by (auto simp: ParsePublicHeader_def parse_path_and_number_def Let_def b(1-5) l
        pn_len_of_bits [OF f(6)] hasPacketNumber_def le.ReadUint64_write le.ReadUint32_write
        emptyPublicHeader_def hdr_decoded_def)
qed

lemma ParsePublicHeader_server:
  assumes fits: "hdr_fits PerspectiveServer v h" and W: "hdr_Write h v PerspectiveServer = Inr bs"
  shows "ParsePublicHeader (bs @ r) PerspectiveServer v = Inr (hdr_decoded h, r)"
proof -
  obtain pn where pn:
    "hdr_Write h v PerspectiveServer = Inr (hdr_flagByte h PerspectiveServer
       # (if TruncateConnectionID h then [] else WriteUint64 LittleEndian (hdr_ConnectionID h))
       @ (if VersionFlag h then WriteUint32 LittleEndian (VersionNumberToTag (hdr_VersionNumber h)) else [])
       @ DiversificationNonce h @ (if MultipathFlag h then [hdr_PathID h] else []) @ pn)"
    "\<And>r. ReadUintN (GetByteOrder v) (hdr_PacketNumberLen h) (pn @ r)
      = Inr (take_bit (8 * unat (hdr_PacketNumberLen h)) (hdr_PacketNumber h), r)"
    using hdr_Write_bytes [OF fits] by metis
  have f: "\<not> ResetFlag h" "\<not> VersionFlag h" "DiversificationNonce h = [] \<or> length (DiversificationNonce h) = 32"
    "\<not> TruncateConnectionID h \<Longrightarrow> hdr_ConnectionID h \<noteq> 0"
    "v \<noteq> VersionUnknown" "hdr_PacketNumberLen h \<in> {1, 2, 4, 6}"
    using fits by (auto simp: hdr_fits_def)
  note b = hdr_flagByte_fields [of h PerspectiveServer]
  have l: "hdr_flagByte h PerspectiveServer AND 0x30 = pn_bits (hdr_PacketNumberLen h)"
    by (rule b(6) [OF hasPacketNumber_fits [OF fits]])
  have bs: "bs = hdr_flagByte h PerspectiveServer
       # (if TruncateConnectionID h then [] else WriteUint64 LittleEndian (hdr_ConnectionID h))
       @ DiversificationNonce h @ (if MultipathFlag h then [hdr_PathID h] else []) @ pn"
    using W pn(1) f by auto
  show ?thesis
    unfolding bs
    using f(1-5) pn(2)
    by (auto simp: ParsePublicHeader_def parse_path_and_number_def Let_def b(1-5) l
        pn_len_of_bits [OF f(6)] hasPacketNumber_def le.ReadUint64_write
        emptyPublicHeader_def hdr_decoded_def)
qed

lemma hdr_GetLength_Write:
  assumes fits: "hdr_fits pers v h" and W: "hdr_Write h v pers = Inr bs"
  shows "hdr_GetLength h pers = Inr (of_nat (length bs))"
proof -
  obtain pn where pn:
    "hdr_Write h v pers = Inr (hdr_flagByte h pers
       # (if TruncateConnectionID h then [] else WriteUint64 LittleEndian (hdr_ConnectionID h))
       @ (if VersionFlag h then WriteUint32 LittleEndian (VersionNumberToTag (hdr_VersionNumber h)) else [])
       @ DiversificationNonce h @ (if MultipathFlag h then [hdr_PathID h] else []) @ pn)"
    "length pn = unat (hdr_PacketNumberLen h)"
    using hdr_Write_bytes [OF fits] by metis
  have f: "\<not> ResetFlag h" "VersionFlag h \<Longrightarrow> pers \<noteq> PerspectiveServer" "hdr_PacketNumberLen h \<in> {1, 2, 4, 6}"
    using fits by (auto simp: hdr_fits_def split: Perspective.splits)
  then show ?thesis
    using pn W hasPacketNumber_fits [OF fits]
    by (auto simp: hdr_GetLength_def Let_def PacketNumberLen_defs le.length_WriteUint64 le.length_WriteUint32)
qed

subsection \<open>Version negotiation\<close>

lemma read_versions_write:
  "list_all (\<lambda>v. 0 \<le> v \<and> v < 1000) versions \<Longrightarrow>
   read_versions (concat (map (\<lambda>v. WriteUint32 LittleEndian (VersionNumberToTag v)) versions)) = versions"
proof (induction versions)
  case Nil
  have "ReadUint32 LittleEndian [] = Inl EOF"
    by (simp add: LittleEndian_def le_ReadUint32_def)
  then show ?case by (simp add: read_versions.simps)
next
  case (Cons v versions)
  then show ?case
    by (simp add: read_versions.simps [of "WriteUint32 _ _ @ _"] le.ReadUint32_write VersionTag_roundtrip)
qed

lemma length_versions:
  "length (concat (map (\<lambda>v. WriteUint32 LittleEndian (VersionNumberToTag v)) versions)) = 4 * length versions"
  by (induction versions) (simp_all add: le.length_WriteUint32)

subsection \<open>Properties\<close>

text \<open>
  C15: the peer reads the public header of a regular packet back, with the packet number truncated to
  the announced width, and the length computed beforehand is the length written.
\<close>

theorem public_header_roundtrip:
  assumes "hdr_fits pers v h"
  shows "\<exists>bs. hdr_Write h v pers = Inr bs \<and> ParsePublicHeader (bs @ r) pers v = Inr (hdr_decoded h, r)
    \<and> hdr_GetLength h pers = Inr (of_nat (length bs))"
proof -
  obtain bs where "hdr_Write h v pers = Inr bs" using hdr_Write_bytes [OF assms] by metis
  with assms ParsePublicHeader_client ParsePublicHeader_server hdr_GetLength_Write [OF assms]
  show ?thesis by (cases pers) auto
qed

theorem public_header_roundtrip_witness:
  "\<exists>bs. hdr_Write (emptyPublicHeader\<lparr>hdr_ConnectionID := 7, MultipathFlag := True, hdr_PathID := 3,
      hdr_PacketNumberLen := 2, hdr_PacketNumber := 70000\<rparr>) 512 PerspectiveServer = Inr bs \<and>
    ParsePublicHeader (bs @ [1]) PerspectiveServer 512 = Inr (hdr_decoded (emptyPublicHeader\<lparr>hdr_ConnectionID := 7,
      MultipathFlag := True, hdr_PathID := 3, hdr_PacketNumberLen := 2, hdr_PacketNumber := 70000\<rparr>), [1])"
proof -
  have "hdr_fits PerspectiveServer 512 (emptyPublicHeader\<lparr>hdr_ConnectionID := 7, MultipathFlag := True,
      hdr_PathID := 3, hdr_PacketNumberLen := 2, hdr_PacketNumber := 70000\<rparr>)"
    by (simp add: hdr_fits_def emptyPublicHeader_def VersionUnknown_def)
  from public_header_roundtrip [OF this, of "[1]"] show ?thesis by blast
qed

text \<open>
  C25: a client that receives a version negotiation packet reads exactly the versions the server put
  into it.
\<close>

theorem version_negotiation_roundtrip:
  assumes "connectionID \<noteq> 0" "list_all (\<lambda>v. 0 \<le> v \<and> v < 1000) versions"
  shows "\<exists>h. ParsePublicHeader (ComposeVersionNegotiation connectionID versions) PerspectiveServer version
      = Inr (h, []) \<and> VersionFlag h \<and> hdr_ConnectionID h = connectionID \<and> hdr_SupportedVersions h = versions"
proof -
  let ?h = "emptyPublicHeader\<lparr>hdr_ConnectionID := connectionID, hdr_PacketNumber := 1, VersionFlag := True\<rparr>"
  let ?vs = "concat (map (\<lambda>v. WriteUint32 LittleEndian (VersionNumberToTag v)) versions)"
  have "ComposeVersionNegotiation connectionID versions
      = hdr_flagByte ?h PerspectiveServer # WriteUint64 LittleEndian connectionID @ ?vs"
    by (simp add: ComposeVersionNegotiation_def hdr_Write_def hasPacketNumber_def emptyPublicHeader_def)
  then show ?thesis
    using hdr_flagByte_fields [of ?h PerspectiveServer] read_versions_write [OF assms(2)] assms(1)
      length_versions [of versions]
    by (auto simp: ParsePublicHeader_def Let_def emptyPublicHeader_def hasPacketNumber_def le.ReadUint64_write)
qed

theorem version_negotiation_roundtrip_witness:
  "\<exists>h. ParsePublicHeader (ComposeVersionNegotiation 5 SupportedVersions) PerspectiveServer VersionUnknown
      = Inr (h, []) \<and> hdr_SupportedVersions h = SupportedVersions"
  using version_negotiation_roundtrip [of 5 SupportedVersions VersionUnknown]
  by (auto simp: SupportedVersions_def VersionMP_def Version37_def Version38_def Version39_def)

end
