(* ===== verification/Null_AEAD.thy ===== *)
theory Null_AEAD
  imports Wire_Header
begin

text \<open>
  \<open>internal/crypto/AEAD.go\<close> and the AEADs of packets that are not yet encrypted
  (\<open>null_aead.go\<close>, \<open>null_aead_fnv64a.go\<close>, \<open>null_aead_fnv128a.go\<close>). The Go interface is a record of
  methods; what sealing and opening sides rely on is the locale \<open>aead_pair\<close>. The 128-bit hash
  is a third-party package and an argument, \<open>hash/fnv\<close> belongs to the standard library.
\<close>

record AEAD =
  Open :: "bytes \<Rightarrow> PacketNumber \<Rightarrow> bytes \<Rightarrow> error + bytes"
  Seal :: "bytes \<Rightarrow> PacketNumber \<Rightarrow> bytes \<Rightarrow> bytes"
  Overhead :: nat

locale aead_pair =
  fixes sealer opener :: AEAD
  assumes Open_Seal: "Open opener (Seal sealer src pn ad) pn ad = Inr src"
    and length_Seal: "length (Seal sealer src pn ad) = length src + Overhead sealer"

subsection \<open>FNV-1a, 64 bits\<close>

definition fnv64a :: "bytes \<Rightarrow> u64" where
  "fnv64a bs = fold (\<lambda>b hash. (hash XOR ucast b) * 1099511628211) bs 14695981039346656037"

definition fnv64a_Open :: "bytes \<Rightarrow> PacketNumber \<Rightarrow> bytes \<Rightarrow> error + bytes" where
  "fnv64a_Open src packetNumber associatedData =
     (if length src < 8 then Inl ErrAuthentication
      else
        let dat = take (length src - 8) src;
            hash = fnv64a (associatedData @ dat)
        in bindE (be_ReadUint64 (drop (length src - 8) src)) (\<lambda>(sum, _).
             if hash \<noteq> sum then Inl ErrAuthentication else Inr dat))"

definition fnv64a_Seal :: "bytes \<Rightarrow> PacketNumber \<Rightarrow> bytes \<Rightarrow> bytes" where
  "fnv64a_Seal src packetNumber associatedData =
     src @ be_WriteUint64 (fnv64a (associatedData @ src))"

definition nullAEADFNV64a :: AEAD where
  "nullAEADFNV64a = \<lparr>Open = fnv64a_Open, Seal = fnv64a_Seal, Overhead = 8\<rparr>"

interpretation fnv64: aead_pair nullAEADFNV64a nullAEADFNV64a
proof
  fix src ad :: bytes and pn :: PacketNumber
  have "be_ReadUint64 (be_WriteUint64 h) = Inr (h, [])" for h
    using be_ReadUint_bytes(1) [of h "[]"] by simp
  then show "Open nullAEADFNV64a (Seal nullAEADFNV64a src pn ad) pn ad = Inr src"
    by (simp add: nullAEADFNV64a_def fnv64a_Open_def fnv64a_Seal_def be_Write_le_bytes)
  show "length (Seal nullAEADFNV64a src pn ad) = length src + Overhead nullAEADFNV64a"
    by (simp add: nullAEADFNV64a_def fnv64a_Seal_def be_Write_le_bytes)
qed

subsection \<open>FNV-1a, 128 bits\<close>

text \<open>
  \<open>sum128\<close> is \<open>Sum128\<close> of the hash of all bytes written, as (high, low). The sides append
  different suffixes: 'C', 'l', 'i', 'e', 'n', 't' and 'S', 'e', 'r', 'v', 'e', 'r'.
\<close>

definition Client_bytes :: bytes where
  "Client_bytes = [67, 108, 105, 101, 110, 116]"

definition Server_bytes :: bytes where
  "Server_bytes = [83, 101, 114, 118, 101, 114]"

definition fnv128a_Open ::
    "(bytes \<Rightarrow> u64 \<times> u64) \<Rightarrow> Perspective \<Rightarrow> bytes \<Rightarrow> PacketNumber \<Rightarrow> bytes \<Rightarrow> error + bytes" where
  "fnv128a_Open sum128 perspective src packetNumber associatedData =
     (if length src < 12 then Inl ErrAuthentication
      else
        let (testHigh, testLow) =
              sum128 (associatedData @ drop 12 src
                @ (if perspective = PerspectiveServer then Client_bytes else Server_bytes))
        in bindE (le_ReadUint64 src) (\<lambda>(low, _).
           bindE (le_ReadUint32 (drop 8 src)) (\<lambda>(high, _).
             if ucast (testHigh AND 0xffffffff) \<noteq> high \<or> testLow \<noteq> low then Inl ErrAuthentication
             else Inr (drop 12 src))))"

definition fnv128a_Seal ::
    "(bytes \<Rightarrow> u64 \<times> u64) \<Rightarrow> Perspective \<Rightarrow> bytes \<Rightarrow> PacketNumber \<Rightarrow> bytes \<Rightarrow> bytes" where
  "fnv128a_Seal sum128 perspective src packetNumber associatedData =
     (let (high, low) =
            sum128 (associatedData @ src
              @ (if perspective = PerspectiveServer then Server_bytes else Client_bytes))
      in le_WriteUint64 low @ le_WriteUint32 (ucast high) @ src)"

definition nullAEADFNV128a :: "(bytes \<Rightarrow> u64 \<times> u64) \<Rightarrow> Perspective \<Rightarrow> AEAD" where
  "nullAEADFNV128a sum128 perspective =
     \<lparr>Open = fnv128a_Open sum128 perspective, Seal = fnv128a_Seal sum128 perspective, Overhead = 12\<rparr>"

definition opposite :: "Perspective \<Rightarrow> Perspective" where
  "opposite p = (case p of PerspectiveServer \<Rightarrow> PerspectiveClient | PerspectiveClient \<Rightarrow> PerspectiveServer)"

lemma ucast_low32: "ucast ((x::u64) AND 0xffffffff) = (ucast x :: u32)"
proof -
  have "x AND 0xffffffff = take_bit 32 x" by (simp add: take_bit_eq_mask mask_eq_exp_minus_1)
  then show ?thesis by (auto intro!: bit_word_eqI simp: bit_simps)
qed

interpretation fnv128: aead_pair "nullAEADFNV128a sum128 p" "nullAEADFNV128a sum128 (opposite p)" for sum128 p
proof
  fix src ad :: bytes and pn :: PacketNumber
  let ?s = "if p = PerspectiveServer then Server_bytes else Client_bytes"
  obtain high low where s: "sum128 (ad @ src @ ?s) = (high, low)" by fastforce
  have sealed: "fnv128a_Seal sum128 p src pn ad = le_WriteUint64 low @ le_WriteUint32 (ucast high) @ src"
    using s by (simp add: fnv128a_Seal_def)
  have l: "length (le_WriteUint64 low) = 8" "length (le_WriteUint32 x) = 4" for x
    by (simp_all add: le_WriteUint64_def le_WriteUint32_def)
  then have d: "drop 12 (le_WriteUint64 low @ le_WriteUint32 (ucast high) @ src) = src"
    "drop 8 (le_WriteUint64 low @ le_WriteUint32 (ucast high) @ src) = le_WriteUint32 (ucast high) @ src"
    by simp_all
  have "(if opposite p = PerspectiveServer then Client_bytes else Server_bytes) = ?s"
    by (cases p) (simp_all add: opposite_def)
  then have "fnv128a_Open sum128 (opposite p) (fnv128a_Seal sum128 p src pn ad) pn ad = Inr src"
    using s l unfolding sealed fnv128a_Open_def d
    by (simp add: le_ReadUint_bytes ucast_low32)
  then show "Open (nullAEADFNV128a sum128 (opposite p)) (Seal (nullAEADFNV128a sum128 p) src pn ad) pn ad = Inr src"
    by (simp add: nullAEADFNV128a_def)
  show "length (Seal (nullAEADFNV128a sum128 p) src pn ad) = length src + Overhead (nullAEADFNV128a sum128 p)"
    using l by (simp add: nullAEADFNV128a_def sealed)
qed

definition UsesTLS :: "VersionNumber \<Rightarrow> bool" where
  "UsesTLS vn \<longleftrightarrow> vn = VersionTLS"

definition NewNullAEAD :: "(bytes \<Rightarrow> u64 \<times> u64) \<Rightarrow> Perspective \<Rightarrow> VersionNumber \<Rightarrow> AEAD" where
  "NewNullAEAD sum128 p v = (if UsesTLS v then nullAEADFNV64a else nullAEADFNV128a sum128 p)"

interpretation null: aead_pair "NewNullAEAD sum128 p v" "NewNullAEAD sum128 (opposite p) v" for sum128 p v
  by (simp add: NewNullAEAD_def fnv64.aead_pair_axioms fnv128.aead_pair_axioms)

end
