(* ===== verification/Unpacker.thy ===== *)
theory Unpacker
  imports Null_AEAD
begin

text \<open>
  \<open>internal/wire/frame.go\<close>, \<open>packet_unpacker.go\<close> and the writing half of \<open>packet_packer.go\<close>
  (\<open>getPublicHeader\<close>, \<open>writeAndSealPacket\<close>). A Go \<open>Frame\<close> is a datatype with one constructor per
  frame type; the unpacker selects the parser by the type byte and wraps its error. The AEAD is
  an argument.
\<close>

subsection \<open>Frames\<close>

datatype Frame =
    StreamF StreamFrame
  | AckF AckFrame
  | RstStreamF RstStreamFrame
  | ConnectionCloseF ConnectionCloseFrame
  | GoawayF GoawayFrame
  | WindowUpdateF WindowUpdateFrame
  | BlockedF BlockedFrame
  | StopWaitingF StopWaitingFrame
  | PingF PingFrame
  | AddAddressF AddAddressFrame
  | ClosePathF ClosePathFrame
  | PathsF PathsFrame

text \<open>The dynamic dispatch of \<open>Write\<close> and \<open>MinLength\<close>; \<open>now\<close> is the time an ACK is written.\<close>

fun Frame_Write :: "Time \<Rightarrow> VersionNumber \<Rightarrow> Frame \<Rightarrow> error + bytes" where
  "Frame_Write now v (StreamF f) = sf_Write v f"
| "Frame_Write now v (AckF f) = fst (ack_Write now v f)"
| "Frame_Write now v (RstStreamF f) = rst_Write v f"
| "Frame_Write now v (ConnectionCloseF f) = cc_Write v f"
| "Frame_Write now v (GoawayF f) = goaway_Write v f"
| "Frame_Write now v (WindowUpdateF f) = wu_Write v f"
| "Frame_Write now v (BlockedF f) = blocked_Write v f"
| "Frame_Write now v (StopWaitingF f) = sw_Write v f"
| "Frame_Write now v (PingF f) = ping_Write v f"
| "Frame_Write now v (AddAddressF f) = aa_Write v f"
| "Frame_Write now v (ClosePathF f) = cp_Write v f"
| "Frame_Write now v (PathsF f) = paths_Write v f"

fun Frame_MinLength :: "VersionNumber \<Rightarrow> Frame \<Rightarrow> error + ByteCount" where
  "Frame_MinLength v (StreamF f) = sf_MinLength v f"
| "Frame_MinLength v (AckF f) = ack_MinLength v f"
| "Frame_MinLength v (RstStreamF f) = rst_MinLength v f"
| "Frame_MinLength v (ConnectionCloseF f) = cc_MinLength v f"
| "Frame_MinLength v (GoawayF f) = goaway_MinLength v f"
| "Frame_MinLength v (WindowUpdateF f) = wu_MinLength v f"
| "Frame_MinLength v (BlockedF f) = blocked_MinLength v f"
| "Frame_MinLength v (StopWaitingF f) = sw_MinLength v f"
| "Frame_MinLength v (PingF f) = ping_MinLength v f"
| "Frame_MinLength v (AddAddressF f) = aa_MinLength v f"
| "Frame_MinLength v (ClosePathF f) = cp_MinLength v f"
| "Frame_MinLength v (PathsF f) = paths_MinLength v f"

subsection \<open>The unpacker\<close>

datatype EncryptionLevel =
  EncryptionUnspecified | EncryptionUnencrypted | EncryptionSecure | EncryptionForwardSecure

definition le_Unencrypted :: "EncryptionLevel \<Rightarrow> bool" where
  "le_Unencrypted l \<longleftrightarrow> l = EncryptionUnspecified \<or> l = EncryptionUnencrypted"

record unpackedPacket =
  up_encryptionLevel :: EncryptionLevel
  up_frames :: "Frame list"

definition wrapF :: "u32 \<Rightarrow> ('f \<Rightarrow> Frame) \<Rightarrow> error + 'f \<times> bytes \<Rightarrow> error + Frame \<times> bytes" where
  "wrapF code C m = bindE (mapE (\<lambda>_. QuicError code) m) (\<lambda>(f, r). Inr (C f, r))"

definition plainF :: "('f \<Rightarrow> Frame) \<Rightarrow> error + 'f \<times> bytes \<Rightarrow> error + Frame \<times> bytes" where
  "plainF C m = bindE m (\<lambda>(f, r). Inr (C f, r))"

text \<open>The body of the loop for a byte that is not PADDING; \<open>r\<close> includes the type byte.\<close>

definition unpack_frame ::
    "PacketNumber \<Rightarrow> PacketNumberLen \<Rightarrow> EncryptionLevel \<Rightarrow> VersionNumber \<Rightarrow> byte \<Rightarrow> bytes
     \<Rightarrow> error + Frame \<times> bytes" where
  "unpack_frame pn pnLen encryptionLevel version typeByte r =
     (if typeByte AND 0x80 = 0x80 then
        bindE (mapE (\<lambda>_. QuicError InvalidStreamData) (ParseStreamFrame version r)) (\<lambda>(frame, r).
          if sf_StreamID frame \<noteq> 1 \<and> le_Unencrypted encryptionLevel
          then Inl (QuicError UnencryptedStreamData)
          else Inr (StreamF frame, r))
      else if typeByte AND 0xc0 = 0x40 then wrapF InvalidAckData AckF (ParseAckFrame version r)
      else if typeByte AND 0xe0 = 0x20 then Inl ErrCongestionFeedback
      else if typeByte = 0x01 then wrapF InvalidRstStreamData RstStreamF (ParseRstStreamFrame version r)
      else if typeByte = 0x02
      then wrapF InvalidConnectionCloseData ConnectionCloseF (ParseConnectionCloseFrame version r)
      else if typeByte = 0x03 then wrapF InvalidGoawayData GoawayF (ParseGoawayFrame version r)
      else if typeByte = 0x04
      then wrapF InvalidWindowUpdateData WindowUpdateF (ParseWindowUpdateFrame version r)
      else if typeByte = 0x05 then wrapF InvalidBlockedData BlockedF (ParseBlockedFrame version r)
      else if typeByte = 0x06
      then wrapF InvalidStopWaitingData StopWaitingF (ParseStopWaitingFrame pn pnLen version r)
      else if typeByte = 0x07 then plainF PingF (ParsePingFrame version r)
      else if typeByte = 0x10 then plainF AddAddressF (ParseAddAddressFrame version r)
      else if typeByte = 0x11 then plainF ClosePathF (ParseClosePathFrame version r)
      else if typeByte = 0x12 then plainF PathsF (ParsePathsFrame version r)
      else Inl (QuicError InvalidFrameData))"

text \<open>Every parser consumes its type byte, so the loop over the payload terminates.\<close>

definition shrinks :: "nat \<Rightarrow> error + 'a \<times> bytes \<Rightarrow> bool" where
  "shrinks n m \<longleftrightarrow> (\<forall>x s. m = Inr (x, s) \<longrightarrow> length s < n)"

lemma shrinks_control:
  "shrinks n (Inl e)"
  "shrinks n a \<Longrightarrow> shrinks n b \<Longrightarrow> shrinks n (if c then a else b)"
  "shrinks n m \<Longrightarrow> shrinks n (wrapF code C m)"
  "shrinks n m \<Longrightarrow> shrinks n (plainF C m)"
  by (auto simp: shrinks_def wrapF_def plainF_def bindE_eq_Inr mapE_eq_Inr)

lemma shrinks_stream:
  "shrinks (length r) (bindE (mapE g (ParseStreamFrame v r)) (\<lambda>(f, r). if c f then Inl e else Inr (C f, r)))"
  by (auto simp: shrinks_def bindE_eq_Inr mapE_eq_Inr split: if_splits dest: ParseStreamFrame_consumes)

lemma shrinks_parsers:
  "shrinks (length r) (ParseAckFrame v r)" "shrinks (length r) (ParseRstStreamFrame v r)"
  "shrinks (length r) (ParseConnectionCloseFrame v r)" "shrinks (length r) (ParseGoawayFrame v r)"
  "shrinks (length r) (ParseWindowUpdateFrame v r)" "shrinks (length r) (ParseBlockedFrame v r)"
  "shrinks (length r) (ParseStopWaitingFrame pn l v r)" "shrinks (length r) (ParsePingFrame v r)"
  "shrinks (length r) (ParseAddAddressFrame v r)" "shrinks (length r) (ParseClosePathFrame v r)"
  "shrinks (length r) (ParsePathsFrame v r)"
  unfolding shrinks_def
  by (blast dest: frames_consume ParseAckFrame_consumes ParseClosePathFrame_consumes)+

lemma unpack_frame_shrinks: "shrinks (length r) (unpack_frame pn pnLen lvl v t r)"
  unfolding unpack_frame_def by (intro shrinks_control shrinks_stream shrinks_parsers)

lemma unpack_frame_consumes:
  "unpack_frame pn pnLen lvl v t r = Inr (f, s) \<Longrightarrow> length s < length r"
  using unpack_frame_shrinks unfolding shrinks_def by blast

function unpack_loop ::
    "PacketNumber \<Rightarrow> PacketNumberLen \<Rightarrow> EncryptionLevel \<Rightarrow> VersionNumber \<Rightarrow> bytes
     \<Rightarrow> error + Frame list" where
  "unpack_loop pn pnLen lvl version [] = Inr []"
| "unpack_loop pn pnLen lvl version (typeByte # r) =
     (if typeByte = 0x0 then unpack_loop pn pnLen lvl version r
      else
        bindE (unpack_frame pn pnLen lvl version typeByte (typeByte # r)) (\<lambda>(frame, r).
        bindE (unpack_loop pn pnLen lvl version r) (\<lambda>fs. Inr (frame # fs))))"
  by pat_completeness auto
termination
  by (relation "measure (\<lambda>(pn, pnLen, lvl, version, r). length r)")
    (auto dest: unpack_frame_consumes)

definition Unpack ::
    "(bytes \<Rightarrow> PacketNumber \<Rightarrow> bytes \<Rightarrow> error + bytes \<times> EncryptionLevel) \<Rightarrow> VersionNumber
     \<Rightarrow> bytes \<Rightarrow> PublicHeader \<Rightarrow> bytes \<Rightarrow> error + unpackedPacket" where
  "Unpack aead_Open version publicHeaderBinary hdr dat =
     bindE (mapE (\<lambda>_. QuicError DecryptionFailure)
              (aead_Open dat (hdr_PacketNumber hdr) publicHeaderBinary)) (\<lambda>(decrypted, encryptionLevel).
       if length decrypted = 0 then Inl (QuicError MissingPayload)
       else bindE (unpack_loop (hdr_PacketNumber hdr) (hdr_PacketNumberLen hdr) encryptionLevel version
                     decrypted) (\<lambda>fs.
         Inr \<lparr>up_encryptionLevel = encryptionLevel, up_frames = fs\<rparr>))"

subsection \<open>Writing a packet\<close>

text \<open>The loop over the payload frames in \<open>writeAndSealPacket\<close>.\<close>

fun write_frames :: "Time \<Rightarrow> VersionNumber \<Rightarrow> Frame list \<Rightarrow> error + bytes" where
  "write_frames now version [] = Inr []"
| "write_frames now version (f # fs) =
     bindE (Frame_Write now version f) (\<lambda>b.
     bindE (write_frames now version fs) (\<lambda>bs. Inr (b @ bs)))"

text \<open>
  The fields of \<open>packetPacker\<close> and \<open>path\<close> that the header depends on are arguments. A packet
  that is too large is dropped: the result is \<open>nil\<close> without an error, here \<open>Inr None\<close>.
\<close>

definition getPublicHeader ::
    "ConnectionID \<Rightarrow> Perspective \<Rightarrow> VersionNumber \<Rightarrow> bool \<Rightarrow> bytes \<Rightarrow> bool \<Rightarrow> PathID
     \<Rightarrow> packetNumberGenerator \<Rightarrow> PacketNumber \<Rightarrow> EncryptionLevel \<Rightarrow> PublicHeader" where
  "getPublicHeader connectionID perspective version truncateID nonce handshakeComplete pathID png
     leastUnacked encLevel =
     (let pnum = pngPeek png;
          h = emptyPublicHeader\<lparr>hdr_ConnectionID := connectionID, hdr_PacketNumber := pnum,
                hdr_PacketNumberLen := GetPacketNumberLengthForPublicHeader pnum leastUnacked,
                TruncateConnectionID := truncateID\<rparr>;
          h = (if perspective = PerspectiveServer \<and> encLevel = EncryptionSecure
               then h\<lparr>DiversificationNonce := nonce\<rparr> else h);
          h = (if perspective = PerspectiveClient \<and> encLevel \<noteq> EncryptionForwardSecure
               then h\<lparr>VersionFlag := True, hdr_VersionNumber := version\<rparr> else h)
      in if handshakeComplete \<and> version \<ge> VersionMP
         then h\<lparr>MultipathFlag := True, hdr_PathID := pathID, TruncateConnectionID := False\<rparr>
         else h)"

definition writeAndSealPacket ::
    "Time \<Rightarrow> (byte \<times> byte) option \<Rightarrow> VersionNumber \<Rightarrow> Perspective \<Rightarrow> PublicHeader \<Rightarrow> Frame list \<Rightarrow> AEAD
     \<Rightarrow> packetNumberGenerator \<Rightarrow> (error + bytes option) \<times> packetNumberGenerator" where
  "writeAndSealPacket now rnd version perspective publicHeader payloadFrames sealer png =
     (case hdr_Write publicHeader version perspective of
        Inl e \<Rightarrow> (Inl e, png)
      | Inr hdr \<Rightarrow>
          (case write_frames now version payloadFrames of
             Inl e \<Rightarrow> (Inl e, png)
           | Inr payload \<Rightarrow>
               if of_nat (length hdr + length payload + Overhead sealer) > MaxPacketSize
               then (Inr None, png)
               else
                 let raw = hdr @ Seal sealer payload (hdr_PacketNumber publicHeader) hdr;
                     (num, png) = pngPop rnd png
                 in if num \<noteq> hdr_PacketNumber publicHeader then (Inl ErrPeekedPoppedMismatch, png)
                    else (Inr (Some raw), png)))"

subsection \<open>All frames keep the promise\<close>

text \<open>
  The frames that can stand anywhere in a packet with the given packet number: a STREAM frame must
  have a length and must not be sent in the clear, except on the crypto stream 1.
\<close>

fun frame_fits :: "PacketNumber \<Rightarrow> PacketNumberLen \<Rightarrow> EncryptionLevel \<Rightarrow> Frame \<Rightarrow> bool" where
  "frame_fits pn len lvl (StreamF f) \<longleftrightarrow>
     sf_fits f \<and> sf_DataLenPresent f \<and> (sf_StreamID f = 1 \<or> \<not> le_Unencrypted lvl)"
| "frame_fits pn len lvl (AckF f) \<longleftrightarrow> ack_fits f"
| "frame_fits pn len lvl (RstStreamF f) \<longleftrightarrow> True"
| "frame_fits pn len lvl (ConnectionCloseF f) \<longleftrightarrow> length (cc_ReasonPhrase f) \<le> 1350"
| "frame_fits pn len lvl (GoawayF f) \<longleftrightarrow> length (goaway_ReasonPhrase f) \<le> 1350"
| "frame_fits pn len lvl (WindowUpdateF f) \<longleftrightarrow> True"
| "frame_fits pn len lvl (BlockedF f) \<longleftrightarrow> True"
| "frame_fits pn len lvl (StopWaitingF f) \<longleftrightarrow> sw_fits pn len f"
| "frame_fits pn len lvl (PingF f) \<longleftrightarrow> True"
| "frame_fits pn len lvl (AddAddressF f) \<longleftrightarrow> aa_fits f"
| "frame_fits pn len lvl (ClosePathF f) \<longleftrightarrow> cp_fits f"
| "frame_fits pn len lvl (PathsF f) \<longleftrightarrow> paths_fits f"

fun frame_decoded :: "Time \<Rightarrow> Frame \<Rightarrow> Frame" where
  "frame_decoded now (StreamF f) = StreamF (sf_decoded f)"
| "frame_decoded now (AckF f) = AckF (ack_decoded now f)"
| "frame_decoded now (StopWaitingF f) = StopWaitingF (sw_decoded f)"
| "frame_decoded now (AddAddressF f) = AddAddressF (aa_decoded f)"
| "frame_decoded now (ClosePathF f) = ClosePathF (cp_decoded f)"
| "frame_decoded now (PathsF f) = PathsF (paths_decoded f)"
| "frame_decoded now (PingF f) = PingF PingFrame"
| "frame_decoded now f = f"

text \<open>The number of bytes of a frame: for STREAM frames \<open>MinLength\<close> counts the header only.\<close>

fun Frame_length :: "VersionNumber \<Rightarrow> Frame \<Rightarrow> error + ByteCount" where
  "Frame_length v (StreamF f) = sf_length v f"
| "Frame_length v f = Frame_MinLength v f"

definition unpack_first ::
    "PacketNumber \<Rightarrow> PacketNumberLen \<Rightarrow> EncryptionLevel \<Rightarrow> VersionNumber \<Rightarrow> bytes \<Rightarrow> error + Frame \<times> bytes" where
  "unpack_first pn len lvl v r =
     (case r of [] \<Rightarrow> Inl EOF | t # _ \<Rightarrow> unpack_frame pn len lvl v t r)"

lemma type_byte_tags:
  "(t::u8) AND 0xc0 = 0x40 \<Longrightarrow> t AND 0x80 \<noteq> 0x80"
  "(t::u8) AND 0x80 = 0x80 \<Longrightarrow> t \<noteq> 0"
  "(t::u8) AND 0xc0 = 0x40 \<Longrightarrow> t \<noteq> 0"
proof -
  assume a: "t AND 0xc0 = 0x40"
  have "t AND 0x80 = (t AND 0xc0) AND 0x80" by (simp only: and.assoc) simp
  then show "t AND 0x80 \<noteq> 0x80" by (simp add: a)
qed auto

lemma wrapF_Inr [simp]: "wrapF c C (Inr (f, r)) = Inr (C f, r)" "plainF C (Inr (f, r)) = Inr (C f, r)"
  by (simp_all add: wrapF_def plainF_def)

lemma Frame_Write_Parse:
  assumes "frame_fits pn len lvl f"
  shows "\<exists>t d. Frame_Write now v f = Inr (t # d) \<and> t \<noteq> 0 \<and>
    Frame_length v f = Inr (of_nat (length (t # d))) \<and>
    (\<forall>r. unpack_frame pn len lvl v t ((t # d) @ r) = Inr (frame_decoded now f, r))"
proof (cases f)
  case (StreamF g)
  then show ?thesis
    using sf.Write_Parse_tagged [of g v] assms type_byte_tags(2)
    by (fastforce simp: unpack_frame_def sf_decoded_def)
next
  case (AckF g)
  then show ?thesis
    using ack.Write_Parse_tagged [of g now v] assms type_byte_tags(1,3)
    by (fastforce simp: unpack_frame_def)
next
  case (RstStreamF g)
  then show ?thesis
    using rst.Write_Parse_tagged [where v = v and f = g] assms by (auto simp: unpack_frame_def)
next
  case (ConnectionCloseF g)
  then show ?thesis
    using cc.Write_Parse_tagged [where v = v and f = g] assms by (auto simp: unpack_frame_def)
next
  case (GoawayF g)
  then show ?thesis
    using goaway.Write_Parse_tagged [where v = v and f = g] assms by (auto simp: unpack_frame_def)
next
  case (WindowUpdateF g)
  then show ?thesis
    using wu.Write_Parse_tagged [where v = v and f = g] assms by (auto simp: unpack_frame_def)
next
  case (BlockedF g)
  then show ?thesis
    using blocked.Write_Parse_tagged [where v = v and f = g] assms by (auto simp: unpack_frame_def)
next
  case (StopWaitingF g)
  then show ?thesis
    using sw.Write_Parse_tagged [where pn = pn and len = len and v = v and f = g] assms by (auto simp: unpack_frame_def)
next
  case (PingF g)
  then show ?thesis
    using ping.Write_Parse_tagged [where v = v and f = g] assms by (auto simp: unpack_frame_def)
next
  case (AddAddressF g)
  then show ?thesis
    using aa.Write_Parse_tagged [where v = v and f = g] assms by (auto simp: unpack_frame_def)
next
  case (ClosePathF g)
  then show ?thesis
    using cp.Write_Parse_tagged [where v = v and f = g] assms by (auto simp: unpack_frame_def)
next
  case (PathsF g)
  then show ?thesis
    using paths.Write_Parse_tagged [where v = v and f = g] assms by (auto simp: unpack_frame_def)
qed

interpretation fr: frame_codec "Frame_Write now" Frame_length "unpack_first pn len lvl"
    "frame_fits pn len lvl" "frame_decoded now" "\<lambda>t. t \<noteq> 0" for now pn len lvl
proof
  fix f v assume "frame_fits pn len lvl f"
  from Frame_Write_Parse [OF this, of now v]
  obtain t d where "Frame_Write now v f = Inr (t # d)" "t \<noteq> 0"
    "Frame_length v f = Inr (of_nat (length (t # d)))"
    "\<And>r. unpack_frame pn len lvl v t ((t # d) @ r) = Inr (frame_decoded now f, r)" by metis
  note W = this
  show "\<exists>t d. Frame_Write now v f = Inr (t # d) \<and> t \<noteq> 0" using W by simp
  show "unpack_first pn len lvl v (bs @ r) = Inr (frame_decoded now f, r)"
    if "Frame_Write now v f = Inr bs" for bs r
    using W that by (auto simp: unpack_first_def)
  show "Frame_length v f = Inr (of_nat (length bs))" if "Frame_Write now v f = Inr bs" for bs
    using W that by auto
next
  fix v r f s
  assume "unpack_first pn len lvl v r = Inr (f, s)"
  then show "length s < length r"
    by (auto simp: unpack_first_def split: list.splits dest!: unpack_frame_consumes)
qed

subsection \<open>A packet, from the packer to the unpacker\<close>

text \<open>
  The first half of \<open>handlePacketImpl\<close> in \<open>path.go\<close>: the packet number is inferred from the
  largest one received so far and the payload is unpacked. The result carries the full packet number.
\<close>

definition path_unpack ::
    "(bytes \<Rightarrow> PacketNumber \<Rightarrow> bytes \<Rightarrow> error + bytes \<times> EncryptionLevel) \<Rightarrow> VersionNumber
     \<Rightarrow> PacketNumber \<Rightarrow> PublicHeader \<Rightarrow> bytes \<Rightarrow> error + PacketNumber \<times> unpackedPacket" where
  "path_unpack aead_Open version largestRcvdPacketNumber hdr dat =
     (let hdr = hdr\<lparr>hdr_PacketNumber := InferPacketNumber (hdr_PacketNumberLen hdr)
                      largestRcvdPacketNumber (hdr_PacketNumber hdr)\<rparr>
      in bindE (Unpack aead_Open version (Raw hdr) hdr dat) (\<lambda>packet.
           Inr (hdr_PacketNumber hdr, packet)))"

text \<open>
  What \<open>handlePacket\<close> of the client and the server do with the raw packet before they pass it on:
  the header is parsed, the bytes it took are kept in \<open>Raw\<close> and the rest is the payload.
\<close>

definition split_raw ::
    "Perspective \<Rightarrow> VersionNumber \<Rightarrow> bytes \<Rightarrow> error + PublicHeader \<times> bytes" where
  "split_raw sentBy version packet =
     bindE (ParsePublicHeader packet sentBy version) (\<lambda>(hdr, r).
       Inr (hdr\<lparr>Raw := take (length packet - length r) packet\<rparr>,
            drop (length packet - length r) packet))"

lemma split_raw_written:
  assumes "hdr_fits pers v h" "hdr_Write h v pers = Inr bs"
  shows "split_raw pers v (bs @ dat) = Inr ((hdr_decoded h)\<lparr>Raw := bs\<rparr>, dat)"
  using ParsePublicHeader_client [of v h bs dat] ParsePublicHeader_server [of v h bs dat] assms
  by (cases pers) (simp_all add: split_raw_def)

text \<open>
  A packet whose last frame is a STREAM frame without a length: this one takes the rest of the
  packet.
\<close>

definition payload_fits :: "PacketNumber \<Rightarrow> PacketNumberLen \<Rightarrow> EncryptionLevel \<Rightarrow> Frame list \<Rightarrow> bool" where
  "payload_fits pn len lvl fs \<longleftrightarrow>
     fs \<noteq> [] \<and> list_all (frame_fits pn len lvl) (butlast fs) \<and>
     (case last fs of
        StreamF f \<Rightarrow> sf_fits f \<and> (sf_StreamID f = 1 \<or> \<not> le_Unencrypted lvl)
      | f \<Rightarrow> frame_fits pn len lvl f)"

lemma bindE_Inr_id: "bindE m Inr = m"
  by (cases m) simp_all

lemma unpack_loop_frames:
  assumes "list_all (frame_fits pn len lvl) fs" "write_frames now v fs = Inr bs"
  shows "unpack_loop pn len lvl v (bs @ r) =
    bindE (unpack_loop pn len lvl v r) (\<lambda>gs. Inr (map (frame_decoded now) fs @ gs))"
  using assms
proof (induction fs arbitrary: bs)
  case (Cons f fs)
  then obtain b cs where W: "Frame_Write now v f = Inr b" "write_frames now v fs = Inr cs" "bs = b @ cs"
    by (auto simp: bindE_eq_Inr)
  obtain t d where "b = t # d" "t \<noteq> 0"
    "\<And>r. unpack_frame pn len lvl v t ((t # d) @ r) = Inr (frame_decoded now f, r)"
    using Frame_Write_Parse [of pn len lvl f now v] Cons.prems(1) W(1) by auto
  then show ?case
    using Cons W by (cases "unpack_loop pn len lvl v r") simp_all
qed (simp add: bindE_Inr_id)

lemma unpack_last_stream:
  assumes "sf_fits f" "sf_Write v f = Inr bs" "sf_StreamID f = 1 \<or> \<not> le_Unencrypted lvl"
  shows "unpack_loop pn len lvl v bs = Inr [StreamF (sf_decoded f)]"
proof -
  have "ParseStreamFrame v bs = Inr (sf_decoded f, [])"
    using ParseStreamFrame_Write [OF assms(1,2), of "[]"] by simp
  moreover obtain t d where t: "bs = t # d" "t AND 0x80 = 0x80"
    using sf_Write_tag [OF assms(1), of v] assms(2) by auto
  ultimately show ?thesis
    using assms(3) type_byte_tags(2) [OF t(2)] by (auto simp: unpack_frame_def sf_decoded_def)
qed

lemma write_frames_append:
  "write_frames now v (fs @ gs) =
     bindE (write_frames now v fs) (\<lambda>b. bindE (write_frames now v gs) (\<lambda>c. Inr (b @ c)))"
proof (induction fs)
  case Nil
  show ?case by (cases "write_frames now v gs") simp_all
next
  case (Cons f fs)
  then show ?case
    by (cases "Frame_Write now v f"; cases "write_frames now v fs"; cases "write_frames now v gs") simp_all
qed

lemma write_frames_ok:
  "list_all (frame_fits pn len lvl) fs \<Longrightarrow> \<exists>bs. write_frames now v fs = Inr bs"
proof (induction fs)
  case (Cons f fs)
  then obtain t d bs where "Frame_Write now v f = Inr (t # d)" "write_frames now v fs = Inr bs"
    using Frame_Write_Parse [of pn len lvl f now v] by auto
  then show ?case by simp
qed simp

lemma payload_roundtrip:
  assumes "payload_fits pn len lvl fs"
  shows "\<exists>bs. write_frames now v fs = Inr bs \<and> bs \<noteq> [] \<and>
    unpack_loop pn len lvl v bs = Inr (map (frame_decoded now) fs)"
proof -
  obtain gs f where fs: "fs = gs @ [f]" 
    using assms append_butlast_last_id [of fs] by (metis payload_fits_def)
  then have gs: "list_all (frame_fits pn len lvl) gs" using assms by (simp add: payload_fits_def)
  then obtain b where b: "write_frames now v gs = Inr b" using write_frames_ok by blast
  have last: "\<exists>t d. Frame_Write now v f = Inr (t # d) \<and> unpack_loop pn len lvl v (t # d) = Inr [frame_decoded now f]"
  proof (cases "frame_fits pn len lvl f")
    case True
    then obtain t d where "Frame_Write now v f = Inr (t # d)" "t \<noteq> 0"
      "\<And>r. unpack_frame pn len lvl v t ((t # d) @ r) = Inr (frame_decoded now f, r)"
      using Frame_Write_Parse [OF True, of now v] by blast
    then have "unpack_frame pn len lvl v t (t # d) = Inr (frame_decoded now f, [])"
      by (metis append_Nil2)
    with \<open>Frame_Write now v f = Inr (t # d)\<close> \<open>t \<noteq> 0\<close> show ?thesis by simp
  next
    case False
    then obtain g where g: "f = StreamF g" "sf_fits g" "sf_StreamID g = 1 \<or> \<not> le_Unencrypted lvl"
      using assms fs by (cases f) (simp_all add: payload_fits_def)
    obtain t d where "sf_Write v g = Inr (t # d)" using sf_Write_tag [OF g(2), of v] by blast
    with unpack_last_stream [OF g(2) this g(3)] g(1) show ?thesis
      by (simp del: unpack_loop.simps)
  qed
  then obtain t d where td: "Frame_Write now v f = Inr (t # d)"
    "unpack_loop pn len lvl v (t # d) = Inr [frame_decoded now f]" by blast
  show ?thesis
    using b td unpack_loop_frames [OF gs b, of "t # d"]
    by (simp add: fs write_frames_append del: unpack_loop.simps)
qed

lemma writeAndSealPacket_cases:
  assumes "hdr_fits pers v h" "payload_fits pn len lvl fs" "hdr_PacketNumber h = next_pn png"
  obtains hdr payload where "hdr_Write h v pers = Inr hdr" "write_frames now v fs = Inr payload"
    "payload \<noteq> []" "unpack_loop pn len lvl v payload = Inr (map (frame_decoded now) fs)"
    "fst (writeAndSealPacket now rnd v pers h fs sealer png) =
       (if of_nat (length hdr + length payload + Overhead sealer) > MaxPacketSize then Inr None
        else Inr (Some (hdr @ Seal sealer payload (next_pn png) hdr)))"
proof -
  obtain hdr where hdr: "hdr_Write h v pers = Inr hdr" using hdr_Write_bytes [OF assms(1)] by metis
  obtain payload where p: "write_frames now v fs = Inr payload" "payload \<noteq> []"
    "unpack_loop pn len lvl v payload = Inr (map (frame_decoded now) fs)"
    using payload_roundtrip [OF assms(2)] by metis
  have "fst (pngPop rnd png) = hdr_PacketNumber h" using assms(3) by (simp add: pngPop_fst)
  then show thesis
    by (intro that [OF hdr p]) (use hdr p assms(3) in
      \<open>simp add: writeAndSealPacket_def Let_def case_prod_beta\<close>)
qed

subsection \<open>Properties\<close>



end
