(* ===== verification/Handshake.thy ===== *)
theory Handshake
  imports Wire_Header "HOL-Library.AList"
begin

text \<open>
  \<open>internal/handshake/handshake_message.go\<close>, \<open>tags.go\<close>, \<open>connection_parameters_manager.go\<close> and
  \<open>internal/wire/public_reset.go\<close>. A Go \<open>map[Tag][]byte\<close> is an association list with distinct keys;
  \<open>m[k] = v\<close> is \<open>AList.update\<close>.
\<close>

subsection \<open>Tags\<close>

type_synonym Tag = u32

definition tag4 :: "u32 \<Rightarrow> u32 \<Rightarrow> u32 \<Rightarrow> u32 \<Rightarrow> Tag" where
  "tag4 a b c d = a + push_bit 8 b + push_bit 16 c + push_bit 24 d"

definition TagMSPC :: Tag where "TagMSPC = tag4 77 83 80 67"

definition TagMIDS :: Tag where "TagMIDS = tag4 77 73 68 83"

definition TagTCID :: Tag where "TagTCID = tag4 84 67 73 68"

definition TagICSL :: Tag where "TagICSL = tag4 73 67 83 76"

definition TagCFCW :: Tag where "TagCFCW = tag4 67 70 67 87"

definition TagSFCW :: Tag where "TagSFCW = tag4 83 70 67 87"

definition TagPRST :: Tag where "TagPRST = tag4 80 82 83 84"

definition TagRSEQ :: Tag where "TagRSEQ = tag4 82 83 69 81"

definition TagRNON :: Tag where "TagRNON = tag4 82 78 79 78"

lemmas Tag_defs =
  tag4_def TagMSPC_def TagMIDS_def TagTCID_def TagICSL_def TagCFCW_def TagSFCW_def
  TagPRST_def TagRSEQ_def TagRNON_def

definition CryptoTooManyEntries :: u32 where "CryptoTooManyEntries = 30"

definition CryptoInvalidValueLength :: u32 where "CryptoInvalidValueLength = 31"

definition InvalidCryptoMessageParameter :: u32 where "InvalidCryptoMessageParameter = 34"

definition CryptoMaxParams :: u32 where "CryptoMaxParams = 128"

definition CryptoParameterMaxLength :: u32 where "CryptoParameterMaxLength = 4000"

subsection \<open>Handshake messages\<close>

record HandshakeMessage =
  hm_Tag :: Tag
  hm_Data :: "(Tag \<times> bytes) list"

text \<open>\<open>binary.LittleEndian.Uint32\<close> and \<open>Uint64\<close> of a slice that is long enough.\<close>

definition le_Uint32 :: "bytes \<Rightarrow> u32" where
  "le_Uint32 b =
     ucast (b ! 0) OR push_bit 8 (ucast (b ! 1)) OR push_bit 16 (ucast (b ! 2)) OR push_bit 24 (ucast (b ! 3))"

definition le_Uint64 :: "bytes \<Rightarrow> u64" where
  "le_Uint64 b =
     ucast (b ! 0) OR push_bit 8 (ucast (b ! 1)) OR push_bit 16 (ucast (b ! 2)) OR push_bit 24 (ucast (b ! 3))
     OR push_bit 32 (ucast (b ! 4)) OR push_bit 40 (ucast (b ! 5)) OR push_bit 48 (ucast (b ! 6))
     OR push_bit 56 (ucast (b ! 7))"

text \<open>The loop over the index, eight bytes per pair.\<close>

fun parse_pairs ::
    "nat \<Rightarrow> u32 \<Rightarrow> bytes \<Rightarrow> (Tag \<times> bytes) list \<Rightarrow> bytes \<Rightarrow> error + (Tag \<times> bytes) list \<times> bytes" where
  "parse_pairs 0 dataStart index resultMap r = Inr (resultMap, r)"
| "parse_pairs (Suc n) dataStart index resultMap r =
     (let tag = le_Uint32 (take 4 index);
          dataEnd = le_Uint32 (take 4 (drop 4 index));
          dataLen = dataEnd - dataStart
      in if dataLen > CryptoParameterMaxLength then Inl (QuicError CryptoInvalidValueLength)
         else bindE (ReadFull (unat dataLen) r) (\<lambda>(dat, r).
                parse_pairs n dataEnd (drop 8 index) (AList.update tag dat resultMap) r))"

definition ParseHandshakeMessage :: "bytes \<Rightarrow> error + HandshakeMessage \<times> bytes" where
  "ParseHandshakeMessage r =
     bindE (ReadFull 4 r) (\<lambda>(slice4, r).
       let messageTag = le_Uint32 slice4 in
       bindE (ReadFull 4 r) (\<lambda>(slice4, r).
         let nPairs = le_Uint32 slice4 in
         if nPairs > CryptoMaxParams then Inl (QuicError CryptoTooManyEntries)
         else bindE (ReadFull (unat (nPairs * 8)) r) (\<lambda>(index, r).
              bindE (parse_pairs (unat nPairs) 0 index [] r) (\<lambda>(resultMap, r).
                Inr (\<lparr>hm_Tag = messageTag, hm_Data = resultMap\<rparr>, r)))))"

definition getTagsSorted :: "HandshakeMessage \<Rightarrow> Tag list" where
  "getTagsSorted h = sort (map fst (hm_Data h))"

text \<open>The loop of \<open>Write\<close>: the index data and the values, with the running end offset.\<close>

fun write_pairs :: "(Tag \<times> bytes) list \<Rightarrow> u32 \<Rightarrow> Tag list \<Rightarrow> bytes \<times> bytes" where
  "write_pairs m offset [] = ([], [])"
| "write_pairs m offset (t # ts) =
     (let v = (case map_of m t of None \<Rightarrow> [] | Some v \<Rightarrow> v);
          offset = offset + of_nat (length v);
          (indexData, vs) = write_pairs m offset ts
      in (le_WriteUint32 t @ le_WriteUint32 offset @ indexData, v @ vs))"

definition hm_Write :: "HandshakeMessage \<Rightarrow> bytes" where
  "hm_Write h =
     (let (indexData, vs) = write_pairs (hm_Data h) 0 (getTagsSorted h)
      in le_WriteUint32 (hm_Tag h) @ le_WriteUint16 (of_nat (length (hm_Data h))) @ le_WriteUint16 0
           @ indexData @ vs)"

subsection \<open>Public reset\<close>

record PublicReset =
  RejectedPacketNumber :: PacketNumber
  pr_Nonce :: u64

definition WritePublicReset :: "ConnectionID \<Rightarrow> PacketNumber \<Rightarrow> u64 \<Rightarrow> bytes" where
  "WritePublicReset connectionID rejectedPacketNumber nonceProof =
     [0x0a] @ le_WriteUint64 connectionID @ le_WriteUint32 TagPRST @ le_WriteUint32 2
       @ le_WriteUint32 TagRNON @ le_WriteUint32 8 @ le_WriteUint32 TagRSEQ @ le_WriteUint32 16
       @ le_WriteUint64 nonceProof @ le_WriteUint64 rejectedPacketNumber"

definition ParsePublicReset :: "bytes \<Rightarrow> error + PublicReset \<times> bytes" where
  "ParsePublicReset r =
     bindE (ParseHandshakeMessage r) (\<lambda>(msg, r).
       if hm_Tag msg \<noteq> TagPRST then Inl ErrWrongPublicResetTag
       else case map_of (hm_Data msg) TagRSEQ of
         None \<Rightarrow> Inl (ErrMissingTag TagRSEQ)
       | Some rseq \<Rightarrow>
           if length rseq \<noteq> 8 then Inl (ErrInvalidTag TagRSEQ)
           else (case map_of (hm_Data msg) TagRNON of
                   None \<Rightarrow> Inl (ErrMissingTag TagRNON)
                 | Some rnon \<Rightarrow>
                     if length rnon \<noteq> 8 then Inl (ErrInvalidTag TagRNON)
                     else Inr (\<lparr>RejectedPacketNumber = le_Uint64 rseq, pr_Nonce = le_Uint64 rnon\<rparr>, r)))"

subsection \<open>Reading back what was written\<close>

lemma bit_byte_at:
  fixes x :: "'a::len word"
  shows "bit (push_bit k (ucast (ucast (drop_bit k x) :: u8) :: 'a word)) n \<longleftrightarrow> k \<le> n \<and> n < k + 8 \<and> bit x n"
  by (auto simp: bit_simps dest: bit_imp_le_length)

lemma le_Uint_bytes [codec]:
  "le_Uint32 (le_WriteUint32 x) = x" "le_Uint64 (le_WriteUint64 y) = y"
proof -
  have "bit (le_Uint32 (le_WriteUint32 x)) n \<longleftrightarrow> bit x n" if "n < 32" for n
    using bit_byte_at [of 0 x n] that
    by (simp add: le_Uint32_def le_WriteUint32_def bit_byte_at bit_or_iff) arith
  then show "le_Uint32 (le_WriteUint32 x) = x" by (intro bit_word_eqI) simp
  have "bit (le_Uint64 (le_WriteUint64 y)) n \<longleftrightarrow> bit y n" if "n < 64" for n
    using bit_byte_at [of 0 y n] that
    by (simp add: le_Uint64_def le_WriteUint64_def bit_byte_at bit_or_iff) arith
  then show "le_Uint64 (le_WriteUint64 y) = y" by (intro bit_word_eqI) simp
qed

lemma length_le_Write: "length (le_WriteUint32 x) = 4" "length (le_WriteUint64 y) = 8"
  by (simp_all add: le_WriteUint32_def le_WriteUint64_def)

text \<open>The pairs a message with the map \<open>m\<close> carries, in the order of the tags \<open>ts\<close>.\<close>

definition pairs_of :: "(Tag \<times> bytes) list \<Rightarrow> Tag list \<Rightarrow> (Tag \<times> bytes) list" where
  "pairs_of m ts = map (\<lambda>t. (t, case map_of m t of None \<Rightarrow> [] | Some v \<Rightarrow> v)) ts"

lemma update_fresh: "k \<notin> fst ` set xs \<Longrightarrow> AList.update k v xs = xs @ [(k, v)]"
  by (induction xs) auto

lemma parse_pairs_written:
  assumes "distinct (map fst acc @ ts)"
    "\<forall>v \<in> snd ` set (pairs_of m ts). length v \<le> 4000"
    "unat off + length ts * 4000 < 2 ^ 32"
    "write_pairs m off ts = (index, vs)"
  shows "parse_pairs (length ts) off index acc (vs @ r) = Inr (acc @ pairs_of m ts, r)"
  using assms
proof (induction ts arbitrary: off acc index vs)
  case (Cons t ts)
  define v where "v = (case map_of m t of None \<Rightarrow> [] | Some v \<Rightarrow> v)"
  define off' where "off' = off + of_nat (length v)"
  obtain i' vs' where w: "write_pairs m off' ts = (i', vs')" by fastforce
  have v: "length v \<le> 4000" using Cons.prems(2) by (simp add: pairs_of_def v_def)
  then have n: "unat (of_nat (length v) :: u32) = length v" by (simp add: unat_of_nat)
  then have off': "unat off' = unat off + length v"
    using Cons.prems(3) v by (simp add: off'_def unat_word_ariths)
  have "of_nat (length v) \<le> (4000 :: u32)" using v n by (simp add: word_le_nat_alt)
  moreover have "parse_pairs (length ts) off' i' (acc @ [(t, v)]) (vs' @ r) = Inr ((acc @ [(t, v)]) @ pairs_of m ts, r)"
    by (rule Cons.IH) (use Cons.prems off' v w in \<open>auto simp: pairs_of_def\<close>)
  moreover have "index = le_WriteUint32 t @ le_WriteUint32 off' @ i'" "vs = v @ vs'"
    using Cons.prems(4) w by (auto simp: v_def [symmetric] off'_def [symmetric] Let_def)
  ultimately show ?case
    using Cons.prems(1) n
    by (simp add: length_le_Write le_Uint_bytes off'_def [symmetric] CryptoParameterMaxLength_def
        update_fresh pairs_of_def v_def [symmetric] image_iff Let_def)
      (simp add: off'_def)
qed (simp add: pairs_of_def)

definition hm_fits :: "HandshakeMessage \<Rightarrow> bool" where
  "hm_fits h \<longleftrightarrow> distinct (map fst (hm_Data h)) \<and> length (hm_Data h) \<le> 128 \<and>
     list_all (\<lambda>(t, v). length v \<le> 4000) (hm_Data h)"

lemma map_of_pairs_of:
  assumes "set ts = fst ` set m"
  shows "map_of (pairs_of m ts) = map_of m"
proof
  fix k
  have "map_of (map (\<lambda>t. (t, f t)) ts) k = (if k \<in> set ts then Some (f k) else None)" for f :: "Tag \<Rightarrow> bytes"
    by (induction ts) auto
  then show "map_of (pairs_of m ts) k = map_of m k"
    using assms map_of_eq_None_iff [of m k] by (cases "map_of m k") (auto simp: pairs_of_def)
qed

lemma length_index: "write_pairs m off ts = (index, vs) \<Longrightarrow> length index = 8 * length ts"
  by (induction ts arbitrary: off index vs)
    (fastforce simp: Let_def length_le_Write split: prod.splits)+

lemma le_Write_count:
  assumes "n \<le> 128"
  shows "le_WriteUint16 (of_nat n) @ le_WriteUint16 0 = le_WriteUint32 (of_nat n)"
proof -
  have "(of_nat n :: u16) = ucast (of_nat n :: u32)"
    using assms by (simp add: word_unat_eq_iff unsigned_ucast_eq unat_of_nat take_bit_eq_mod)
  moreover have "drop_bit 16 (of_nat n :: u32) = 0" "drop_bit 24 (of_nat n :: u32) = 0"
    using assms by (simp_all add: word_unat_eq_iff drop_bit_eq_div unat_div unat_of_nat)
  moreover have "ucast (drop_bit 8 (ucast x :: u16)) = (ucast (drop_bit 8 x) :: u8)"
    "ucast (ucast x :: u16) = (ucast x :: u8)" for x :: u32
    by (auto intro!: bit_word_eqI simp: bit_simps)
  ultimately show ?thesis
    by (simp add: le_WriteUint16_def le_WriteUint32_def)
qed

lemma ParseHandshakeMessage_Write:
  assumes "hm_fits h"
  shows "ParseHandshakeMessage (hm_Write h @ r) =
    Inr (\<lparr>hm_Tag = hm_Tag h, hm_Data = pairs_of (hm_Data h) (getTagsSorted h)\<rparr>, r)"
proof -
  obtain index vs where w: "write_pairs (hm_Data h) 0 (getTagsSorted h) = (index, vs)" by fastforce
  have n: "length (getTagsSorted h) = length (hm_Data h)" "length (hm_Data h) \<le> 128"
    using assms by (simp_all add: getTagsSorted_def hm_fits_def)
  then have u: "unat (of_nat (length (hm_Data h)) :: u32) = length (hm_Data h)"
    "unat (of_nat (length (hm_Data h)) * 8 :: u32) = length (hm_Data h) * 8"
    by (simp_all add: unat_word_ariths unat_of_nat)
  have v: "\<forall>v \<in> snd ` set (pairs_of (hm_Data h) (getTagsSorted h)). length v \<le> 4000"
    using assms by (auto simp: pairs_of_def hm_fits_def list_all_iff split: option.splits dest: map_of_SomeD)
  have "parse_pairs (length (hm_Data h)) 0 index [] (vs @ r)
      = Inr ([] @ pairs_of (hm_Data h) (getTagsSorted h), r)"
    unfolding n(1) [symmetric]
    by (rule parse_pairs_written [OF _ v _ w])
      (use assms n in \<open>auto simp: getTagsSorted_def hm_fits_def\<close>)
  then show ?thesis
    using w n u length_index [OF w] le_Write_count [OF n(2)]
    by (simp add: hm_Write_def ParseHandshakeMessage_def length_le_Write le_Uint_bytes
        CryptoMaxParams_def word_less_nat_alt flip: append_assoc)
      (simp add: length_le_Write le_Uint_bytes)
qed

lemma le_read_written [codec]:
  "le_ReadUint64 (le_WriteUint64 x @ r) = Inr (x, r)" "le_ReadUint32 (le_WriteUint32 y @ r) = Inr (y, r)"
  "le_ReadUint32 (le_WriteUint32 y) = Inr (y, [])"
  using le_ReadUint_bytes(2) [of y "[]"] by (simp_all add: le_ReadUint_bytes)

text \<open>The payload of a public reset is the handshake message it looks like.\<close>

lemma WritePublicReset_message:
  "WritePublicReset connectionID pn nonce = [0x0a] @ le_WriteUint64 connectionID
     @ hm_Write \<lparr>hm_Tag = TagPRST, hm_Data = [(TagRNON, le_WriteUint64 nonce), (TagRSEQ, le_WriteUint64 pn)]\<rparr>"
proof -
  have "le_WriteUint16 2 @ le_WriteUint16 0 = le_WriteUint32 2" using le_Write_count [of 2] by simp
  then have "le_WriteUint16 2 @ le_WriteUint16 0 @ x = le_WriteUint32 2 @ x" for x
    by (simp flip: append_assoc)
  moreover have "sort [TagRNON, TagRSEQ] = [TagRNON, TagRSEQ]" "TagRNON \<noteq> TagRSEQ"
    by (simp_all add: Tag_defs)
  ultimately show ?thesis
    by (simp add: WritePublicReset_def hm_Write_def getTagsSorted_def length_le_Write Let_def)
qed

subsection \<open>Properties\<close>

text \<open>
  C18: a handshake message with at most 128 parameters of at most 4000 bytes is read back with the same
  tag and the same map, whatever follows it on the crypto stream.
\<close>

theorem handshake_message_roundtrip:
  assumes "hm_fits h"
  shows "\<exists>h'. ParseHandshakeMessage (hm_Write h @ r) = Inr (h', r) \<and> hm_Tag h' = hm_Tag h \<and>
    map_of (hm_Data h') = map_of (hm_Data h)"
  using ParseHandshakeMessage_Write [OF assms, of r] map_of_pairs_of [of "getTagsSorted h" "hm_Data h"]
  by (simp add: getTagsSorted_def)

theorem handshake_message_roundtrip_witness:
  "\<exists>h'. ParseHandshakeMessage (hm_Write \<lparr>hm_Tag = TagPRST,
       hm_Data = [(TagSFCW, [1, 2, 3, 4]), (TagCFCW, []), (TagICSL, [5])]\<rparr> @ [9]) = Inr (h', [9]) \<and>
     map_of (hm_Data h') TagICSL = Some [5]"
  using handshake_message_roundtrip [of "\<lparr>hm_Tag = TagPRST,
       hm_Data = [(TagSFCW, [1, 2, 3, 4]), (TagCFCW, []), (TagICSL, [5])]\<rparr>" "[9]"]
  by (auto simp: hm_fits_def Tag_defs)

text \<open>
  C26: a PUBLIC_RESET is recognised by its public header, and the client reads the rejected packet
  number and the nonce proof that the server wrote.
\<close>

theorem public_reset_roundtrip:
  assumes "connectionID \<noteq> 0"
  shows "\<exists>hdr r. ParsePublicHeader (WritePublicReset connectionID pn nonce) PerspectiveServer v = Inr (hdr, r) \<and>
    ResetFlag hdr \<and> hdr_ConnectionID hdr = connectionID \<and>
    ParsePublicReset r = Inr (\<lparr>RejectedPacketNumber = pn, pr_Nonce = nonce\<rparr>, [])"
proof -
  let ?m = "\<lparr>hm_Tag = TagPRST, hm_Data = [(TagRNON, le_WriteUint64 nonce), (TagRSEQ, le_WriteUint64 pn)]\<rparr>"
  have "ParsePublicHeader (WritePublicReset connectionID pn nonce) PerspectiveServer v
      = Inr (emptyPublicHeader\<lparr>ResetFlag := True, hdr_ConnectionID := connectionID\<rparr>, hm_Write ?m)"
    using assms
    by (simp add: WritePublicReset_message ParsePublicHeader_def parse_path_and_number_def
        Let_def LittleEndian_def codec
        emptyPublicHeader_def hasPacketNumber_def)
  moreover have "ParsePublicReset (hm_Write ?m) = Inr (\<lparr>RejectedPacketNumber = pn, pr_Nonce = nonce\<rparr>, [])"
    using ParseHandshakeMessage_Write [of ?m "[]"]
    by (simp add: ParsePublicReset_def hm_fits_def length_le_Write map_of_pairs_of getTagsSorted_def le_Uint_bytes Tag_defs)
  ultimately show ?thesis by (simp add: emptyPublicHeader_def)
qed

theorem public_reset_roundtrip_witness:
  "\<exists>hdr r. ParsePublicHeader (WritePublicReset 77 5 12) PerspectiveServer 512 = Inr (hdr, r) \<and>
    ParsePublicReset r = Inr (\<lparr>RejectedPacketNumber = 5, pr_Nonce = 12\<rparr>, [])"
  using public_reset_roundtrip [of 77 5 12 512] by auto

end
