(* ===== verification/Conn_Params.thy ===== *)
theory Conn_Params
  imports Handshake
begin

text \<open>
  \<open>internal/handshake/connection_parameters_manager.go\<close>: the parameters of a connection, what is sent
  to the peer in a hello message and how the peer's values are taken over.
\<close>

definition InitialStreamFlowControlWindow :: ByteCount where
  "InitialStreamFlowControlWindow = push_bit 14 1"

definition InitialConnectionFlowControlWindow :: ByteCount where
  "InitialConnectionFlowControlWindow = push_bit 14 1"

definition ReceiveStreamFlowControlWindow :: ByteCount where
  "ReceiveStreamFlowControlWindow = push_bit 20 1 * 160"

definition ReceiveConnectionFlowControlWindow :: ByteCount where
  "ReceiveConnectionFlowControlWindow = push_bit 20 1 * 200"

definition MaxStreamsPerConnection :: u32 where "MaxStreamsPerConnection = 100"

definition MaxIncomingDynamicStreamsPerConnection :: u32 where
  "MaxIncomingDynamicStreamsPerConnection = 100"

definition MaxStreamsMinimumIncrement :: u32 where "MaxStreamsMinimumIncrement = 10"

record connectionParametersManager =
  cpm_version :: VersionNumber
  cpm_perspective :: Perspective
  flowControlNegotiated :: bool
  truncateConnectionID :: bool
  maxStreamsPerConnection :: u32
  maxIncomingDynamicStreamsPerConnection :: u32
  idleConnectionStateLifetime :: Duration
  sendStreamFlowControlWindow :: ByteCount
  sendConnectionFlowControlWindow :: ByteCount
  receiveStreamFlowControlWindow :: ByteCount
  receiveConnectionFlowControlWindow :: ByteCount
  maxReceiveStreamFlowControlWindow :: ByteCount
  maxReceiveConnectionFlowControlWindow :: ByteCount

definition NewConnectionParamatersManager ::
    "Perspective \<Rightarrow> VersionNumber \<Rightarrow> ByteCount \<Rightarrow> ByteCount \<Rightarrow> Duration \<Rightarrow> connectionParametersManager" where
  "NewConnectionParamatersManager pers v maxStream maxConnection idleTimeout =
     \<lparr>cpm_version = v, cpm_perspective = pers, flowControlNegotiated = False, truncateConnectionID = False,
      maxStreamsPerConnection = MaxStreamsPerConnection,
      maxIncomingDynamicStreamsPerConnection = MaxStreamsPerConnection,
      idleConnectionStateLifetime = idleTimeout,
      sendStreamFlowControlWindow = InitialStreamFlowControlWindow,
      sendConnectionFlowControlWindow = InitialConnectionFlowControlWindow,
      receiveStreamFlowControlWindow = ReceiveStreamFlowControlWindow,
      receiveConnectionFlowControlWindow = ReceiveConnectionFlowControlWindow,
      maxReceiveStreamFlowControlWindow = maxStream,
      maxReceiveConnectionFlowControlWindow = maxConnection\<rparr>"

definition negotiateMaxStreamsPerConnection :: "u32 \<Rightarrow> u32" where
  "negotiateMaxStreamsPerConnection clientValue = min clientValue MaxStreamsPerConnection"

definition negotiateMaxIncomingDynamicStreamsPerConnection :: "u32 \<Rightarrow> u32" where
  "negotiateMaxIncomingDynamicStreamsPerConnection clientValue =
     min clientValue MaxIncomingDynamicStreamsPerConnection"

definition negotiateIdleConnectionStateLifetime ::
    "connectionParametersManager \<Rightarrow> Duration \<Rightarrow> Duration" where
  "negotiateIdleConnectionStateLifetime h clientValue = min clientValue (idleConnectionStateLifetime h)"

definition ErrMalformedTag :: error where
  "ErrMalformedTag = QuicError InvalidCryptoMessageParameter"

definition ErrFlowControlRenegotiationNotSupported :: error where
  "ErrFlowControlRenegotiationNotSupported = QuicError InvalidCryptoMessageParameter"

text \<open>
  One \<open>if value, ok := params[tag]; ok { ... }\<close> block. A failing block ends the call and keeps what
  the blocks before it have already stored.
\<close>

definition with_param ::
    "(Tag \<times> bytes) list \<Rightarrow> Tag \<Rightarrow> error option \<Rightarrow> (u32 \<Rightarrow> 's \<Rightarrow> 's) \<Rightarrow> (error option \<times> 's) \<Rightarrow> error option \<times> 's" where
  "with_param params tag guard upd s =
     (case s of
        (Some e, h) \<Rightarrow> (Some e, h)
      | (None, h) \<Rightarrow>
          (case map_of params tag of
             None \<Rightarrow> (None, h)
           | Some v \<Rightarrow>
               (case guard of
                  Some e \<Rightarrow> (Some e, h)
                | None \<Rightarrow>
                    (case le_ReadUint32 v of
                       Inl _ \<Rightarrow> (Some ErrMalformedTag, h)
                     | Inr (x, _) \<Rightarrow> (None, upd x h)))))"

definition SetFromMap ::
    "(Tag \<times> bytes) list \<Rightarrow> connectionParametersManager \<Rightarrow> error option \<times> connectionParametersManager" where
  "SetFromMap params h =
     (let renegotiation = (if flowControlNegotiated h then Some ErrFlowControlRenegotiationNotSupported else None);
          s = (None, h);
          s = (if cpm_perspective h = PerspectiveServer
               then with_param params TagTCID None (\<lambda>x h. h\<lparr>truncateConnectionID := (x = 0)\<rparr>) s else s);
          s = with_param params TagMSPC None
                (\<lambda>x h. h\<lparr>maxStreamsPerConnection := negotiateMaxStreamsPerConnection x\<rparr>) s;
          s = with_param params TagMIDS None
                (\<lambda>x h. h\<lparr>maxIncomingDynamicStreamsPerConnection :=
                          negotiateMaxIncomingDynamicStreamsPerConnection x\<rparr>) s;
          s = with_param params TagICSL None
                (\<lambda>x h. h\<lparr>idleConnectionStateLifetime :=
                          negotiateIdleConnectionStateLifetime h (wrap64 (uint x * Second))\<rparr>) s;
          s = with_param params TagSFCW renegotiation (\<lambda>x h. h\<lparr>sendStreamFlowControlWindow := ucast x\<rparr>) s;
          s = with_param params TagCFCW renegotiation (\<lambda>x h. h\<lparr>sendConnectionFlowControlWindow := ucast x\<rparr>) s
      in case s of
           (Some e, h) \<Rightarrow> (Some e, h)
         | (None, h) \<Rightarrow>
             (None, if map_of params TagCFCW \<noteq> None \<or> map_of params TagSFCW \<noteq> None
                    then h\<lparr>flowControlNegotiated := True\<rparr> else h))"

definition GetHelloMap :: "connectionParametersManager \<Rightarrow> (Tag \<times> bytes) list" where
  "GetHelloMap h =
     [(TagICSL, le_WriteUint32 (word_of_int (go_div (idleConnectionStateLifetime h) Second))),
      (TagMSPC, le_WriteUint32 (maxStreamsPerConnection h)),
      (TagMIDS, le_WriteUint32 MaxIncomingDynamicStreamsPerConnection),
      (TagCFCW, le_WriteUint32 (ucast (receiveConnectionFlowControlWindow h))),
      (TagSFCW, le_WriteUint32 (ucast (receiveStreamFlowControlWindow h)))]"

definition GetMaxOutgoingStreams :: "connectionParametersManager \<Rightarrow> u32" where
  "GetMaxOutgoingStreams h = maxIncomingDynamicStreamsPerConnection h"

text \<open>The float product \<open>float64(maxStreams) * 1.1\<close> is truncated to an integer.\<close>

definition GetMaxIncomingStreams :: "connectionParametersManager \<Rightarrow> u32" where
  "GetMaxIncomingStreams h =
     (let maxStreams = MaxIncomingDynamicStreamsPerConnection
      in max (maxStreams + MaxStreamsMinimumIncrement) (maxStreams * 11 div 10))"

definition cpm_TruncateConnectionID :: "connectionParametersManager \<Rightarrow> bool" where
  "cpm_TruncateConnectionID h =
     (if cpm_perspective h = PerspectiveClient then False else truncateConnectionID h)"

subsection \<open>Negotiation\<close>

lemmas negotiate_defs =
  negotiateMaxStreamsPerConnection_def negotiateMaxIncomingDynamicStreamsPerConnection_def
  negotiateIdleConnectionStateLifetime_def

text \<open>What every successful or failing call keeps, block by block.\<close>

lemma with_param_keeps:
  assumes "I (snd s)" "\<And>x h. I h \<Longrightarrow> I (upd x h)"
  shows "I (snd (with_param params tag guard upd s))"
  using assms by (auto simp: with_param_def split: prod.splits option.splits sum.splits)

lemma with_param_error: "with_param params tag guard upd (Some e, h) = (Some e, h)"
  by (simp add: with_param_def)

lemma with_param_hit:
  "map_of params tag = Some (le_WriteUint32 x) \<Longrightarrow> with_param params tag None upd (None, h) = (None, upd x h)"
  "map_of params tag = None \<Longrightarrow> with_param params tag guard upd (None, h) = (None, h)"
  by (simp_all add: with_param_def codec)

definition cpm_wf :: "Duration \<Rightarrow> connectionParametersManager \<Rightarrow> bool" where
  "cpm_wf idle h \<longleftrightarrow>
     maxStreamsPerConnection h \<le> MaxStreamsPerConnection \<and>
     maxIncomingDynamicStreamsPerConnection h \<le> MaxStreamsPerConnection \<and>
     idleConnectionStateLifetime h \<le> idle"

lemma SetFromMap_keeps:
  assumes "cpm_wf idle h"
  shows "cpm_wf idle (snd (SetFromMap params h))"
proof -
  have "cpm_wf idle (snd s) \<Longrightarrow> cpm_wf idle (snd (case s of (Some e, h) \<Rightarrow> (Some e, h) | (None, h) \<Rightarrow>
      (None, if b then h\<lparr>flowControlNegotiated := True\<rparr> else h)))" for s :: "error option \<times> _" and b
    by (auto simp: cpm_wf_def split: prod.splits option.splits)
  note last = this
  have start: "cpm_wf idle (snd (if b then with_param params t g (\<lambda>x h. h\<lparr>truncateConnectionID := (x = 0)\<rparr>) (None, h)
      else (None, h)))" for b t g
    using assms with_param_keeps [of "cpm_wf idle" "(None, h)"] by (simp add: cpm_wf_def)
  show ?thesis
    unfolding SetFromMap_def Let_def
    by (intro last with_param_keeps [where I = "cpm_wf idle"] start)
      (simp_all add: cpm_wf_def negotiate_defs min_le_iff_disj MaxStreamsPerConnection_def
        MaxIncomingDynamicStreamsPerConnection_def)
qed

lemma with_param_refuses:
  "fst s \<noteq> None \<Longrightarrow> fst (with_param params tag guard upd s) \<noteq> None"
  "map_of params tag \<noteq> None \<Longrightarrow> guard \<noteq> None \<Longrightarrow> fst (with_param params tag guard upd s) \<noteq> None"
  by (auto simp: with_param_def split: prod.splits option.splits)

lemma SetFromMap_fst:
  "fst (case s of (Some e, h) \<Rightarrow> (Some e, h) | (None, h) \<Rightarrow> (None, f h)) = fst s"
  by (auto split: prod.splits option.splits)

lemma with_param_guarded: "snd (with_param params tag (Some e) upd s) = snd s"
  by (auto simp: with_param_def split: prod.splits option.splits)

definition windows :: "connectionParametersManager \<Rightarrow> ByteCount \<times> ByteCount" where
  "windows h = (sendStreamFlowControlWindow h, sendConnectionFlowControlWindow h)"

lemma SetFromMap_windows:
  "windows (snd (case s of (Some e, h) \<Rightarrow> (Some e, h) | (None, h) \<Rightarrow>
     (None, if b then h\<lparr>flowControlNegotiated := True\<rparr> else h))) = windows (snd (s :: error option \<times> _))"
  by (auto simp: windows_def split: prod.splits option.splits)

subsection \<open>Properties\<close>

text \<open>
  C19: whatever the peer sends, in any number of hello messages and even when a message is rejected
  half-way, the negotiated stream limits stay within ours and the idle timeout never grows.
\<close>

theorem negotiated_within_limits:
  "cpm_wf idle (fold (\<lambda>params h. snd (SetFromMap params h)) messages
     (NewConnectionParamatersManager pers v maxStream maxConnection idle))"
proof -
  have "cpm_wf idle h \<Longrightarrow> cpm_wf idle (fold (\<lambda>params h. snd (SetFromMap params h)) messages h)" for h
    by (induction messages arbitrary: h) (simp_all add: SetFromMap_keeps)
  then show ?thesis by (simp add: cpm_wf_def NewConnectionParamatersManager_def)
qed

text \<open>
  C24: flow control windows cannot be renegotiated: once they are set, a message that carries a window
  is rejected and the windows stay as they are.
\<close>

theorem no_window_renegotiation:
  assumes "flowControlNegotiated h"
  shows "(map_of params TagSFCW \<noteq> None \<or> map_of params TagCFCW \<noteq> None \<longrightarrow> fst (SetFromMap params h) \<noteq> None) \<and>
    windows (snd (SetFromMap params h)) = windows h"
proof
  show "map_of params TagSFCW \<noteq> None \<or> map_of params TagCFCW \<noteq> None \<longrightarrow> fst (SetFromMap params h) \<noteq> None"
    unfolding SetFromMap_def Let_def SetFromMap_fst
  proof (intro impI, elim disjE, goal_cases)
    case 1
    then have "fst (with_param params TagSFCW (if flowControlNegotiated h
        then Some ErrFlowControlRenegotiationNotSupported else None) upd s) \<noteq> None" for upd s
      by (elim with_param_refuses(2)) (simp add: assms)
    then show ?case by (rule with_param_refuses(1))
  next
    case 2
    then show ?case by (elim with_param_refuses(2)) (simp add: assms)
  qed
  have start: "windows (snd (if b then with_param params t g (\<lambda>x h. h\<lparr>truncateConnectionID := (x = 0)\<rparr>) (None, h)
      else (None, h))) = windows h" for b t g
    using with_param_keeps [of "\<lambda>h'. windows h' = windows h" "(None, h)"] by (simp add: windows_def)
  show "windows (snd (SetFromMap params h)) = windows h"
    using assms unfolding SetFromMap_def Let_def
    by (simp only: if_True SetFromMap_windows with_param_guarded)
      (intro with_param_keeps [where I = "\<lambda>h'. windows h' = windows h"] start; simp add: windows_def)
qed

theorem no_window_renegotiation_witness:
  "let h = (NewConnectionParamatersManager PerspectiveClient 512 1 2 3)\<lparr>flowControlNegotiated := True\<rparr>
   in fst (SetFromMap [(TagSFCW, [1, 0, 0, 0])] h) \<noteq> None"
  using no_window_renegotiation [of "(NewConnectionParamatersManager PerspectiveClient 512 1 2 3)\<lparr>flowControlNegotiated := True\<rparr>"
      "[(TagSFCW, [1, 0, 0, 0])]"]
  by simp

text \<open>
  C17: the windows an endpoint announces in its hello message are the send windows of the peer that
  receives the message, and both ends agree on stream limit and idle timeout.
\<close>

theorem hello_exchange:
  assumes "\<not> flowControlNegotiated c" "0 \<le> idleConnectionStateLifetime s" "idleConnectionStateLifetime s < 2 ^ 32 * Second"
  shows "\<exists>msg c'. ParseHandshakeMessage (hm_Write \<lparr>hm_Tag = t, hm_Data = GetHelloMap s\<rparr> @ r) = Inr (msg, r) \<and>
    SetFromMap (hm_Data msg) c = (None, c') \<and> flowControlNegotiated c' \<and>
    sendStreamFlowControlWindow c' = take_bit 32 (receiveStreamFlowControlWindow s) \<and>
    sendConnectionFlowControlWindow c' = take_bit 32 (receiveConnectionFlowControlWindow s) \<and>
    maxStreamsPerConnection c' = min (maxStreamsPerConnection s) MaxStreamsPerConnection \<and>
    idleConnectionStateLifetime c' =
      min (idleConnectionStateLifetime s div Second * Second) (idleConnectionStateLifetime c)"
proof -
  let ?h = "\<lparr>hm_Tag = t, hm_Data = GetHelloMap s\<rparr>"
  have d: "distinct (map fst (GetHelloMap s))" by (simp add: GetHelloMap_def Tag_defs)
  then have "hm_fits ?h" by (simp add: hm_fits_def) (simp add: GetHelloMap_def length_le_Write)
  then have P: "ParseHandshakeMessage (hm_Write ?h @ r) =
    Inr (\<lparr>hm_Tag = t, hm_Data = pairs_of (GetHelloMap s) (getTagsSorted ?h)\<rparr>, r)"
    by (simp add: ParseHandshakeMessage_Write)
  define m where "m = pairs_of (GetHelloMap s) (getTagsSorted ?h)"
  have m: "map_of m = map_of (GetHelloMap s)"
    unfolding m_def by (rule map_of_pairs_of) (simp add: getTagsSorted_def)
  have lookup: "map_of m TagTCID = None" "map_of m TagMSPC = Some (le_WriteUint32 (maxStreamsPerConnection s))"
    "map_of m TagMIDS = Some (le_WriteUint32 MaxIncomingDynamicStreamsPerConnection)"
    "map_of m TagICSL = Some (le_WriteUint32 (word_of_int (go_div (idleConnectionStateLifetime s) Second)))"
    "map_of m TagSFCW = Some (le_WriteUint32 (ucast (receiveStreamFlowControlWindow s)))"
    "map_of m TagCFCW = Some (le_WriteUint32 (ucast (receiveConnectionFlowControlWindow s)))"
    by (simp_all add: m GetHelloMap_def Tag_defs)
  have "uint (word_of_int (idleConnectionStateLifetime s div Second) :: u32) = idleConnectionStateLifetime s div Second"
    using assms(2,3) by (simp add: uint_word_of_int Second_def pos_imp_zdiv_nonneg_iff)
  then have idle: "wrap64 (uint (word_of_int (go_div (idleConnectionStateLifetime s) Second) :: u32) * Second)
      = idleConnectionStateLifetime s div Second * Second"
    using assms(2,3) by (simp add: Second_def)
  show ?thesis
    using P assms(1) unfolding m_def [symmetric]
    by (simp add: SetFromMap_def Let_def lookup with_param_hit idle negotiate_defs ucast_take_bit)
qed

theorem hello_exchange_witness:
  "let s = NewConnectionParamatersManager PerspectiveServer 512 1 2 (30 * Second);
       c = NewConnectionParamatersManager PerspectiveClient 512 3 4 (20 * Second)
   in \<exists>msg c'. ParseHandshakeMessage (hm_Write \<lparr>hm_Tag = 7, hm_Data = GetHelloMap s\<rparr> @ []) = Inr (msg, []) \<and>
     SetFromMap (hm_Data msg) c = (None, c') \<and>
     sendStreamFlowControlWindow c' = ReceiveStreamFlowControlWindow \<and> idleConnectionStateLifetime c' = 20 * Second"
proof -
  let ?s = "NewConnectionParamatersManager PerspectiveServer 512 1 2 (30 * Second)"
  let ?c = "NewConnectionParamatersManager PerspectiveClient 512 3 4 (20 * Second)"
  have "\<not> flowControlNegotiated ?c" "0 \<le> idleConnectionStateLifetime ?s"
    "idleConnectionStateLifetime ?s < 2 ^ 32 * Second"
    "take_bit 32 (receiveStreamFlowControlWindow ?s) = ReceiveStreamFlowControlWindow"
    "min (idleConnectionStateLifetime ?s div Second * Second) (idleConnectionStateLifetime ?c) = 20 * Second"
    by (simp_all add: NewConnectionParamatersManager_def Second_def ReceiveStreamFlowControlWindow_def)
  with hello_exchange [of ?c ?s 7 "[]"] show ?thesis unfolding Let_def by metis
qed

end
