(* ===== verification/Crypto_Setup.thy ===== *)
theory Crypto_Setup
  imports Unpacker Conn_Params
begin

text \<open>
  The part of \<open>internal/handshake/crypto_setup_client.go\<close> and \<open>crypto_setup_server.go\<close> that packets go
  through: \<open>Open\<close>, the choice of the sealer and the validation of the server's version list. The keys
  appear as events, in any order; how they are derived is not modelled. The server also waits for
  the SHLO and closes a channel at its first forward-secure packet; only the flag is state here.
\<close>

subsection \<open>Encryption levels in the order of the source\<close>

instantiation EncryptionLevel :: linorder
begin

fun level_rank :: "EncryptionLevel \<Rightarrow> nat" where
  "level_rank EncryptionUnspecified = 0"
| "level_rank EncryptionUnencrypted = 1"
| "level_rank EncryptionSecure = 2"
| "level_rank EncryptionForwardSecure = 3"

definition less_eq_EncryptionLevel :: "EncryptionLevel \<Rightarrow> EncryptionLevel \<Rightarrow> bool" where
  "less_eq_EncryptionLevel a b \<longleftrightarrow> level_rank a \<le> level_rank b"

definition less_EncryptionLevel :: "EncryptionLevel \<Rightarrow> EncryptionLevel \<Rightarrow> bool" where
  "less_EncryptionLevel a b \<longleftrightarrow> level_rank a < level_rank b"

instance
proof
  fix a b :: EncryptionLevel
  show "a \<le> b \<Longrightarrow> b \<le> a \<Longrightarrow> a = b"
    by (cases a; cases b) (simp_all add: less_eq_EncryptionLevel_def)
qed (auto simp: less_eq_EncryptionLevel_def less_EncryptionLevel_def)

end

lemma le_Unencrypted_order: "le_Unencrypted l \<longleftrightarrow> l \<le> EncryptionUnencrypted"
  by (cases l) (simp_all add: le_Unencrypted_def less_eq_EncryptionLevel_def)

subsection \<open>Opening and sealing\<close>

record crypto_setup =
  nullAEAD :: AEAD
  secureAEAD :: "AEAD option"
  forwardSecureAEAD :: "AEAD option"
  receivedForwardSecurePacket :: bool
  receivedSecurePacket :: bool

type_synonym opened = "error + bytes \<times> EncryptionLevel"

definition open_null :: "crypto_setup \<Rightarrow> bytes \<Rightarrow> PacketNumber \<Rightarrow> bytes \<Rightarrow> opened" where
  "open_null h src packetNumber associatedData =
     bindE (Open (nullAEAD h) src packetNumber associatedData) (\<lambda>res. Inr (res, EncryptionUnencrypted))"

definition open_secure ::
    "crypto_setup \<Rightarrow> bytes \<Rightarrow> PacketNumber \<Rightarrow> bytes \<Rightarrow> opened \<times> crypto_setup" where
  "open_secure h src packetNumber associatedData =
     (case secureAEAD h of
        None \<Rightarrow> (open_null h src packetNumber associatedData, h)
      | Some aead \<Rightarrow>
          (case Open aead src packetNumber associatedData of
             Inr res \<Rightarrow> (Inr (res, EncryptionSecure), h\<lparr>receivedSecurePacket := True\<rparr>)
           | Inl err \<Rightarrow>
               if receivedSecurePacket h then (Inl err, h)
               else (open_null h src packetNumber associatedData, h)))"

definition client_Open ::
    "crypto_setup \<Rightarrow> bytes \<Rightarrow> PacketNumber \<Rightarrow> bytes \<Rightarrow> opened \<times> crypto_setup" where
  "client_Open h src packetNumber associatedData =
     (case forwardSecureAEAD h of
        Some aead \<Rightarrow>
          (bindE (Open aead src packetNumber associatedData) (\<lambda>res. Inr (res, EncryptionForwardSecure)), h)
      | None \<Rightarrow> open_secure h src packetNumber associatedData)"

definition server_Open ::
    "crypto_setup \<Rightarrow> bytes \<Rightarrow> PacketNumber \<Rightarrow> bytes \<Rightarrow> opened \<times> crypto_setup" where
  "server_Open h src packetNumber associatedData =
     (case forwardSecureAEAD h of
        Some aead \<Rightarrow>
          (case Open aead src packetNumber associatedData of
             Inr res \<Rightarrow> (Inr (res, EncryptionForwardSecure), h\<lparr>receivedForwardSecurePacket := True\<rparr>)
           | Inl err \<Rightarrow>
               if receivedForwardSecurePacket h then (Inl err, h)
               else open_secure h src packetNumber associatedData)
      | None \<Rightarrow> open_secure h src packetNumber associatedData)"

definition client_GetSealer :: "crypto_setup \<Rightarrow> EncryptionLevel \<times> AEAD" where
  "client_GetSealer h =
     (case forwardSecureAEAD h of
        Some a \<Rightarrow> (EncryptionForwardSecure, a)
      | None \<Rightarrow>
          (case secureAEAD h of
             Some a \<Rightarrow> (EncryptionSecure, a)
           | None \<Rightarrow> (EncryptionUnencrypted, nullAEAD h)))"

definition client_GetSealerForCryptoStream :: "crypto_setup \<Rightarrow> EncryptionLevel \<times> AEAD" where
  "client_GetSealerForCryptoStream h = (EncryptionUnencrypted, nullAEAD h)"

definition server_GetSealer :: "crypto_setup \<Rightarrow> EncryptionLevel \<times> AEAD" where
  "server_GetSealer h =
     (case forwardSecureAEAD h of
        Some a \<Rightarrow> (EncryptionForwardSecure, a)
      | None \<Rightarrow> (EncryptionUnencrypted, nullAEAD h))"

definition server_GetSealerForCryptoStream :: "crypto_setup \<Rightarrow> EncryptionLevel \<times> AEAD" where
  "server_GetSealerForCryptoStream h =
     (case secureAEAD h of
        Some a \<Rightarrow> (EncryptionSecure, a)
      | None \<Rightarrow> (EncryptionUnencrypted, nullAEAD h))"

text \<open>The method has the same body in both files.\<close>

definition GetSealerWithEncryptionLevel :: "crypto_setup \<Rightarrow> EncryptionLevel \<Rightarrow> error + AEAD" where
  "GetSealerWithEncryptionLevel h encLevel =
     (case encLevel of
        EncryptionUnencrypted \<Rightarrow> Inr (nullAEAD h)
      | EncryptionSecure \<Rightarrow> (case secureAEAD h of None \<Rightarrow> Inl ErrNoSecureAEAD | Some a \<Rightarrow> Inr a)
      | EncryptionForwardSecure \<Rightarrow>
          (case forwardSecureAEAD h of None \<Rightarrow> Inl ErrNoForwardSecureAEAD | Some a \<Rightarrow> Inr a)
      | EncryptionUnspecified \<Rightarrow> Inl ErrNoEncryptionLevel)"

text \<open>The loop of \<open>validateVersionList\<close> and its guards.\<close>

fun validate_versions :: "VersionNumber list \<Rightarrow> bytes \<Rightarrow> bool" where
  "validate_versions [] b = True"
| "validate_versions (negotiatedVersion # vs) b =
     (case le_ReadUint32 b of
        Inl _ \<Rightarrow> False
      | Inr (verTag, b) \<Rightarrow>
          let ver = VersionTagToNumber verTag;
              ver = (if IsSupportedVersion SupportedVersions ver then ver else VersionUnsupported)
          in if ver \<noteq> negotiatedVersion then False else validate_versions vs b)"

definition validateVersionList :: "VersionNumber list \<Rightarrow> bytes \<Rightarrow> bool" where
  "validateVersionList negotiatedVersions verTags =
     (if negotiatedVersions = [] then True
      else if length verTags mod 4 \<noteq> 0 \<or> length verTags div 4 \<noteq> length negotiatedVersions then False
      else validate_versions negotiatedVersions verTags)"

subsection \<open>Runs\<close>

text \<open>A run interleaves received packets with keys that become available.\<close>

datatype crypto_event =
    Packet bytes PacketNumber bytes
  | SecureKey AEAD
  | ForwardSecureKey AEAD

type_synonym opener = "crypto_setup \<Rightarrow> bytes \<Rightarrow> PacketNumber \<Rightarrow> bytes \<Rightarrow> opened \<times> crypto_setup"

fun accepted :: "opener \<Rightarrow> crypto_setup \<Rightarrow> crypto_event list \<Rightarrow> EncryptionLevel list" where
  "accepted opn h [] = []"
| "accepted opn h (Packet src pn ad # es) =
     (case opn h src pn ad of
        (Inr (_, lvl), h) \<Rightarrow> lvl # accepted opn h es
      | (Inl _, h) \<Rightarrow> accepted opn h es)"
| "accepted opn h (SecureKey a # es) = accepted opn (h\<lparr>secureAEAD := Some a\<rparr>) es"
| "accepted opn h (ForwardSecureKey a # es) = accepted opn (h\<lparr>forwardSecureAEAD := Some a\<rparr>) es"

text \<open>
  What the side promises of its \<open>Open\<close>: \<open>floor\<close> is the lowest level it still accepts; it only rises,
  also when keys appear, and an accepted packet raises it to its own level.
\<close>

locale monotone_opener =
  fixes opn :: opener and lowest :: "crypto_setup \<Rightarrow> EncryptionLevel"
  assumes accepts: "opn h src pn ad = (Inr (dat, lvl), h') \<Longrightarrow> lowest h \<le> lvl \<and> lvl \<le> lowest h'"
    and rejects: "opn h src pn ad = (Inl e, h') \<Longrightarrow> lowest h \<le> lowest h'"
    and key_installed: "lowest h \<le> lowest (h\<lparr>secureAEAD := Some a\<rparr>)"
      "lowest h \<le> lowest (h\<lparr>forwardSecureAEAD := Some a\<rparr>)"
begin

lemma accepted_above_lowest: "lvl \<in> set (accepted opn h es) \<Longrightarrow> lowest h \<le> lvl"
proof (induction es arbitrary: h)
  case (Cons e es)
  show ?case
  proof (cases e)
    case (Packet src pn ad)
    obtain r h' where o: "opn h src pn ad = (r, h')" by fastforce
    show ?thesis
    proof (cases r)
      case (Inl err)
      with Cons Packet o rejects [of h src pn ad err h'] show ?thesis by force
    next
      case (Inr x)
      with o accepts [of h src pn ad "fst x" "snd x" h']
      have "lowest h \<le> snd x \<and> snd x \<le> lowest h'" by simp
      with Cons Packet o Inr show ?thesis by (cases x) force
    qed
  next
    case (SecureKey a)
    with Cons key_installed(1) [of h a] show ?thesis by force
  next
    case (ForwardSecureKey a)
    with Cons key_installed(2) [of h a] show ?thesis by force
  qed
qed simp

lemma accepted_sorted: "sorted (accepted opn h es)"
proof (induction es arbitrary: h)
  case (Cons e es)
  show ?case
  proof (cases e)
    case (Packet src pn ad)
    obtain r h' where o: "opn h src pn ad = (r, h')" by fastforce
    have "snd x \<le> lvl" if "r = Inr x" "lvl \<in> set (accepted opn h' es)" for x lvl
      using accepts [of h src pn ad "fst x" "snd x" h'] o that accepted_above_lowest [of lvl h' es] by force
    then show ?thesis using Cons Packet o by (auto split: sum.split)
  qed (use Cons in auto)
qed simp

end

definition client_lowest :: "crypto_setup \<Rightarrow> EncryptionLevel" where
  "client_lowest h =
     (if forwardSecureAEAD h \<noteq> None then EncryptionForwardSecure
      else if receivedSecurePacket h \<and> secureAEAD h \<noteq> None then EncryptionSecure
      else EncryptionUnencrypted)"

definition server_lowest :: "crypto_setup \<Rightarrow> EncryptionLevel" where
  "server_lowest h =
     (if receivedForwardSecurePacket h \<and> forwardSecureAEAD h \<noteq> None then EncryptionForwardSecure
      else if receivedSecurePacket h \<and> secureAEAD h \<noteq> None then EncryptionSecure
      else EncryptionUnencrypted)"

lemmas open_defs = open_null_def open_secure_def client_Open_def server_Open_def
  client_lowest_def server_lowest_def less_eq_EncryptionLevel_def

interpretation client_side: monotone_opener client_Open client_lowest
  by unfold_locales
    (auto simp: open_defs bindE_eq_Inr bindE_eq_Inl split: option.splits sum.splits if_splits)

interpretation server_side: monotone_opener server_Open server_lowest
  by unfold_locales
    (auto simp: open_defs bindE_eq_Inr bindE_eq_Inl split: option.splits sum.splits if_splits)

subsection \<open>Properties\<close>

text \<open>
  C10: no downgrade: the encryption levels of the packets an endpoint accepts never decrease, in any
  interleaving of packets (of the peer or of an attacker) with keys that become available.
\<close>

theorem no_encryption_downgrade:
  "sorted (accepted client_Open h es) \<and> sorted (accepted server_Open h es)"
  using client_side.accepted_sorted server_side.accepted_sorted by blast



end
