(* ===== verification/Received_History.thy ===== *)
theory Received_History
  imports Ack_Codec
begin

text \<open>
  \<open>ackhandler/received_packet_history.go\<close>: which packet numbers have been received, as a list of
  intervals. The doubly linked list of the source is the list of its values from \<open>Front\<close> to
  \<open>Back\<close>; a loop from \<open>Back\<close> to \<open>Front\<close> is a recursion on the reversed list.
\<close>

record PacketInterval =
  pi_Start :: PacketNumber
  pi_End :: PacketNumber

record receivedPacketHistory =
  ranges :: "PacketInterval list"
  lowestInReceivedPacketNumbers :: PacketNumber

definition newReceivedPacketHistory :: receivedPacketHistory where
  "newReceivedPacketHistory = \<lparr>ranges = [], lowestInReceivedPacketNumbers = 0\<rparr>"

definition MaxTrackedReceivedAckRanges :: nat where
  "MaxTrackedReceivedAckRanges = 2500"

definition TooManyOutstandingReceivedPackets :: u32 where
  "TooManyOutstandingReceivedPackets = 69"

text \<open>The merge of an extended range \<open>el\<close> with the one before it, the head of the rest.\<close>

fun merge_prev :: "PacketInterval \<Rightarrow> PacketInterval list \<Rightarrow> PacketInterval list" where
  "merge_prev el [] = [el]"
| "merge_prev el (prev # rest) =
     (if pi_End prev + 1 = pi_Start el then prev\<lparr>pi_End := pi_End el\<rparr> # rest else el # prev # rest)"

text \<open>The loop of \<open>ReceivedPacket\<close> from the back to the front.\<close>

fun receive_loop :: "PacketNumber \<Rightarrow> PacketInterval list \<Rightarrow> PacketInterval list" where
  "receive_loop p [] = [\<lparr>pi_Start = p, pi_End = p\<rparr>]"
| "receive_loop p (el # rest) =
     (if p \<ge> pi_Start el \<and> p \<le> pi_End el then el # rest
      else if pi_End el = p - 1 then merge_prev (el\<lparr>pi_End := p\<rparr>) rest
      else if pi_Start el = p + 1 then merge_prev (el\<lparr>pi_Start := p\<rparr>) rest
      else if p > pi_End el then \<lparr>pi_Start = p, pi_End = p\<rparr> # el # rest
      else el # receive_loop p rest)"

definition rph_ReceivedPacket ::
    "PacketNumber \<Rightarrow> receivedPacketHistory \<Rightarrow> error option \<times> receivedPacketHistory" where
  "rph_ReceivedPacket p h =
     (if length (ranges h) \<ge> MaxTrackedReceivedAckRanges
      then (Some (QuicError TooManyOutstandingReceivedPackets), h)
      else if length (ranges h) = 0 then (None, h\<lparr>ranges := ranges h @ [\<lparr>pi_Start = p, pi_End = p\<rparr>]\<rparr>)
      else (None, h\<lparr>ranges := rev (receive_loop p (rev (ranges h)))\<rparr>))"

text \<open>The loop of \<open>DeleteUpTo\<close> from the front to the back.\<close>

fun delete_loop :: "PacketNumber \<Rightarrow> PacketInterval list \<Rightarrow> PacketInterval list" where
  "delete_loop p [] = []"
| "delete_loop p (el # rest) =
     (if p \<ge> pi_Start el \<and> p < pi_End el then el\<lparr>pi_Start := p + 1\<rparr> # delete_loop p rest
      else if pi_End el \<le> p then delete_loop p rest
      else el # rest)"

definition DeleteUpTo :: "PacketNumber \<Rightarrow> receivedPacketHistory \<Rightarrow> receivedPacketHistory" where
  "DeleteUpTo p h =
     h\<lparr>lowestInReceivedPacketNumbers := max (lowestInReceivedPacketNumbers h) (p + 1),
       ranges := delete_loop p (ranges h)\<rparr>"

definition GetAckRanges :: "receivedPacketHistory \<Rightarrow> AckRange list" where
  "GetAckRanges h = map (\<lambda>el. \<lparr>First = pi_Start el, Last = pi_End el\<rparr>) (rev (ranges h))"

definition GetHighestAckRange :: "receivedPacketHistory \<Rightarrow> AckRange" where
  "GetHighestAckRange h =
     (if length (ranges h) > 0
      then \<lparr>First = pi_Start (last (ranges h)), Last = pi_End (last (ranges h))\<rparr>
      else \<lparr>First = 0, Last = 0\<rparr>)"

subsection \<open>Set semantics\<close>

definition interval_set :: "PacketInterval \<Rightarrow> PacketNumber set" where
  "interval_set i = {pi_Start i..pi_End i}"

definition ranges_set :: "PacketInterval list \<Rightarrow> PacketNumber set" where
  "ranges_set is = (\<Union>i\<in>set is. interval_set i)"

text \<open>From the back to the front: proper intervals with at least one number between neighbours.\<close>

fun descending :: "PacketInterval list \<Rightarrow> bool" where
  "descending [] \<longleftrightarrow> True"
| "descending [i] \<longleftrightarrow> 0 < pi_Start i \<and> pi_Start i \<le> pi_End i"
| "descending (i # j # is) \<longleftrightarrow>
     pi_Start i \<le> pi_End i \<and> unat (pi_End j) + 1 < unat (pi_Start i) \<and> descending (j # is)"

definition rph_inv :: "receivedPacketHistory \<Rightarrow> bool" where
  "rph_inv h \<longleftrightarrow> descending (rev (ranges h))"

lemma descending_Cons:
  "descending (i # is) \<longleftrightarrow> 0 < pi_Start i \<and> pi_Start i \<le> pi_End i \<and> descending is \<and>
     (case is of [] \<Rightarrow> True | j # _ \<Rightarrow> unat (pi_End j) + 1 < unat (pi_Start i))"
  by (cases "is") (auto simp: word_less_nat_alt)

lemma descending_upper:
  "descending (i # is) \<Longrightarrow> j \<in> set is \<Longrightarrow> unat (pi_End j) + 1 < unat (pi_Start i)"
  by (induction "is" arbitrary: i) (fastforce simp: descending_Cons word_le_nat_alt)+

lemma ranges_set_simps [simp]:
  "ranges_set [] = {}" "ranges_set (i # is) = interval_set i \<union> ranges_set is"
  "ranges_set (is @ js) = ranges_set is \<union> ranges_set js" "ranges_set (rev is) = ranges_set is"
  by (auto simp: ranges_set_def)

lemma unat_succ_u64: "p < q \<Longrightarrow> unat (p + 1) = unat (p::u64) + 1"
  by unat_arith

lemma eq_pred_iff: "0 < p \<Longrightarrow> e = p - 1 \<longleftrightarrow> unat (p::u64) = unat e + 1"
  using unat_minus_one [of p] by (auto simp: word_unat_eq_iff word_less_nat_alt)

lemma eq_succ_iff: "0 < s \<Longrightarrow> s = p + 1 \<longleftrightarrow> unat (s::u64) = unat p + 1"
  by unat_arith

lemma interval_set_nat: "p \<in> interval_set i \<longleftrightarrow> unat (pi_Start i) \<le> unat p \<and> unat p \<le> unat (pi_End i)"
  by (simp add: interval_set_def word_le_nat_alt)

lemma interval_set_extend:
  "0 < p \<Longrightarrow> pi_Start el \<le> pi_End el \<Longrightarrow> unat p = unat (pi_End el) + 1 \<Longrightarrow>
     interval_set (el\<lparr>pi_End := p\<rparr>) = insert p (interval_set el)"
  "pi_Start el \<le> pi_End el \<Longrightarrow> unat (pi_Start el) = unat p + 1 \<Longrightarrow>
     interval_set (el\<lparr>pi_Start := p\<rparr>) = insert p (interval_set el)"
  by (auto simp: set_eq_iff interval_set_nat word_le_nat_alt word_unat_eq_iff)

lemma descending_snoc:
  "descending (is @ [i]) \<longleftrightarrow> descending is \<and> 0 < pi_Start i \<and> pi_Start i \<le> pi_End i \<and>
     (\<forall>j\<in>set is. unat (pi_End i) + 1 < unat (pi_Start j))"
proof (induction "is" rule: descending.induct)
  case (3 i' j js)
  have "descending (j # js) \<Longrightarrow> unat (pi_Start j) \<le> unat (pi_End j)" by (simp add: descending_Cons word_le_nat_alt)
  with 3 show ?case by (auto simp: word_le_nat_alt)
qed (auto simp: word_less_nat_alt)

lemma merge_prev_correct:
  assumes "descending rest" "0 < pi_Start el" "pi_Start el \<le> pi_End el"
    "\<And>j. j \<in> set rest \<Longrightarrow> unat (pi_End j) < unat (pi_Start el)"
  shows "descending (merge_prev el rest)" "ranges_set (merge_prev el rest) = interval_set el \<union> ranges_set rest"
    "pi_End (hd (merge_prev el rest)) = pi_End el"
proof -
  show "descending (merge_prev el rest)"
  proof (cases rest)
    case (Cons prev rest')
    then have lt: "unat (pi_End prev) < unat (pi_Start el)" using assms(4) by simp
    have prev: "0 < pi_Start prev" "pi_Start prev \<le> pi_End prev" "descending (prev # rest')"
      using assms(1) Cons by (simp_all add: descending_Cons)
    show ?thesis
    proof (cases "pi_End prev + 1 = pi_Start el")
      case True
      then have "pi_Start prev \<le> pi_End el" using lt prev(2) assms(3) by (simp add: word_le_nat_alt)
      then have "descending (prev\<lparr>pi_End := pi_End el\<rparr> # rest')"
        using prev(3) by (cases rest') (simp_all add: descending_Cons)
      then show ?thesis using True Cons by simp
    next
      case False
      then have "unat (pi_End prev) + 1 < unat (pi_Start el)"
        using lt eq_succ_iff [OF assms(2), of "pi_End prev"] by simp
      then show ?thesis using False Cons prev(3) assms(3) by simp
    qed
  qed (use assms in simp)
  show "ranges_set (merge_prev el rest) = interval_set el \<union> ranges_set rest"
  proof (cases rest)
    case (Cons prev rest')
    then have "unat (pi_End prev) < unat (pi_Start el)" using assms(4) by simp
    moreover have "pi_Start prev \<le> pi_End prev" using assms(1) Cons by (simp add: descending_Cons)
    ultimately have "pi_End prev + 1 = pi_Start el \<Longrightarrow>
        interval_set (prev\<lparr>pi_End := pi_End el\<rparr>) = interval_set el \<union> interval_set prev"
      using assms(2,3) eq_succ_iff [of "pi_Start el" "pi_End prev"]
      by (auto simp: set_eq_iff interval_set_nat word_le_nat_alt)
    then show ?thesis using Cons by auto
  qed simp
  show "pi_End (hd (merge_prev el rest)) = pi_End el" by (cases rest) auto
qed

lemma receive_loop_correct:
  assumes "descending rs" "0 < p"
  shows "descending (receive_loop p rs) \<and> ranges_set (receive_loop p rs) = insert p (ranges_set rs) \<and>
    (rs \<noteq> [] \<longrightarrow> pi_End (hd (receive_loop p rs)) = max p (pi_End (hd rs)))"
  using assms(1)
proof (induction rs)
  case Nil
  then show ?case using assms(2) by (auto simp: interval_set_def)
next
  case (Cons el rest)
  have el: "0 < pi_Start el" "pi_Start el \<le> pi_End el" "descending rest" using Cons.prems by (simp_all add: descending_Cons)
  have up: "j \<in> set rest \<Longrightarrow> unat (pi_End j) + 1 < unat (pi_Start el)" for j
    using descending_upper Cons.prems by blast
  consider (inside) "p \<ge> pi_Start el \<and> p \<le> pi_End el"
    | (at_end) "unat p = unat (pi_End el) + 1"
    | (at_start) "unat (pi_Start el) = unat p + 1"
    | (above) "unat p > unat (pi_End el) + 1"
    | (below) "unat p + 1 < unat (pi_Start el)"
    by (auto simp: word_le_nat_alt) linarith
  then show ?case
  proof cases
    case inside
    then show ?thesis using Cons.prems by (auto simp: interval_set_def max_def)
  next
    case at_end
    let ?el = "el\<lparr>pi_End := p\<rparr>"
    have "receive_loop p (el # rest) = merge_prev ?el rest"
      using at_end eq_pred_iff [OF assms(2)] by (auto simp: word_le_nat_alt)
    moreover note merge_prev_correct [of rest ?el] interval_set_extend(1) [OF assms(2) el(2) at_end]
    ultimately show ?thesis using el at_end up
      by (fastforce simp: word_le_nat_alt max_def)
  next
    case at_start
    let ?el = "el\<lparr>pi_Start := p\<rparr>"
    have "receive_loop p (el # rest) = merge_prev ?el rest"
      using at_start eq_pred_iff [OF assms(2)] eq_succ_iff [OF el(1)] el(2) by (auto simp: word_le_nat_alt)
    moreover note merge_prev_correct [of rest ?el] interval_set_extend(2) [OF el(2) at_start]
    ultimately show ?thesis using el at_start up assms(2)
      by (fastforce simp: word_le_nat_alt max_def)
  next
    case above
    have "receive_loop p (el # rest) = \<lparr>pi_Start = p, pi_End = p\<rparr> # el # rest"
      using above eq_pred_iff [OF assms(2), of "pi_End el"] eq_succ_iff [OF el(1), of p] el(2)
      by (auto simp: word_le_nat_alt word_less_nat_alt)
    then show ?thesis using Cons.prems above by (auto simp: interval_set_def max_def word_le_nat_alt)
  next
    case below
    have l: "receive_loop p (el # rest) = el # receive_loop p rest"
      using below eq_pred_iff [OF assms(2), of "pi_End el"] eq_succ_iff [OF el(1), of p] el(2)
      by (auto simp: word_le_nat_alt word_less_nat_alt)
    have "descending (el # receive_loop p rest)"
    proof (cases rest)
      case Nil
      then show ?thesis using below Cons.prems assms(2) by (simp add: word_less_nat_alt)
    next
      case (Cons j js)
      then have "pi_End (hd (receive_loop p rest)) = max p (pi_End j)" using Cons.IH el(3) by simp
      moreover have "receive_loop p rest \<noteq> []" using Cons.IH el(3) by auto
      ultimately show ?thesis
        using Cons.IH el up [of j] below Cons
        by (cases "receive_loop p rest") (auto simp: descending_Cons max_def)
    qed
    moreover have "max p (pi_End el) = pi_End el" using below el(2) by (simp add: max_def word_le_nat_alt)
    ultimately show ?thesis using Cons.IH el(3) unfolding l by auto
  qed
qed

lemma delete_loop_correct:
  assumes "descending (rev rs)"
  shows "descending (rev (delete_loop p rs)) \<and> ranges_set (delete_loop p rs) = ranges_set rs - {..p}"
  using assms
proof (induction rs)
  case (Cons el rest)
  have d: "descending (rev rest)" "0 < pi_Start el" "pi_Start el \<le> pi_End el"
    and low: "\<And>j. j \<in> set rest \<Longrightarrow> unat (pi_End el) + 1 < unat (pi_Start j)"
    using Cons.prems descending_snoc [of "rev rest" el] by auto
  have above: "ranges_set rest \<inter> {..pi_End el} = {}"
    using low by (fastforce simp: ranges_set_def interval_set_nat word_le_nat_alt)
  consider (cut) "pi_Start el \<le> p" "p < pi_End el" | (all) "pi_End el \<le> p" | (none) "p < pi_Start el"
    using d(3) by (meson not_le)
  then show ?case
  proof cases
    case cut
    have s: "unat (p + 1) = unat p + 1"
      using cut(2) by (rule unat_succ_u64)
    have keep: "ranges_set rest - {..p} = ranges_set rest" using above cut(2) by fastforce
    have "interval_set (el\<lparr>pi_Start := p + 1\<rparr>) = interval_set el - {..p}"
      using cut s by (auto simp: set_eq_iff interval_set_nat word_le_nat_alt word_less_nat_alt)
    moreover have r: "delete_loop p rest = rest"
    proof (cases rest)
      case (Cons a as)
      then have "pi_Start a \<le> pi_End a" "unat (pi_End el) + 1 < unat (pi_Start a)"
        using d(1) low by (simp_all add: descending_snoc)
      then show ?thesis using cut(2) Cons by (auto simp: word_le_nat_alt word_less_nat_alt)
    qed simp
    moreover have "descending (rev (el\<lparr>pi_Start := p + 1\<rparr> # rest))"
      using d low cut s by (simp add: descending_snoc word_le_nat_alt word_less_nat_alt)
    ultimately show ?thesis using cut keep by auto
  next
    case all
    then have "interval_set el - {..p} = {}" by (auto simp: interval_set_def)
    then show ?thesis using all Cons.IH [OF d(1)] by auto
  next
    case none
    have "ranges_set (el # rest) \<inter> {..p} = {}"
      using none above d(3) by (fastforce simp: interval_set_def)
    then have "ranges_set (el # rest) - {..p} = ranges_set (el # rest)" by blast
    moreover have "delete_loop p (el # rest) = el # rest"
      using none d(3) by (auto simp: word_le_nat_alt word_less_nat_alt)
    ultimately show ?thesis using Cons.prems by (simp only:)
  qed
qed simp

subsection \<open>The contract of the history\<close>

datatype history_event = Received PacketNumber | UpTo PacketNumber

text \<open>The abstract history is a set of packet numbers.\<close>

fun spec_event :: "history_event \<Rightarrow> PacketNumber set \<Rightarrow> PacketNumber set" where
  "spec_event (Received p) S = insert p S"
| "spec_event (UpTo p) S = S - {..p}"

text \<open>A sequence of operations on a history, up to the first error.\<close>

fun run_history ::
    "(PacketNumber \<Rightarrow> 'h \<Rightarrow> error option \<times> 'h) \<Rightarrow> (PacketNumber \<Rightarrow> 'h \<Rightarrow> 'h) \<Rightarrow> history_event list \<Rightarrow> 'h
     \<Rightarrow> error + 'h" where
  "run_history rec del [] h = Inr h"
| "run_history rec del (Received p # es) h =
     (case rec p h of (Some e, _) \<Rightarrow> Inl e | (None, h) \<Rightarrow> run_history rec del es h)"
| "run_history rec del (UpTo p # es) h = run_history rec del es (del p h)"

locale packet_history =
  fixes empty :: 'h
    and receive :: "PacketNumber \<Rightarrow> 'h \<Rightarrow> error option \<times> 'h"
    and delete_up_to :: "PacketNumber \<Rightarrow> 'h \<Rightarrow> 'h"
    and acked :: "'h \<Rightarrow> PacketNumber set"
    and inv :: "'h \<Rightarrow> bool"
  assumes empty: "inv empty" "acked empty = {}"
    and receive: "inv h \<Longrightarrow> 0 < p \<Longrightarrow> receive p h = (None, h') \<Longrightarrow> inv h' \<and> acked h' = insert p (acked h)"
    and receive_error: "receive p h = (Some e, h') \<Longrightarrow> h' = h"
    and delete_up_to: "inv h \<Longrightarrow> inv (delete_up_to p h) \<and> acked (delete_up_to p h) = acked h - {..p}"
begin

lemma receive_inv: "inv h \<Longrightarrow> 0 < p \<Longrightarrow> inv (snd (receive p h))"
  using receive [of h p "snd (receive p h)"] receive_error [of p h _ "snd (receive p h)"]
  by (cases "receive p h"; cases "fst (receive p h)") auto

lemma events_refine:
  assumes "inv h" "Received 0 \<notin> set es" "run_history receive delete_up_to es h = Inr h'"
  shows "inv h' \<and> acked h' = fold spec_event es (acked h)"
  using assms
proof (induction es arbitrary: h)
  case (Cons e es)
  show ?case
  proof (cases e)
    case (Received p)
    with Cons.prems obtain h1 where h1: "receive p h = (None, h1)" "run_history receive delete_up_to es h1 = Inr h'"
      by (auto split: prod.splits option.splits)
    have "0 < p" using Cons.prems(2) Received by (auto simp: word_neq_0_conv [symmetric])
    then have "inv h1 \<and> acked h1 = insert p (acked h)" using receive Cons.prems(1) h1(1) by blast
    then show ?thesis using Cons.IH [OF _ _ h1(2)] Cons.prems(2) Received by simp
  next
    case (UpTo p)
    then show ?thesis using Cons.IH [of "delete_up_to p h"] Cons.prems delete_up_to [of h p] by simp
  qed
qed simp

end

definition rph_set :: "receivedPacketHistory \<Rightarrow> PacketNumber set" where
  "rph_set h = ranges_set (ranges h)"

interpretation rph: packet_history newReceivedPacketHistory rph_ReceivedPacket DeleteUpTo rph_set rph_inv
proof
  fix h h' p
  assume h: "rph_inv h" and p: "0 < p" and r: "rph_ReceivedPacket p h = (None, h')"
  show "rph_inv h' \<and> rph_set h' = insert p (rph_set h)"
  proof (cases "ranges h = []")
    case True
    then show ?thesis using r p
      by (auto simp: rph_ReceivedPacket_def rph_inv_def rph_set_def interval_set_def split: if_splits)
  next
    case False
    then have "h' = h\<lparr>ranges := rev (receive_loop p (rev (ranges h)))\<rparr>"
      using r by (simp add: rph_ReceivedPacket_def split: if_splits)
    then show ?thesis using receive_loop_correct [of "rev (ranges h)" p] h p
      by (simp add: rph_inv_def rph_set_def)
  qed
next
  fix h p assume "rph_inv h"
  then show "rph_inv (DeleteUpTo p h) \<and> rph_set (DeleteUpTo p h) = rph_set h - {..p}"
    using delete_loop_correct [of "ranges h" p] by (simp add: rph_inv_def rph_set_def DeleteUpTo_def)
qed (simp_all add: newReceivedPacketHistory_def rph_inv_def rph_set_def rph_ReceivedPacket_def split: if_splits)

subsection \<open>Properties\<close>

text \<open>
  C2: the interval list implements a set of packet numbers: after any sequence of \<open>ReceivedPacket\<close> and
  \<open>DeleteUpTo\<close> without an error, the list is sorted, its intervals are proper, disjoint and not adjacent,
  and the set they cover is the one of the abstract history.
\<close>

theorem history_refines_set:
  assumes "Received 0 \<notin> set es"
    "run_history rph_ReceivedPacket DeleteUpTo es newReceivedPacketHistory = Inr h"
  shows "descending (rev (ranges h)) \<and> ranges_set (ranges h) = fold spec_event es {}"
  using rph.events_refine [OF rph.empty(1) assms] rph.empty(2) by (simp add: rph_inv_def rph_set_def)

theorem history_refines_set_witness:
  "\<exists>h. run_history rph_ReceivedPacket DeleteUpTo [Received 4, Received 6, Received 5, UpTo 4]
      newReceivedPacketHistory = Inr h \<and> ranges_set (ranges h) = {5, 6}"
proof -
  have "run_history rph_ReceivedPacket DeleteUpTo [Received 4, Received 6, Received 5, UpTo 4]
      newReceivedPacketHistory = Inr \<lparr>ranges = [\<lparr>pi_Start = 5, pi_End = 6\<rparr>], lowestInReceivedPacketNumbers = 5\<rparr>"
    by code_simp
  moreover from history_refines_set [OF _ this]
  have "ranges_set [\<lparr>pi_Start = 5, pi_End = 6\<rparr>] = fold spec_event [Received 4, Received 6, Received 5, UpTo 4] {}"
    by simp
  moreover have "fold spec_event [Received 4, Received 6, Received 5, UpTo 4] {} = {5, 6}"
    by (simp add: insert_Diff_if insert_commute)
  ultimately show ?thesis by (simp only:) simp
qed

end
