(* ===== verification/Received_Handler.thy ===== *)
theory Received_Handler
  imports Received_History
begin

text \<open>
  \<open>ackhandler/received_packet_handler.go\<close>: when an ACK is sent and what it reports. \<open>time.Now()\<close> is an
  argument. The throughput estimates of \<open>GetStatisticstp\<close> (floating point, only reported) are left out.
\<close>

record receivedPacketHandler =
  largestObserved :: PacketNumber
  lowerLimit :: PacketNumber
  largestObservedReceivedTime :: "Time option"
  packetHistory :: receivedPacketHistory
  ackSendDelay :: Duration
  packetsReceivedSinceLastAck :: int
  retransmittablePacketsReceivedSinceLastAck :: int
  ackQueued :: bool
  ackAlarm :: "Time option"
  lastAck :: "AckFrame option"
  rcv_version :: VersionNumber
  rcv_packets :: u64

definition AckSendDelay :: Duration where "AckSendDelay = 25 * Millisecond"

definition MaxPacketsReceivedBeforeAckSend :: int where "MaxPacketsReceivedBeforeAckSend = 20"

definition RetransmittablePacketsBeforeAck :: int where "RetransmittablePacketsBeforeAck = 2"

definition NewReceivedPacketHandler :: "VersionNumber \<Rightarrow> receivedPacketHandler" where
  "NewReceivedPacketHandler version =
     \<lparr>largestObserved = 0, lowerLimit = 0, largestObservedReceivedTime = None,
      packetHistory = newReceivedPacketHistory, ackSendDelay = AckSendDelay,
      packetsReceivedSinceLastAck = 0, retransmittablePacketsReceivedSinceLastAck = 0,
      ackQueued = False, ackAlarm = None, lastAck = None, rcv_version = version, rcv_packets = 0\<rparr>"

text \<open>\<open>if c { h.ackQueued = true }\<close>\<close>

definition queue_if :: "bool \<Rightarrow> receivedPacketHandler \<Rightarrow> receivedPacketHandler" where
  "queue_if c h = (if c then h\<lparr>ackQueued := True\<rparr> else h)"

definition lastAck_satisfies :: "(AckFrame \<Rightarrow> bool) \<Rightarrow> receivedPacketHandler \<Rightarrow> bool" where
  "lastAck_satisfies P h = (case lastAck h of None \<Rightarrow> False | Some a \<Rightarrow> P a)"

definition maybeQueueAck ::
    "Time \<Rightarrow> PacketNumber \<Rightarrow> bool \<Rightarrow> receivedPacketHandler \<Rightarrow> receivedPacketHandler" where
  "maybeQueueAck now packetNumber shouldInstigateAck h =
     (let h = h\<lparr>packetsReceivedSinceLastAck := packetsReceivedSinceLastAck h + 1\<rparr>;
          h = h\<lparr>retransmittablePacketsReceivedSinceLastAck :=
                  retransmittablePacketsReceivedSinceLastAck h + (if shouldInstigateAck then 1 else 0)\<rparr>;
          h = queue_if (lastAck h = None) h;
          h = queue_if (rcv_version h < Version39
                        \<and> packetsReceivedSinceLastAck h \<ge> MaxPacketsReceivedBeforeAckSend) h;
          h = queue_if (lastAck_satisfies (\<lambda>a. packetNumber < ack_LargestAcked a) h) h;
          h = queue_if (lastAck_satisfies (\<lambda>a.
                First (GetHighestAckRange (packetHistory h)) > ack_LargestAcked a) h) h;
          h = (if \<not> ackQueued h \<and> shouldInstigateAck then
                 if retransmittablePacketsReceivedSinceLastAck h \<ge> RetransmittablePacketsBeforeAck
                 then h\<lparr>ackQueued := True\<rparr>
                 else if ackAlarm h = None then h\<lparr>ackAlarm := Some (now + ackSendDelay h)\<rparr> else h
               else h)
      in if ackQueued h then h\<lparr>ackAlarm := None\<rparr> else h)"

definition rcv_ReceivedPacket ::
    "Time \<Rightarrow> PacketNumber \<Rightarrow> bool \<Rightarrow> receivedPacketHandler \<Rightarrow> error option \<times> receivedPacketHandler" where
  "rcv_ReceivedPacket now packetNumber shouldInstigateAck h =
     (if packetNumber = 0 then (Some ErrInvalidPacketNumber, h)
      else
        let h = h\<lparr>rcv_packets := rcv_packets h + 1\<rparr>;
            h = (if packetNumber > largestObserved h
                 then h\<lparr>largestObserved := packetNumber, largestObservedReceivedTime := Some now\<rparr> else h)
        in if packetNumber \<le> lowerLimit h then (None, h)
           else case rph_ReceivedPacket packetNumber (packetHistory h) of
                  (Some err, hist) \<Rightarrow> (Some err, h\<lparr>packetHistory := hist\<rparr>)
                | (None, hist) \<Rightarrow>
                    (None, maybeQueueAck now packetNumber shouldInstigateAck (h\<lparr>packetHistory := hist\<rparr>)))"

definition SetLowerLimit :: "PacketNumber \<Rightarrow> receivedPacketHandler \<Rightarrow> receivedPacketHandler" where
  "SetLowerLimit p h = h\<lparr>lowerLimit := p, packetHistory := DeleteUpTo p (packetHistory h)\<rparr>"

text \<open>
  \<open>ackRanges[len(ackRanges)-1]\<close> panics on an empty history. The path identifier of the frame is set by
  the caller.
\<close>

definition rcv_GetAckFrame ::
    "Time \<Rightarrow> receivedPacketHandler \<Rightarrow> (error + AckFrame option) \<times> receivedPacketHandler" where
  "rcv_GetAckFrame now h =
     (if \<not> ackQueued h \<and> (case ackAlarm h of None \<Rightarrow> True | Some t \<Rightarrow> t > now) then (Inr None, h)
      else
        let ackRanges = GetAckRanges (packetHistory h) in
        if ackRanges = [] then (Inl Panic, h)
        else
          let ack = \<lparr>ack_PathID = 0, ack_LargestAcked = largestObserved h,
                     ack_LowestAcked = First (last ackRanges),
                     ack_AckRanges = (if length ackRanges > 1 then ackRanges else []),
                     ack_PacketReceivedTime = largestObservedReceivedTime h, ack_DelayTime = 0\<rparr>
          in (Inr (Some ack),
              h\<lparr>lastAck := Some ack, ackAlarm := None, ackQueued := False,
                packetsReceivedSinceLastAck := 0, retransmittablePacketsReceivedSinceLastAck := 0\<rparr>))"

definition rcv_GetClosePathFrame :: "receivedPacketHandler \<Rightarrow> error + ClosePathFrame" where
  "rcv_GetClosePathFrame h =
     (let ackRanges = GetAckRanges (packetHistory h) in
      if ackRanges = [] then Inl Panic
      else Inr \<lparr>cp_PathID = 0, cp_LargestAcked = largestObserved h, cp_LowestAcked = First (last ackRanges),
                cp_AckRanges = (if length ackRanges > 1 then ackRanges else [])\<rparr>)"

subsection \<open>What an ACK reports\<close>

definition received_set :: "receivedPacketHandler \<Rightarrow> PacketNumber set" where
  "received_set h = rph_set (packetHistory h)"

text \<open>
  The history holds numbers above the limit, and the largest number observed is its maximum unless
  the history is empty.
\<close>

definition rcv_inv :: "receivedPacketHandler \<Rightarrow> bool" where
  "rcv_inv h \<longleftrightarrow>
     rph_inv (packetHistory h) \<and> (\<forall>p\<in>received_set h. lowerLimit h < p \<and> p \<le> largestObserved h) \<and>
     (received_set h = {} \<longrightarrow> largestObserved h \<le> lowerLimit h) \<and>
     (received_set h \<noteq> {} \<longrightarrow> largestObserved h \<in> received_set h) \<and>
     (ackQueued h \<longrightarrow> ackAlarm h = None)"

lemma queue_if_simps [simp]:
  "packetHistory (queue_if c h) = packetHistory h" "largestObserved (queue_if c h) = largestObserved h"
  "lowerLimit (queue_if c h) = lowerLimit h" "lastAck (queue_if c h) = lastAck h"
  "rcv_version (queue_if c h) = rcv_version h" "ackAlarm (queue_if c h) = ackAlarm h"
  "ackSendDelay (queue_if c h) = ackSendDelay h" "ackQueued (queue_if c h) \<longleftrightarrow> ackQueued h \<or> c"
  "packetsReceivedSinceLastAck (queue_if c h) = packetsReceivedSinceLastAck h"
  "retransmittablePacketsReceivedSinceLastAck (queue_if c h) = retransmittablePacketsReceivedSinceLastAck h"
  by (simp_all add: queue_if_def)

lemma maybeQueueAck_keeps:
  "packetHistory (maybeQueueAck now pn b h) = packetHistory h"
  "largestObserved (maybeQueueAck now pn b h) = largestObserved h"
  "lowerLimit (maybeQueueAck now pn b h) = lowerLimit h"
  "ackQueued (maybeQueueAck now pn b h) \<longrightarrow> ackAlarm (maybeQueueAck now pn b h) = None"
  by (simp_all add: maybeQueueAck_def Let_def)

lemma maybeQueueAck_acks:
  "ackQueued (maybeQueueAck now pn True h) \<or>
   (\<exists>t. ackAlarm (maybeQueueAck now pn True h) = Some t \<and> (ackAlarm h = Some t \<or> t = now + ackSendDelay h))"
  by (auto simp: maybeQueueAck_def Let_def)

lemma rcv_ReceivedPacket_inv:
  assumes "rcv_inv h" "rcv_ReceivedPacket now pn b h = (None, h')"
  shows "rcv_inv h' \<and> lowerLimit h' = lowerLimit h \<and>
    received_set h' = (if pn \<le> lowerLimit h then received_set h else insert pn (received_set h))"
proof -
  let ?h = "h\<lparr>rcv_packets := rcv_packets h + 1\<rparr>"
  let ?h1 = "if pn > largestObserved h then ?h\<lparr>largestObserved := pn, largestObservedReceivedTime := Some now\<rparr> else ?h"
  have pn: "0 < pn" using assms(2) by (auto simp: rcv_ReceivedPacket_def word_neq_0_conv [symmetric])
  have l: "largestObserved ?h1 = max pn (largestObserved h)" "lowerLimit ?h1 = lowerLimit h"
    "packetHistory ?h1 = packetHistory h" "ackQueued ?h1 = ackQueued h" "ackAlarm ?h1 = ackAlarm h"
    by (auto simp: max_def)
  show ?thesis
  proof (cases "pn \<le> lowerLimit h")
    case True
    then have "h' = ?h1" using assms(2) pn by (simp add: rcv_ReceivedPacket_def Let_def split: if_splits)
    then show ?thesis
      using assms(1) True l by (auto simp: rcv_inv_def received_set_def max_def)
  next
    case False
    obtain hist where r: "rph_ReceivedPacket pn (packetHistory h) = (None, hist)"
      "h' = maybeQueueAck now pn b (?h1\<lparr>packetHistory := hist\<rparr>)"
      using assms(2) pn False
      by (cases "rph_ReceivedPacket pn (packetHistory h)")
        (auto simp: rcv_ReceivedPacket_def Let_def split: if_splits option.splits)
    then have hist: "rph_inv hist" "rph_set hist = insert pn (received_set h)"
      using rph.receive [OF _ pn r(1)] assms(1) by (auto simp: rcv_inv_def received_set_def)
    then have "received_set h' = insert pn (received_set h)" "rph_inv (packetHistory h')"
      "largestObserved h' = max pn (largestObserved h)" "lowerLimit h' = lowerLimit h"
      "ackQueued h' \<longrightarrow> ackAlarm h' = None"
      using l by (simp_all add: r(2) received_set_def maybeQueueAck_keeps)
    then show ?thesis
      using assms(1) False by (auto simp: rcv_inv_def max_def)
  qed
qed

lemma SetLowerLimit_inv:
  assumes "rcv_inv h" "lowerLimit h \<le> p"
  shows "rcv_inv (SetLowerLimit p h) \<and> received_set (SetLowerLimit p h) = received_set h - {..p}"
proof -
  have "rph_inv (packetHistory h)" using assms(1) by (simp add: rcv_inv_def)
  from rph.delete_up_to [OF this, of p]
  have d: "rph_inv (packetHistory (SetLowerLimit p h))" "received_set (SetLowerLimit p h) = received_set h - {..p}"
    by (simp_all add: SetLowerLimit_def received_set_def)
  then show ?thesis
    using assms by (auto simp: rcv_inv_def) (auto simp: SetLowerLimit_def)
qed

lemma GetAckRanges_set: "(\<Union>a\<in>set (GetAckRanges h). {First a..Last a}) = rph_set h"
  by (simp add: GetAckRanges_def rph_set_def ranges_set_def interval_set_def)

lemma descending_lowest:
  "descending is \<Longrightarrow> \<forall>i\<in>set is. pi_Start (last is) \<le> pi_Start i"
proof (induction "is" rule: descending.induct)
  case (3 i' j js)
  then have "\<forall>i\<in>set (j # js). pi_Start (last (j # js)) \<le> pi_Start i" by simp
  moreover have "pi_Start j \<le> pi_Start i'"
    using 3(2) descending_Cons [of j js] by (simp add: word_le_nat_alt)
  ultimately show ?case by fastforce
qed auto

lemma GetAckRanges_lowest:
  assumes "rph_inv h" "p \<in> rph_set h"
  shows "First (last (GetAckRanges h)) \<le> p"
proof -
  obtain i where "i \<in> set (ranges h)" "pi_Start i \<le> p"
    using assms(2) by (auto simp: rph_set_def ranges_set_def interval_set_def)
  moreover from this have "pi_Start (last (rev (ranges h))) \<le> pi_Start i"
    using assms(1) descending_lowest [of "rev (ranges h)"] by (simp add: rph_inv_def)
  moreover have "ranges h \<noteq> []" using calculation(1) by auto
  ultimately show ?thesis by (simp add: GetAckRanges_def last_map)
qed

lemma rph_set_empty: "rph_inv h \<Longrightarrow> rph_set h = {} \<longleftrightarrow> ranges h = []"
  by (cases "rev (ranges h)") (auto simp: rph_inv_def rph_set_def ranges_set_def interval_set_def descending_Cons
      simp flip: set_rev [of "ranges h"])

lemma rcv_GetAckFrame_reports:
  assumes "rcv_inv h" "rcv_GetAckFrame now h = (Inr (Some ack), h')"
  shows "AcksPacket ack p \<longleftrightarrow> p \<in> received_set h"
proof -
  let ?rs = "GetAckRanges (packetHistory h)"
  have ack: "ack_LargestAcked ack = largestObserved h" "ack_LowestAcked ack = First (last ?rs)"
    "ack_AckRanges ack = (if length ?rs > 1 then ?rs else [])" and ne: "?rs \<noteq> []"
    using assms(2) by (auto simp: rcv_GetAckFrame_def Let_def split: if_splits)
  have b: "First (last ?rs) \<le> p \<and> p \<le> largestObserved h" if "p \<in> received_set h"
    using that assms(1) GetAckRanges_lowest [of "packetHistory h" p] by (auto simp: rcv_inv_def received_set_def)
  have u: "received_set h = (\<Union>a\<in>set ?rs. {First a..Last a})" by (simp add: GetAckRanges_set received_set_def)
  show ?thesis
  proof (cases "length ?rs > 1")
    case True
    moreover have "in_some_range p ?rs \<longleftrightarrow> p \<in> received_set h" by (simp add: u in_some_range_iff)
    ultimately show ?thesis
      using b ack by (auto simp: AcksPacket_def HasMissingRanges_def not_less [symmetric])
  next
    case False
    then obtain a where a: "?rs = [a]" using ne by (cases ?rs) auto
    then have "received_set h = {First a..Last a}" using u by simp
    moreover have "largestObserved h \<in> received_set h" "\<forall>p\<in>received_set h. p \<le> largestObserved h"
      using assms(1) ne rph_set_empty [of "packetHistory h"]
      by (simp_all add: rcv_inv_def GetAckRanges_def received_set_def)
    ultimately have "largestObserved h = Last a" "received_set h = {First a..Last a}"
      by (auto intro: antisym order_trans)
    then show ?thesis using ack a by (auto simp: AcksPacket_def HasMissingRanges_def not_less)
  qed
qed

lemma rcv_GetAckFrame_inv: "rcv_inv h \<Longrightarrow> rcv_inv (snd (rcv_GetAckFrame now h))"
  by (simp add: rcv_GetAckFrame_def rcv_inv_def received_set_def Let_def)

lemma rcv_GetAckFrame_keeps:
  "received_set (snd (rcv_GetAckFrame now h)) = received_set h"
  "lowerLimit (snd (rcv_GetAckFrame now h)) = lowerLimit h"
  by (simp_all add: rcv_GetAckFrame_def received_set_def Let_def)

lemma maybeQueueAck_first: "lastAck h = None \<Longrightarrow> ackQueued (maybeQueueAck now pn b h)"
  by (simp add: maybeQueueAck_def Let_def)

lemma rcv_ReceivedPacket_queues:
  assumes "rcv_ReceivedPacket now pn True h = (None, h')" "lowerLimit h < pn"
  shows "ackQueued h' \<or> (\<exists>t. ackAlarm h' = Some t \<and> (ackAlarm h = Some t \<or> t = now + ackSendDelay h))"
proof -
  obtain h1 where "h' = maybeQueueAck now pn True h1" "ackAlarm h1 = ackAlarm h" "ackSendDelay h1 = ackSendDelay h"
    using assms by (fastforce simp: rcv_ReceivedPacket_def Let_def split: if_splits option.splits prod.splits)
  then show ?thesis using maybeQueueAck_acks [of now pn h1] by simp
qed

subsection \<open>Runs of the handler\<close>

datatype rcv_event =
    Pkt Time PacketNumber bool
  | Limit PacketNumber
  | MakeAck Time

fun rcv_run :: "rcv_event list \<Rightarrow> receivedPacketHandler \<Rightarrow> error + receivedPacketHandler" where
  "rcv_run [] h = Inr h"
| "rcv_run (Pkt now pn b # es) h =
     (case rcv_ReceivedPacket now pn b h of (Some e, _) \<Rightarrow> Inl e | (None, h) \<Rightarrow> rcv_run es h)"
| "rcv_run (Limit p # es) h = rcv_run es (SetLowerLimit p h)"
| "rcv_run (MakeAck now # es) h =
     (case rcv_GetAckFrame now h of (Inl e, _) \<Rightarrow> Inl e | (Inr _, h) \<Rightarrow> rcv_run es h)"

text \<open>The packets to acknowledge and the limit, from the events alone.\<close>

fun spec_rcv :: "rcv_event \<Rightarrow> PacketNumber set \<times> PacketNumber \<Rightarrow> PacketNumber set \<times> PacketNumber" where
  "spec_rcv (Pkt now pn b) (S, l) = (if pn \<le> l then S else insert pn S, l)"
| "spec_rcv (Limit p) (S, l) = (S - {..p}, p)"
| "spec_rcv (MakeAck now) (S, l) = (S, l)"

fun limits_of :: "rcv_event list \<Rightarrow> PacketNumber list" where
  "limits_of [] = []"
| "limits_of (Limit p # es) = p # limits_of es"
| "limits_of (_ # es) = limits_of es"

lemma rcv_run_refines:
  assumes "rcv_inv h" "sorted (lowerLimit h # limits_of es)" "rcv_run es h = Inr h'"
  shows "rcv_inv h' \<and> received_set h' = fst (fold spec_rcv es (received_set h, lowerLimit h))"
  using assms
proof (induction es arbitrary: h)
  case (Cons e es)
  show ?case
  proof (cases e)
    case (Pkt now pn b)
    with Cons.prems(3) obtain h1 where h1: "rcv_ReceivedPacket now pn b h = (None, h1)" "rcv_run es h1 = Inr h'"
      by (auto split: prod.splits option.splits)
    note rcv_ReceivedPacket_inv [OF Cons.prems(1) h1(1)]
    then show ?thesis using Cons.IH [OF _ _ h1(2)] Cons.prems(2) Pkt by simp
  next
    case (Limit p)
    then have "lowerLimit h \<le> p" using Cons.prems(2) by simp
    then show ?thesis
      using Limit Cons.prems Cons.IH [of "SetLowerLimit p h"] SetLowerLimit_inv [OF Cons.prems(1)]
      by (simp add: SetLowerLimit_def)
  next
    case (MakeAck now)
    with Cons.prems(3) have "rcv_run es (snd (rcv_GetAckFrame now h)) = Inr h'"
      by (auto split: prod.splits sum.splits)
    then show ?thesis
      using MakeAck Cons.prems Cons.IH [of "snd (rcv_GetAckFrame now h)"] rcv_GetAckFrame_inv rcv_GetAckFrame_keeps
      by simp
  qed
qed simp

lemma NewReceivedPacketHandler_inv:
  "rcv_inv (NewReceivedPacketHandler v)" "received_set (NewReceivedPacketHandler v) = {}"
  "lowerLimit (NewReceivedPacketHandler v) = 0"
  using rph.empty by (simp_all add: rcv_inv_def received_set_def NewReceivedPacketHandler_def)

subsection \<open>Properties\<close>

text \<open>
  C7: an ACK is exact. After any run in which the limits set by STOP_WAITING frames do not decrease,
  an ACK frame acknowledges precisely the packets that were received above the limit in force and
  not dropped by a later one.
\<close>

theorem ack_reports_received:
  assumes "rcv_run es (NewReceivedPacketHandler v) = Inr h" "sorted (limits_of es)"
    "rcv_GetAckFrame now h = (Inr (Some ack), h')"
  shows "AcksPacket ack p \<longleftrightarrow> p \<in> fst (fold spec_rcv es ({}, 0))"
proof -
  have "sorted (lowerLimit (NewReceivedPacketHandler v) # limits_of es)"
    using assms(2) by (simp add: NewReceivedPacketHandler_inv)
  from rcv_run_refines [OF NewReceivedPacketHandler_inv(1) this assms(1)]
  show ?thesis
    using rcv_GetAckFrame_reports [OF _ assms(3)] by (simp add: NewReceivedPacketHandler_inv)
qed

theorem ack_reports_received_witness:
  "\<exists>h ack h'. rcv_run [Pkt 0 1 True, Pkt 1 2 True, Limit 1, Pkt 2 5 False] (NewReceivedPacketHandler 39) = Inr h \<and>
     rcv_GetAckFrame 3 h = (Inr (Some ack), h') \<and> AcksPacket ack 5 \<and> \<not> AcksPacket ack 3"
proof -
  let ?es = "[Pkt 0 1 True, Pkt 1 2 True, Limit 1, Pkt 2 5 False]"
  have "case rcv_run ?es (NewReceivedPacketHandler 39) of Inl _ \<Rightarrow> False | Inr h \<Rightarrow> ackQueued h \<and>
      ranges (packetHistory h) = [\<lparr>pi_Start = 2, pi_End = 2\<rparr>, \<lparr>pi_Start = 5, pi_End = 5\<rparr>]"
    by code_simp
  then obtain h where h: "rcv_run ?es (NewReceivedPacketHandler 39) = Inr h"
    and q: "ackQueued h" "ranges (packetHistory h) = [\<lparr>pi_Start = 2, pi_End = 2\<rparr>, \<lparr>pi_Start = 5, pi_End = 5\<rparr>]"
    by (cases "rcv_run ?es (NewReceivedPacketHandler 39)") simp_all
  have spec: "fst (fold spec_rcv ?es ({}, 0)) = {2, 5}"
    by (simp add: word_le_nat_alt insert_Diff_if insert_commute)
  obtain ack h' where a: "rcv_GetAckFrame 3 h = (Inr (Some ack), h')"
    using q by (simp add: rcv_GetAckFrame_def GetAckRanges_def Let_def)
  show ?thesis
    using ack_reports_received [OF h _ a, of 5] ack_reports_received [OF h _ a, of 3] h a spec by (simp del: fold_simps)
qed

text \<open>
  C29: a STOP_WAITING frame that arrives late lowers the limit again, and then packets are acknowledged
  that were never received: after a limit \<open>l\<close>, packet \<open>q\<close> below it, a smaller limit \<open>m\<close> and packet
  \<open>p\<close> between \<open>m\<close> and \<open>q\<close>, the ACK covers everything from \<open>p\<close> to \<open>q\<close>.
\<close>

theorem late_stop_waiting_acks_unreceived:
  assumes "q \<le> l" "m < p" "p < q"
  shows "\<exists>h ack h'. rcv_run [Limit l, Pkt t1 q b1, Limit m, Pkt t2 p b2] (NewReceivedPacketHandler v) = Inr h \<and>
    rcv_GetAckFrame t3 h = (Inr (Some ack), h') \<and> (\<forall>x. p \<le> x \<and> x \<le> q \<longrightarrow> AcksPacket ack x)"
proof -
  have nz: "q \<noteq> 0" "p \<noteq> 0" "\<not> p \<le> m" "\<not> q < p" using assms by auto
  then have "0 < q" by (simp add: word_neq_0_conv [symmetric])
  note nz = nz this
  let ?h0 = "SetLowerLimit l (NewReceivedPacketHandler v)"
  let ?h1 = "SetLowerLimit m (?h0\<lparr>rcv_packets := 1, largestObserved := q, largestObservedReceivedTime := Some t1\<rparr>)"
  let ?h2 = "?h1\<lparr>rcv_packets := 2, packetHistory := (packetHistory ?h1)\<lparr>ranges := [\<lparr>pi_Start = p, pi_End = p\<rparr>]\<rparr>\<rparr>"
  have "rcv_ReceivedPacket t1 q b1 ?h0 = (None, ?h0\<lparr>rcv_packets := 1, largestObserved := q,
      largestObservedReceivedTime := Some t1\<rparr>)"
    using nz assms(1) by (simp add: rcv_ReceivedPacket_def SetLowerLimit_def NewReceivedPacketHandler_def)
  moreover have "rcv_ReceivedPacket t2 p b2 ?h1 = (None, maybeQueueAck t2 p b2 ?h2)"
    using nz by (simp add: rcv_ReceivedPacket_def SetLowerLimit_def NewReceivedPacketHandler_def
        newReceivedPacketHistory_def DeleteUpTo_def rph_ReceivedPacket_def MaxTrackedReceivedAckRanges_def)
  ultimately have run: "rcv_run [Limit l, Pkt t1 q b1, Limit m, Pkt t2 p b2] (NewReceivedPacketHandler v)
      = Inr (maybeQueueAck t2 p b2 ?h2)"
    by simp
  have "ackQueued (maybeQueueAck t2 p b2 ?h2)"
    by (rule maybeQueueAck_first) (simp add: SetLowerLimit_def NewReceivedPacketHandler_def)
  then have "\<exists>ack h'. rcv_GetAckFrame t3 (maybeQueueAck t2 p b2 ?h2) = (Inr (Some ack), h') \<and>
      ack_LargestAcked ack = q \<and> ack_LowestAcked ack = p \<and> ack_AckRanges ack = []"
    by (simp add: rcv_GetAckFrame_def GetAckRanges_def Let_def maybeQueueAck_keeps SetLowerLimit_def)
  then show ?thesis
    unfolding run by (fastforce simp: AcksPacket_def HasMissingRanges_def)
qed

theorem late_stop_waiting_acks_unreceived_witness:
  "\<exists>h ack h'. rcv_run [Limit 10, Pkt 0 8 True, Limit 3, Pkt 1 4 True] (NewReceivedPacketHandler 512) = Inr h \<and>
    rcv_GetAckFrame 2 h = (Inr (Some ack), h') \<and> AcksPacket ack 6"
  using late_stop_waiting_acks_unreceived [of 8 10 3 4 0 True 1 True 512 2] by force



text \<open>
  C33: duplicates are not filtered out before \<open>maybeQueueAck\<close>, contrary to the comment there: a second copy
  of a packet below the last \<open>LargestAcked\<close> leaves the history alone and queues an ACK.
\<close>

theorem duplicate_queues_ack:
  assumes "rcv_inv h" "p \<in> received_set h" "lastAck h = Some a" "p < ack_LargestAcked a"
    "length (ranges (packetHistory h)) < MaxTrackedReceivedAckRanges"
  shows "\<exists>h'. rcv_ReceivedPacket now p b h = (None, h') \<and> received_set h' = received_set h \<and> ackQueued h'"
proof -
  have p: "lowerLimit h < p" "p \<le> largestObserved h" using assms(1,2) by (auto simp: rcv_inv_def)
  then have nz: "p \<noteq> 0" by auto
  obtain hist where hist: "rph_ReceivedPacket p (packetHistory h) = (None, hist)"
    using assms(5) by (cases "ranges (packetHistory h) = []") (simp_all add: rph_ReceivedPacket_def)
  let ?h = "h\<lparr>rcv_packets := rcv_packets h + 1, packetHistory := hist\<rparr>"
  have r: "rcv_ReceivedPacket now p b h = (None, maybeQueueAck now p b ?h)"
    using p nz hist by (simp add: rcv_ReceivedPacket_def Let_def not_less [symmetric])
  moreover have "received_set (maybeQueueAck now p b ?h) = received_set h"
    using rcv_ReceivedPacket_inv [OF assms(1) r] p assms(2) by auto
  moreover have "ackQueued (maybeQueueAck now p b ?h)"
    using assms(3,4) by (simp add: maybeQueueAck_def Let_def lastAck_satisfies_def)
  ultimately show ?thesis by simp
qed

theorem duplicate_queues_ack_witness:
  "\<exists>h h'. rcv_run [Pkt 0 1 True, Pkt 1 2 True, MakeAck 2] (NewReceivedPacketHandler 512) = Inr h \<and>
     rcv_ReceivedPacket 3 1 False h = (None, h') \<and> ackQueued h'"
proof -
  let ?es = "[Pkt 0 1 True, Pkt 1 2 True, MakeAck 2]"
  have "case rcv_run ?es (NewReceivedPacketHandler 512) of Inl _ \<Rightarrow> False | Inr h \<Rightarrow>
      map_option ack_LargestAcked (lastAck h) = Some 2 \<and> length (ranges (packetHistory h)) = 1"
    by code_simp
  then obtain h a where h: "rcv_run ?es (NewReceivedPacketHandler 512) = Inr h" "lastAck h = Some a"
    "ack_LargestAcked a = 2" "length (ranges (packetHistory h)) = 1"
    by (cases "rcv_run ?es (NewReceivedPacketHandler 512)") auto
  have "fst (fold spec_rcv ?es ({}, 0)) = {1, 2}" by (simp add: insert_commute)
  then have "rcv_inv h" "1 \<in> received_set h"
    using rcv_run_refines [OF NewReceivedPacketHandler_inv(1) _ h(1)]
    by (simp_all add: NewReceivedPacketHandler_inv del: fold_simps)
  from duplicate_queues_ack [OF this h(2)] h show ?thesis
    by (fastforce simp: MaxTrackedReceivedAckRanges_def)
qed

end
