(* ===== verification/Stream_Sorter.thy ===== *)
theory Stream_Sorter
  imports Wire_Stream
begin

text \<open>
  \<open>stream_frame_sorter.go\<close>: reassembly of the frames of a stream. The linked list of gaps is the list of
  its values from \<open>Front\<close> to \<open>Back\<close>; the loops of \<open>Push\<close> split it at the elements the source holds
  pointers to.
\<close>

record ByteInterval =
  bi_Start :: ByteCount
  bi_End :: ByteCount

definition MaxByteCount :: ByteCount where "MaxByteCount = 0xFFFFFFFFFFFFFFFF"

definition MaxStreamFrameSorterGaps :: nat where "MaxStreamFrameSorterGaps = 2500"

record streamFrameSorter =
  queuedFrames :: "ByteCount \<rightharpoonup> StreamFrame"
  readPosition :: ByteCount
  gaps :: "ByteInterval list"
  dupframesize :: ByteCount

definition newStreamFrameSorter :: streamFrameSorter where
  "newStreamFrameSorter =
     \<lparr>queuedFrames = Map.empty, readPosition = 0, gaps = [\<lparr>bi_Start = 0, bi_End = MaxByteCount\<rparr>],
      dupframesize = 0\<rparr>"

text \<open>
  The loop that skips the gaps before the frame: the gaps skipped, the gap found and those behind it.
\<close>

fun find_gap ::
    "ByteCount \<Rightarrow> ByteCount \<Rightarrow> ByteInterval list
     \<Rightarrow> error + ByteInterval list \<times> ByteInterval \<times> ByteInterval list" where
  "find_gap start end' [] = Inl ErrSorterNoGap"
| "find_gap start end' (gap # gs) =
     (if end' \<le> bi_Start gap then Inl ErrDuplicateStreamData
      else if end' > bi_Start gap \<and> start \<le> bi_End gap then Inr ([], gap, gs)
      else bindE (find_gap start end' gs) (\<lambda>(before, g, after). Inr (gap # before, g, after)))"

text \<open>
  The loop that looks for the end gap. The result is the end gap, whether it is the first gap
  itself, whether it is still in the list, the gaps behind it and the remaining queue. The error
  comes with the gaps that are left behind the first one and the queue.
\<close>

fun find_end_gap ::
    "ByteCount \<Rightarrow> bool \<Rightarrow> ByteInterval \<Rightarrow> ByteInterval list \<Rightarrow> (ByteCount \<rightharpoonup> StreamFrame)
     \<Rightarrow> (error \<times> ByteInterval list \<times> (ByteCount \<rightharpoonup> StreamFrame))
        + ByteInterval \<times> bool \<times> bool \<times> ByteInterval list \<times> (ByteCount \<rightharpoonup> StreamFrame)" where
  "find_end_gap end' is_gap endGap [] queue =
     (if end' \<ge> bi_End endGap then Inl (ErrSorterNoEndGap, if is_gap then [] else [endGap], queue)
      else Inr (endGap, is_gap, True, [], queue))"
| "find_end_gap end' is_gap endGap (nextEndGap # after) queue =
     (if end' \<ge> bi_End endGap then
        if end' \<le> bi_Start nextEndGap then Inr (endGap, is_gap, is_gap, nextEndGap # after, queue)
        else find_end_gap end' False nextEndGap after (queue(bi_End endGap := None))
      else Inr (endGap, is_gap, True, nextEndGap # after, queue))"

text \<open>
  The update of the gaps: what becomes of the first gap and the end gap. When they are the same
  element, an update of one is an update of the other.
\<close>

definition adjust_gaps ::
    "ByteCount \<Rightarrow> ByteCount \<Rightarrow> ByteInterval \<Rightarrow> ByteInterval \<Rightarrow> bool \<Rightarrow> bool \<Rightarrow> ByteInterval list" where
  "adjust_gaps start end' gap endGap is_gap in_list =
     (if start = bi_Start gap then
        if is_gap then
          (if end' \<ge> bi_End gap then []
           else [if end' < bi_End endGap then gap\<lparr>bi_Start := end'\<rparr> else gap])
        else
          (if end' \<ge> bi_End gap then [] else [gap])
          @ (if in_list then [if end' < bi_End endGap then endGap\<lparr>bi_Start := end'\<rparr> else endGap] else [])
      else if end' = bi_End endGap then
        [gap\<lparr>bi_End := start\<rparr>] @ (if \<not> is_gap \<and> in_list then [endGap] else [])
      else if is_gap then
        [gap\<lparr>bi_End := start\<rparr>, \<lparr>bi_Start = end', bi_End = bi_End gap\<rparr>]
      else
        [gap\<lparr>bi_End := start\<rparr>] @ (if in_list then [endGap\<lparr>bi_Start := end'\<rparr>] else []))"

text \<open>The part of \<open>Push\<close> behind the look-up of a queued frame with the same offset.\<close>

definition push_data :: "StreamFrame \<Rightarrow> streamFrameSorter \<Rightarrow> error option \<times> streamFrameSorter" where
  "push_data frame s =
     (let start = sf_Offset frame; end' = sf_Offset frame + sf_DataLen frame in
      case find_gap start end' (gaps s) of
        Inl e \<Rightarrow> (Some e, s)
      | Inr (before, gap, after) \<Rightarrow>
          let add = (if start < bi_Start gap then bi_Start gap - start else 0);
              frame = frame\<lparr>sf_Offset := sf_Offset frame + add, sf_Data := drop (unat add) (sf_Data frame)\<rparr>;
              start = start + add
          in case find_end_gap end' True gap after (queuedFrames s) of
               Inl (e, rest, queue) \<Rightarrow> (Some e, s\<lparr>gaps := before @ [gap] @ rest, queuedFrames := queue\<rparr>)
             | Inr (endGap, is_gap, in_list, after, queue) \<Rightarrow>
                 let cutLen = (if end' > bi_End endGap then end' - bi_End endGap else 0);
                     len = sf_DataLen frame - cutLen;
                     end' = end' - cutLen;
                     frame = frame\<lparr>sf_Data := take (unat len) (sf_Data frame)\<rparr>;
                     s = s\<lparr>gaps := before @ adjust_gaps start end' gap endGap is_gap in_list @ after,
                           queuedFrames := queue\<rparr>
                 in if length (gaps s) > MaxStreamFrameSorterGaps
                    then (Some ErrTooManyGapsInReceivedStreamData, s)
                    else (None, s\<lparr>queuedFrames := (queuedFrames s)(sf_Offset frame \<mapsto> frame)\<rparr>))"

definition Push :: "StreamFrame \<Rightarrow> streamFrameSorter \<Rightarrow> error option \<times> streamFrameSorter" where
  "Push frame s =
     (if sf_DataLen frame = 0 then
        if sf_FinBit frame
        then (None, s\<lparr>queuedFrames := (queuedFrames s)(sf_Offset frame \<mapsto> frame)\<rparr>)
        else (Some ErrEmptyStreamData, s)
      else
        case queuedFrames s (sf_Offset frame) of
          Some oldFrame \<Rightarrow>
            if sf_DataLen frame \<le> sf_DataLen oldFrame
            then (Some ErrDuplicateStreamData, s\<lparr>dupframesize := dupframesize s + sf_DataLen frame\<rparr>)
            else push_data
                   (frame\<lparr>sf_Data := drop (unat (sf_DataLen oldFrame)) (sf_Data frame),
                          sf_Offset := sf_Offset frame + sf_DataLen oldFrame\<rparr>) s
        | None \<Rightarrow> push_data frame s)"

definition Head :: "streamFrameSorter \<Rightarrow> StreamFrame option" where
  "Head s = queuedFrames s (readPosition s)"

text \<open>\<open>Pop\<close> reads a field of the head before the test for \<open>nil\<close>, so it panics without a head.\<close>

definition Pop :: "streamFrameSorter \<Rightarrow> (error + StreamFrame) \<times> streamFrameSorter" where
  "Pop s =
     (case Head s of
        None \<Rightarrow> (Inl Panic, s)
      | Some frame \<Rightarrow>
          (Inr frame, s\<lparr>readPosition := readPosition s + sf_DataLen frame,
                        queuedFrames := (queuedFrames s)(sf_Offset frame := None)\<rparr>))"

text \<open>The filler frame that the stream reader can substitute.\<close>

definition FullZeroFrame :: "ByteCount \<Rightarrow> StreamFrame" where
  "FullZeroFrame offset =
     \<lparr>sf_StreamID = 3, sf_FinBit = False, sf_DataLenPresent = False, sf_Offset = offset,
      sf_Data = map (\<lambda>i. if i mod 2 = 0 then 0x10 else 0x00) [0..<100], sf_Rcvpkttime = None,
      sf_Priority = False\<rparr>"

subsection \<open>The gaps as a set of positions\<close>

definition in_gap :: "ByteInterval list \<Rightarrow> nat \<Rightarrow> bool" where
  "in_gap gs x \<longleftrightarrow> (\<exists>g\<in>set gs. unat (bi_Start g) \<le> x \<and> x < unat (bi_End g))"

text \<open>Proper gaps with received bytes between neighbours; the last one never ends.\<close>

fun gaps_ok :: "nat \<Rightarrow> ByteInterval list \<Rightarrow> bool" where
  "gaps_ok lo [] \<longleftrightarrow> False"
| "gaps_ok lo (g # gs) \<longleftrightarrow>
     lo \<le> unat (bi_Start g) \<and> bi_Start g < bi_End g \<and>
     (if gs = [] then bi_End g = MaxByteCount else gaps_ok (unat (bi_End g) + 1) gs)"

lemma in_gap_simps [simp]:
  "\<not> in_gap [] x"
  "in_gap (g # gs) x \<longleftrightarrow> (unat (bi_Start g) \<le> x \<and> x < unat (bi_End g)) \<or> in_gap gs x"
  "in_gap (gs @ hs) x \<longleftrightarrow> in_gap gs x \<or> in_gap hs x"
  by (auto simp: in_gap_def)

lemma gaps_ok_lower: "gaps_ok lo gs \<Longrightarrow> in_gap gs x \<Longrightarrow> lo \<le> x"
  by (induction gs arbitrary: lo) (fastforce split: if_splits simp: word_less_nat_alt)+

lemma gaps_ok_mono: "gaps_ok lo gs \<Longrightarrow> lo' \<le> lo \<Longrightarrow> gaps_ok lo' gs"
  by (cases gs) auto

fun gaps_before :: "nat \<Rightarrow> nat \<Rightarrow> ByteInterval list \<Rightarrow> bool" where
  "gaps_before lo hi [] \<longleftrightarrow> lo = hi"
| "gaps_before lo hi (g # gs) \<longleftrightarrow>
     lo \<le> unat (bi_Start g) \<and> bi_Start g < bi_End g \<and> gaps_before (unat (bi_End g) + 1) hi gs"

lemma gaps_ok_append:
  "rest \<noteq> [] \<Longrightarrow> gaps_ok lo (before @ rest) \<longleftrightarrow> (\<exists>hi. gaps_before lo hi before \<and> gaps_ok hi rest)"
  by (induction before arbitrary: lo) auto

lemma gaps_before_bounds:
  "gaps_before lo hi gs \<Longrightarrow> lo \<le> hi"
  "gaps_before lo hi gs \<Longrightarrow> in_gap gs x \<Longrightarrow> lo \<le> x \<and> x + 1 < hi"
proof -
  have *: "gaps_before lo hi gs \<Longrightarrow> lo \<le> hi" for lo gs
    by (induction gs arbitrary: lo) (fastforce simp: word_less_nat_alt)+
  then show "gaps_before lo hi gs \<Longrightarrow> lo \<le> hi" .
  show "gaps_before lo hi gs \<Longrightarrow> in_gap gs x \<Longrightarrow> lo \<le> x \<and> x + 1 < hi"
  proof (induction gs arbitrary: lo)
    case (Cons g gs)
    then have "unat (bi_End g) + 1 \<le> hi" by (intro *) auto
    with Cons show ?case by (fastforce simp: word_less_nat_alt)
  qed simp
qed

lemma MaxByteCount_max: "x \<le> MaxByteCount"
proof -
  have "x \<le> - 1" by (rule word_order.extremum)
  also have "- 1 = MaxByteCount" by (simp add: MaxByteCount_def)
  finally show ?thesis .
qed

lemma adjust_single:
  assumes "gaps_ok hi (gap # after)" "bi_Start gap \<le> s" "s < e" "e \<le> bi_End gap" "e < MaxByteCount"
  shows "gaps_ok hi (adjust_gaps s e gap gap True b @ after)"
    "in_gap (adjust_gaps s e gap gap True b @ after) x \<longleftrightarrow>
       in_gap (gap # after) x \<and> \<not> (unat s \<le> x \<and> x < unat e)"
proof -
  have n: "hi \<le> unat (bi_Start gap)" "unat (bi_Start gap) \<le> unat s" "unat s < unat e" "unat e \<le> unat (bi_End gap)"
    using assms by (simp_all add: word_le_nat_alt word_less_nat_alt)
  have eq: "x = y \<longleftrightarrow> unat x = unat y" for x y :: u64 by (simp add: word_unat_eq_iff)
  have a: "in_gap after x \<Longrightarrow> unat (bi_End gap) < x"
    using assms(1) gaps_ok_lower [of "unat (bi_End gap) + 1" after x] by (auto split: if_splits)
  show "gaps_ok hi (adjust_gaps s e gap gap True b @ after)"
    using assms(1,5) n
    by (auto simp: adjust_gaps_def word_le_nat_alt word_less_nat_alt eq split: if_splits intro: gaps_ok_mono)
  show "in_gap (adjust_gaps s e gap gap True b @ after) x \<longleftrightarrow>
       in_gap (gap # after) x \<and> \<not> (unat s \<le> x \<and> x < unat e)"
    using n a by (auto simp: adjust_gaps_def word_le_nat_alt word_less_nat_alt eq)
qed

lemma adjust_multi:
  assumes "gaps_ok hi (gap # mid @ eg # after)" "bi_Start gap \<le> s" "s < bi_End gap"
    "bi_Start eg < e" "e \<le> bi_End eg" "e < MaxByteCount" "b \<longleftrightarrow> e < bi_End eg"
  shows "gaps_ok hi (adjust_gaps s e gap eg False b @ after)"
    "in_gap (adjust_gaps s e gap eg False b @ after) x \<longleftrightarrow>
       in_gap (gap # mid @ eg # after) x \<and> \<not> (unat s \<le> x \<and> x < unat e)"
proof -
  obtain hi2 where hi2: "gaps_before (unat (bi_End gap) + 1) hi2 mid" "gaps_ok hi2 (eg # after)"
    using assms(1) gaps_ok_append [of "eg # after" "unat (bi_End gap) + 1" mid] by auto
  have n: "hi \<le> unat (bi_Start gap)" "unat (bi_Start gap) \<le> unat s" "unat s < unat (bi_End gap)"
    "unat (bi_End gap) + 1 \<le> hi2" "hi2 \<le> unat (bi_Start eg)" "unat (bi_Start eg) < unat e" "unat e \<le> unat (bi_End eg)"
    using assms hi2 gaps_before_bounds(1) by (simp_all add: word_le_nat_alt word_less_nat_alt)
  have eq: "x = y \<longleftrightarrow> unat x = unat y" for x y :: u64 by (simp add: word_unat_eq_iff)
  have a: "in_gap after x \<Longrightarrow> unat (bi_End eg) < x"
    using hi2(2) gaps_ok_lower [of "unat (bi_End eg) + 1" after x] by (auto split: if_splits)
  have m: "in_gap mid x \<Longrightarrow> unat (bi_End gap) + 1 \<le> x \<and> x + 1 < hi2"
    using gaps_before_bounds(2) [OF hi2(1)] by blast
  show "gaps_ok hi (adjust_gaps s e gap eg False b @ after)"
    using hi2(2) assms(6,7) n
    by (auto simp: adjust_gaps_def word_le_nat_alt word_less_nat_alt eq split: if_splits intro: gaps_ok_mono)
  show "in_gap (adjust_gaps s e gap eg False b @ after) x \<longleftrightarrow>
       in_gap (gap # mid @ eg # after) x \<and> \<not> (unat s \<le> x \<and> x < unat e)"
    using n a m assms(7) by (auto simp: adjust_gaps_def word_le_nat_alt word_less_nat_alt eq)
qed

lemma find_gap_found:
  "find_gap s e gs = Inr (before, gap, after) \<Longrightarrow>
     gs = before @ gap # after \<and> (\<forall>g\<in>set before. bi_End g < s) \<and> bi_Start gap < e \<and> s \<le> bi_End gap"
  by (induction gs arbitrary: before) (auto simp: bindE_eq_Inr not_le split: if_splits)

lemma find_gap_duplicate:
  assumes "gaps_ok lo gs" "s < e" "find_gap s e gs = Inl err"
  shows "err = ErrDuplicateStreamData" "unat s \<le> x \<Longrightarrow> x < unat e \<Longrightarrow> \<not> in_gap gs x"
proof -
  have "err = ErrDuplicateStreamData \<and> (unat s \<le> x \<longrightarrow> x < unat e \<longrightarrow> \<not> in_gap gs x)"
    using assms(1,3)
  proof (induction gs arbitrary: lo)
    case (Cons g gs)
    show ?case
    proof (cases "e \<le> bi_Start g")
      case True
      then have "in_gap gs x \<Longrightarrow> unat e < x"
        using gaps_ok_lower [of "unat (bi_End g) + 1" gs x] Cons.prems(1)
        by (auto simp: word_le_nat_alt word_less_nat_alt split: if_splits)
      then show ?thesis using True Cons.prems(2) by (auto simp: word_le_nat_alt)
    next
      case False
      then have s: "\<not> s \<le> bi_End g" and r: "find_gap s e gs = Inl err"
        using Cons.prems(2) by (auto simp: bindE_eq_Inl not_le split: if_splits)
      then have "gs \<noteq> []" using Cons.prems(1) MaxByteCount_max [of s] by auto
      then have "gaps_ok (unat (bi_End g) + 1) gs" using Cons.prems(1) by simp
      from Cons.IH [OF this r] show ?thesis using s by (auto simp: word_le_nat_alt)
    qed
  qed simp
  then show "err = ErrDuplicateStreamData" "unat s \<le> x \<Longrightarrow> x < unat e \<Longrightarrow> \<not> in_gap gs x" by auto
qed

text \<open>
  The end gap comes behind gaps \<open>mid\<close> that the frame covers to their end; the queued frames that start
  at the ends of those gaps are dropped.
\<close>

lemma find_end_gap_found:
  assumes "gaps_ok lo (eg # after)" "bi_Start eg < e" "e < MaxByteCount"
  shows "\<exists>mid eg' b' inl after' q'.
    find_end_gap e b eg after q = Inr (eg', b', inl, after', q') \<and>
    eg # after = mid @ eg' # after' \<and> bi_Start eg' < e \<and> (b' \<longleftrightarrow> b \<and> mid = []) \<and>
    (inl \<longleftrightarrow> b' \<or> e < bi_End eg') \<and>
    (\<forall>g\<in>set mid. unat (bi_End g) < unat (bi_Start eg')) \<and>
    (bi_End eg' \<le> e \<longrightarrow> after' \<noteq> [] \<and> e \<le> bi_Start (hd after')) \<and>
    (\<forall>x. q' x = (if \<exists>g\<in>set mid. x = bi_End g then None else q x))"
  using assms
proof (induction after arbitrary: eg b q lo)
  case Nil
  then have "\<not> bi_End eg \<le> e" by auto
  then show ?case using Nil by (intro exI [of _ "[]"]) auto
next
  case (Cons nxt after)
  show ?case
  proof (cases "bi_End eg \<le> e \<and> \<not> e \<le> bi_Start nxt")
    case True
    have ok: "gaps_ok (unat (bi_End eg) + 1) (nxt # after)" using Cons.prems(1) by auto
    have "bi_Start nxt < e" using True by (simp add: not_le)
    from Cons.IH [OF ok this Cons.prems(3), of False "q(bi_End eg := None)"]
    obtain mid eg' b' inl after' q' where
      r: "find_end_gap e False nxt after (q(bi_End eg := None)) = Inr (eg', b', inl, after', q')"
        "nxt # after = mid @ eg' # after'" "bi_Start eg' < e" "b' \<longleftrightarrow> False \<and> mid = []" "inl \<longleftrightarrow> b' \<or> e < bi_End eg'"
        "\<forall>g\<in>set mid. unat (bi_End g) < unat (bi_Start eg')"
        "bi_End eg' \<le> e \<longrightarrow> after' \<noteq> [] \<and> e \<le> bi_Start (hd after')"
        "\<forall>x. q' x = (if \<exists>g\<in>set mid. x = bi_End g then None else (q(bi_End eg := None)) x)"
      by blast
    obtain hi where "gaps_before (unat (bi_End eg) + 1) hi mid" "gaps_ok hi (eg' # after')"
      using ok r(2) gaps_ok_append [of "eg' # after'" "unat (bi_End eg) + 1" mid] by auto
    then have lt: "unat (bi_End eg) < unat (bi_Start eg')"
      using gaps_before_bounds(1) by fastforce
    have F: "find_end_gap e b eg (nxt # after) q = Inr (eg', b', inl, after', q')"
      using True r(1) by simp
    show ?thesis
      by (rule exI [of _ "eg # mid"], rule exI [of _ eg'], rule exI [of _ b'], rule exI [of _ inl],
          rule exI [of _ after'], rule exI [of _ q'], simp only: F) (use r lt in auto)
  next
    case False
    then show ?thesis using Cons.prems by (intro exI [of _ "[]"]) (auto simp: not_le)
  qed
qed

subsection \<open>Pushing a frame\<close>

text \<open>The bytes of the stream are a function \<open>D\<close>; a frame of that stream carries a slice of it.\<close>

definition frame_of :: "(nat \<Rightarrow> byte) \<Rightarrow> StreamFrame \<Rightarrow> bool" where
  "frame_of D f \<longleftrightarrow>
     sf_Data f = map D [unat (sf_Offset f)..<unat (sf_Offset f) + length (sf_Data f)]"

lemma slice_drop_take:
  "a + n \<le> b \<Longrightarrow> b \<le> c \<Longrightarrow> take (b - (a + n)) (drop n (map D [a..<c])) = map D [a + n..<b]"
  by (simp add: drop_map take_map flip: add.assoc)

text \<open>
  What a call of \<open>push_data\<close> that queues the frame does: it stores the slice \<open>s2..e2\<close> that is new at its ends, drops
  frames inside it and removes the slice from the gaps.
\<close>

definition stores ::
    "(nat \<Rightarrow> byte) \<Rightarrow> ByteCount \<Rightarrow> ByteCount \<Rightarrow> StreamFrame \<Rightarrow> streamFrameSorter \<Rightarrow> streamFrameSorter \<Rightarrow> bool" where
  "stores D s2 e2 F s s' \<longleftrightarrow>
     (\<exists>q'. queuedFrames s' = q'(s2 \<mapsto> F) \<and>
       (\<forall>x. q' x = queuedFrames s x \<or> (q' x = None \<and> s2 < x \<and> x < e2))) \<and>
     readPosition s' = readPosition s \<and> s2 < e2 \<and> sf_Offset F = s2 \<and> sf_Data F = map D [unat s2..<unat e2] \<and>
     (\<forall>x. in_gap (gaps s') x \<longleftrightarrow> in_gap (gaps s) x \<and> \<not> (unat s2 \<le> x \<and> x < unat e2)) \<and>
     in_gap (gaps s) (unat s2) \<and>
     (in_gap (gaps s') (unat e2) \<or> (\<exists>g\<in>set (gaps s). bi_End g = e2)) \<and>
     (\<forall>g\<in>set (gaps s'). bi_End g = s2 \<or> (\<exists>h\<in>set (gaps s). bi_End g = bi_End h \<and> (bi_End g < s2 \<or> e2 \<le> bi_End g)))"

lemma adjust_ends:
  assumes "g \<in> set (adjust_gaps s e gap eg b inl)" "b \<longrightarrow> eg = gap" "s < bi_End gap" "\<not> b \<longrightarrow> bi_End gap \<le> e"
    "e \<le> bi_End eg" "bi_Start gap \<le> s" "s < e"
  shows "bi_End g = s \<or> (bi_End g = bi_End eg \<and> e \<le> bi_End g)"
  using assms by (auto simp: adjust_gaps_def split: if_splits)

text \<open>The part behind the two loops, with the cuts at both ends resolved.\<close>

definition queue_slice ::
    "StreamFrame \<Rightarrow> ByteCount \<Rightarrow> ByteCount \<Rightarrow> ByteInterval list \<Rightarrow> (ByteCount \<rightharpoonup> StreamFrame) \<Rightarrow> streamFrameSorter
     \<Rightarrow> error option \<times> streamFrameSorter" where
  "queue_slice f s2 e2 gs q s =
     (let F = f\<lparr>sf_Offset := s2, sf_Data :=
                take (unat e2 - unat s2) (drop (unat s2 - unat (sf_Offset f)) (sf_Data f))\<rparr>
      in if length gs > MaxStreamFrameSorterGaps
         then (Some ErrTooManyGapsInReceivedStreamData, s\<lparr>gaps := gs, queuedFrames := q\<rparr>)
         else (None, s\<lparr>gaps := gs, queuedFrames := q(s2 \<mapsto> F)\<rparr>))"

lemma push_data_slice:
  fixes f :: StreamFrame
  defines "start \<equiv> sf_Offset f" and "end' \<equiv> sf_Offset f + sf_DataLen f"
  assumes len: "unat start + length (sf_Data f) < 2 ^ 64"
    and G: "find_gap start end' (gaps s) = Inr (before, gap, after)"
    and E: "find_end_gap end' True gap after (queuedFrames s) = Inr (eg, b, inl, after', q)"
    and le: "bi_Start gap < end'" "bi_Start eg < end'" "start < bi_End eg" "bi_Start gap < bi_End eg"
  shows "push_data f s = queue_slice f (max start (bi_Start gap)) (min end' (bi_End eg))
    (before @ adjust_gaps (max start (bi_Start gap)) (min end' (bi_End eg)) gap eg b inl @ after') q s"
proof -
  have n: "unat end' = unat start + length (sf_Data f)"
    using len by (simp add: end'_def start_def sf_DataLen_def unat_word_ariths unat_of_nat)
  define add where "add = (if start < bi_Start gap then bi_Start gap - start else 0)"
  define cut where "cut = (if end' > bi_End eg then end' - bi_End eg else 0)"
  have s2: "start + add = max start (bi_Start gap)" by (auto simp: add_def max_def)
  have e2: "end' - cut = min end' (bi_End eg)" by (auto simp: cut_def min_def)
  have ua: "unat add = unat (max start (bi_Start gap)) - unat start"
    by (auto simp: add_def max_def unat_sub word_le_nat_alt word_less_nat_alt)
  have uc: "unat cut = unat end' - unat (min end' (bi_End eg))"
    by (auto simp: cut_def min_def unat_sub word_le_nat_alt word_less_nat_alt)
  let ?d = "drop (unat add) (sf_Data f)"
  have l: "length ?d = unat end' - unat (max start (bi_Start gap))"
    using n ua by (auto simp: max_def word_le_nat_alt)
  have "length ?d < 2 ^ 64" using len by simp
  then have "unat (of_nat (length ?d) :: u64) = length ?d" by (simp add: unat_of_nat)
  then have "unat (of_nat (length ?d) :: u64) = unat end' - unat (max start (bi_Start gap))" using l by simp
  moreover have "unat cut \<le> unat end' - unat (max start (bi_Start gap))"
    using le by (auto simp: uc min_def max_def word_le_nat_alt word_less_nat_alt)
  ultimately have "unat (of_nat (length ?d) - cut :: u64) = unat (min end' (bi_End eg)) - unat (max start (bi_Start gap))"
    using uc by (subst unat_sub) (auto simp: word_le_nat_alt min_def)
  then show ?thesis
    using G E unfolding push_data_def queue_slice_def Let_def end'_def [symmetric]
    unfolding start_def [symmetric]
    by (simp add: sf_DataLen_def add_def [symmetric] cut_def [symmetric] s2 e2 ua)
qed

lemma gaps_ok_ends: "gaps_ok lo gs \<Longrightarrow> g \<in> set gs \<Longrightarrow> lo < unat (bi_End g) \<and> bi_Start g < bi_End g"
  by (induction gs arbitrary: lo) (fastforce split: if_splits simp: word_less_nat_alt)+

lemma gaps_mono: "gaps_ok lo (gap # gs) \<Longrightarrow> g \<in> set (gap # gs) \<Longrightarrow> bi_End gap \<le> bi_End g"
  using gaps_ok_ends [of "unat (bi_End gap) + 1" gs g]
  by (auto simp: word_le_nat_alt split: if_splits)

lemma end_gap_order:
  assumes "gaps_ok hi (gap # after)" "gap # after = mid @ eg # after'"
    "\<forall>g\<in>set mid. unat (bi_End g) < unat (bi_Start eg)"
  shows "bi_End gap \<le> bi_End eg" "bi_Start gap < bi_End gap" "bi_Start eg < bi_End eg"
    "mid \<noteq> [] \<Longrightarrow> bi_End gap < bi_Start eg" "g \<in> set after' \<Longrightarrow> bi_End eg < bi_End g"
proof -
  show s1: "bi_Start gap < bi_End gap" using gaps_ok_ends [OF assms(1), of gap] by simp
  show s2: "bi_Start eg < bi_End eg" using gaps_ok_ends [OF assms(1), of eg] assms(2) by simp
  show lt: "bi_End gap < bi_Start eg" if "mid \<noteq> []"
    using that assms(2,3) by (cases mid) (auto simp: word_less_nat_alt)
  show "bi_End gap \<le> bi_End eg"
    using lt s1 s2 assms(2) by (cases "mid = []") auto
  obtain hi2 where "gaps_ok hi2 (eg # after')"
    using assms(1) gaps_ok_append [of "eg # after'" hi mid] unfolding assms(2) by blast
  then show "bi_End eg < bi_End g" if "g \<in> set after'"
    using that gaps_ok_ends [of "unat (bi_End eg) + 1" after' g] by (auto simp: word_less_nat_alt split: if_splits)
qed

lemma adjust_found:
  assumes ok: "gaps_ok hi (gap # after)" and m: "gap # after = mid @ eg # after'"
    "\<forall>g\<in>set mid. unat (bi_End g) < unat (bi_Start eg)"
    and b: "b \<longleftrightarrow> mid = []" "inl \<longleftrightarrow> b \<or> e < bi_End eg"
    and s: "bi_Start gap \<le> s" "s < bi_End gap" "s < e" "bi_Start eg < e" "e \<le> bi_End eg" "e < MaxByteCount"
  shows "gaps_ok hi (adjust_gaps s e gap eg b inl @ after')"
    "in_gap (adjust_gaps s e gap eg b inl @ after') x \<longleftrightarrow> in_gap (gap # after) x \<and> \<not> (unat s \<le> x \<and> x < unat e)"
    "g \<in> set (adjust_gaps s e gap eg b inl @ after') \<Longrightarrow>
       bi_End g = s \<or> (\<exists>h\<in>set (gap # after). bi_End g = bi_End h \<and> e \<le> bi_End g)"
proof -
  note ord = end_gap_order [OF ok m]
  show "gaps_ok hi (adjust_gaps s e gap eg b inl @ after')"
  proof (cases mid)
    case Nil
    then show ?thesis using m(1) b adjust_single(1) [of hi gap after' s e inl] ok s by auto
  next
    case (Cons g' mid')
    then show ?thesis using m(1) b adjust_multi(1) [of hi gap mid' eg after' s e inl] ok s by auto
  qed
  show "in_gap (adjust_gaps s e gap eg b inl @ after') x \<longleftrightarrow> in_gap (gap # after) x \<and> \<not> (unat s \<le> x \<and> x < unat e)"
  proof (cases mid)
    case Nil
    then show ?thesis using m(1) b adjust_single(2) [of hi gap after' s e inl x] ok s by auto
  next
    case (Cons g' mid')
    then show ?thesis using m(1) b adjust_multi(2) [of hi gap mid' eg after' s e inl x] ok s by auto
  qed
  assume g: "g \<in> set (adjust_gaps s e gap eg b inl @ after')"
  have "eg \<in> set (gap # after)" "set after' \<subseteq> set (gap # after)" unfolding m(1) by auto
  moreover have "b \<longrightarrow> eg = gap" "\<not> b \<longrightarrow> bi_End gap \<le> e"
    using m(1) b ord(4) s(4) by auto
  ultimately show "bi_End g = s \<or> (\<exists>h\<in>set (gap # after). bi_End g = bi_End h \<and> e \<le> bi_End g)"
    using g adjust_ends [of g s e gap eg b inl] s ord(5) by (fastforce dest: order.strict_implies_order)
qed

text \<open>The result of \<open>queue_slice\<close> when there are not too many gaps.\<close>

lemma queue_slice_stores:
  assumes ok: "gaps_ok lo (gaps s)" and f: "frame_of D f" "unat (sf_Offset f) + length (sf_Data f) = unat e" "sf_Offset f < e"
    and g: "gaps s = before @ gap # after" "\<forall>g\<in>set before. bi_End g < sf_Offset f"
    and hi: "gaps_before lo hi before" "gaps_ok hi (gap # after)"
    and m: "gap # after = mid @ eg # after'" "\<forall>g\<in>set mid. unat (bi_End g) < unat (bi_Start eg)"
    and b: "b \<longleftrightarrow> mid = []" "inl \<longleftrightarrow> b \<or> e2 < bi_End eg" "e2 = e \<or> e2 = bi_End eg"
    and s: "bi_Start gap \<le> s2" "s2 < bi_End gap" "s2 < e2" "bi_Start eg < e2" "e2 \<le> bi_End eg" "e2 < MaxByteCount"
      "sf_Offset f \<le> s2" "e2 \<le> e"
    and q: "\<forall>x. q x = (if \<exists>g\<in>set mid. x = bi_End g then None else queuedFrames s x)"
    and r: "queue_slice f s2 e2 (before @ adjust_gaps s2 e2 gap eg b inl @ after') q s = (None, s')"
  shows "gaps_ok lo (gaps s')" "\<exists>F. stores D s2 e2 F s s'"
proof -
  let ?gs = "before @ adjust_gaps s2 e2 gap eg b inl @ after'"
  note adj = adjust_found [OF hi(2) m b(1,2) s(1-6)]
  define F where "F = f\<lparr>sf_Offset := s2, sf_Data :=
      take (unat e2 - unat s2) (drop (unat s2 - unat (sf_Offset f)) (sf_Data f))\<rparr>"
  have s': "s' = s\<lparr>gaps := ?gs, queuedFrames := q(s2 \<mapsto> F)\<rparr>"
    using r by (simp add: queue_slice_def F_def Let_def split: if_splits)
  have "adjust_gaps s2 e2 gap eg b inl @ after' \<noteq> []" using adj(1) by (metis gaps_ok.simps(1))
  then show "gaps_ok lo (gaps s')"
    using gaps_ok_append hi(1) adj(1) by (auto simp: s')
  have nat: "unat (bi_Start gap) \<le> unat s2" "hi \<le> unat (bi_Start gap)" "unat (sf_Offset f) \<le> unat s2"
    "unat s2 < unat e2" "unat e2 \<le> unat e"
    using s hi(2) by (simp_all add: word_le_nat_alt word_less_nat_alt)
  have bef: "in_gap before x \<Longrightarrow> x < unat s2" for x using gaps_before_bounds(2) [OF hi(1), of x] nat by linarith
  have in_gap: "in_gap ?gs x \<longleftrightarrow> in_gap (gaps s) x \<and> \<not> (unat s2 \<le> x \<and> x < unat e2)" for x
    using adj(2) [of x] bef [of x] by (auto simp: g(1) simp del: in_gap_simps(2))
  have "sf_Data f = map D [unat (sf_Offset f)..<unat e]" using f(1,2) by (simp add: frame_of_def)
  then have F: "sf_Data F = map D [unat s2..<unat e2]"
    using slice_drop_take [of "unat (sf_Offset f)" "unat s2 - unat (sf_Offset f)" "unat e2" "unat e" D] nat
    by (simp add: F_def)
  have "in_gap ?gs (unat e2) \<or> (\<exists>g\<in>set (gaps s). bi_End g = e2)"
  proof (cases "e2 = bi_End eg")
    case True
    moreover have "eg \<in> set (gaps s)" unfolding g(1) m(1) by simp
    ultimately show ?thesis by blast
  next
    case False
    then have "in_gap (gap # after) (unat e2)"
      using s(4,5) unfolding m(1) by (simp add: word_less_nat_alt order_le_less)
    then show ?thesis using in_gap by (simp add: g(1) del: in_gap_simps(2))
  qed
  moreover have "q x = queuedFrames s x \<or> (q x = None \<and> s2 < x \<and> x < e2)" for x
  proof -
    have "s2 < bi_End g \<and> bi_End g < e2" if "g \<in> set mid" for g
    proof -
      have "bi_End g < e2" using that m(2) s(4) by (auto simp: word_less_nat_alt)
      moreover have "bi_End gap \<le> bi_End g"
        using that gaps_mono [OF hi(2), of g] m(1) by (metis Un_iff list.set_intros(1) set_append)
      ultimately show ?thesis using s(2) by auto
    qed
    then show ?thesis using q by auto
  qed
  moreover have "\<forall>g\<in>set ?gs. bi_End g = s2 \<or> (\<exists>h\<in>set (gaps s). bi_End g = bi_End h \<and> (bi_End g < s2 \<or> e2 \<le> bi_End g))"
    using adj(3) g s(7) by (fastforce simp del: set_append simp: set_append)
  moreover have "in_gap (gaps s) (unat s2)" using s(1,2) by (simp add: g(1) word_le_nat_alt word_less_nat_alt)
  ultimately show "\<exists>F. stores D s2 e2 F s s'"
    unfolding stores_def using in_gap F s(3) by (intro exI [of _ F]) (simp add: s' F_def, blast)
qed

lemma gaps_ok_hd: "gaps_ok lo gs \<Longrightarrow> in_gap gs x \<Longrightarrow> unat (bi_Start (hd gs)) \<le> x"
  using gaps_ok_lower [of "unat (bi_Start (hd gs))" gs x] by (cases gs) auto

lemma gaps_slice:
  assumes ok: "gaps_ok hi (gap # after)" and m: "gap # after = mid @ eg # after'"
    "\<forall>g\<in>set mid. unat (bi_End g) < unat (bi_Start eg)"
    and x: "in_gap (gap # after) x" "x < unat e" and e: "bi_End eg \<le> e \<longrightarrow> after' \<noteq> [] \<and> e \<le> bi_Start (hd after')"
  shows "unat (bi_Start gap) \<le> x" "x < unat (bi_End eg)"
proof -
  show "unat (bi_Start gap) \<le> x" using gaps_ok_hd [OF ok x(1)] by simp
  note ord = end_gap_order [OF ok m]
  obtain hi2 where hi2: "gaps_ok hi2 (eg # after')"
    using ok gaps_ok_append [of "eg # after'" hi mid] unfolding m(1) by blast
  consider (mid) "in_gap mid x" | (eg) "x < unat (bi_End eg)" | (after) "in_gap after' x"
    using x(1) unfolding m(1) by auto
  then show "x < unat (bi_End eg)"
  proof cases
    case mid
    then show ?thesis using m(2) ord(3) by (fastforce simp: in_gap_def word_less_nat_alt)
  next
    case after
    then have "after' \<noteq> []" by auto
    then have "unat (bi_Start (hd after')) \<le> x"
      using hi2 after gaps_ok_hd [of "unat (bi_End eg) + 1" after' x] by auto
    then show ?thesis using e x(2) by (auto simp: word_le_nat_alt)
  qed
qed

lemma push_data_stores:
  fixes f :: StreamFrame
  defines "start \<equiv> sf_Offset f" and "n \<equiv> length (sf_Data f)"
  assumes ok: "gaps_ok lo (gaps s)" and f: "frame_of D f" "sf_Data f \<noteq> []" "unat start + n < unat MaxByteCount"
    and ne: "\<forall>g\<in>set (gaps s). start \<noteq> bi_End g"
  shows "push_data f s = (Some ErrDuplicateStreamData, s) \<and> (\<forall>x. unat start \<le> x \<and> x < unat start + n \<longrightarrow> \<not> in_gap (gaps s) x)
    \<or> fst (push_data f s) = Some ErrTooManyGapsInReceivedStreamData
    \<or> fst (push_data f s) = None \<and> gaps_ok lo (gaps (snd (push_data f s))) \<and>
      (\<exists>s2 e2 F. stores D s2 e2 F s (snd (push_data f s)) \<and> start \<le> s2 \<and> unat e2 \<le> unat start + n \<and>
        (\<forall>x. in_gap (gaps s) x \<and> unat start \<le> x \<and> x < unat start + n \<longrightarrow> unat s2 \<le> x \<and> x < unat e2))"
proof -
  let ?e = "start + sf_DataLen f"
  have max: "unat MaxByteCount = 2 ^ 64 - 1" by (simp add: MaxByteCount_def)
  then have e: "unat start + n = unat ?e"
    using f(3) by (simp add: sf_DataLen_def n_def unat_word_ariths unat_of_nat)
  moreover have "0 < n" using f(2) by (simp add: n_def)
  ultimately have lt: "start < ?e" "?e < MaxByteCount" using f(3) by (simp_all add: word_less_nat_alt)
  show ?thesis
  proof (cases "find_gap start ?e (gaps s)")
    case (Inl err)
    have "err = ErrDuplicateStreamData" "\<forall>x. unat start \<le> x \<and> x < unat ?e \<longrightarrow> \<not> in_gap (gaps s) x"
      using find_gap_duplicate [OF ok lt(1) Inl] by auto
    then show ?thesis using Inl e by (simp add: push_data_def start_def)
  next
    case (Inr r)
    then obtain before gap after where G: "find_gap start ?e (gaps s) = Inr (before, gap, after)" by (cases r) auto
    have g: "gaps s = before @ gap # after" "\<forall>g\<in>set before. bi_End g < start" "bi_Start gap < ?e" "start < bi_End gap"
      using find_gap_found [OF G] ne by (auto simp: order_le_less)
    obtain hi where hi: "gaps_before lo hi before" "gaps_ok hi (gap # after)"
      using ok gaps_ok_append [of "gap # after" lo before] g(1) by auto
    obtain mid eg b inl after' q where E: "find_end_gap ?e True gap after (queuedFrames s) = Inr (eg, b, inl, after', q)"
      and m: "gap # after = mid @ eg # after'" "bi_Start eg < ?e" "b \<longleftrightarrow> mid = []" "inl \<longleftrightarrow> b \<or> ?e < bi_End eg"
        "\<forall>g\<in>set mid. unat (bi_End g) < unat (bi_Start eg)"
        "bi_End eg \<le> ?e \<longrightarrow> after' \<noteq> [] \<and> ?e \<le> bi_Start (hd after')"
        "\<forall>x. q x = (if \<exists>g\<in>set mid. x = bi_End g then None else queuedFrames s x)"
      using find_end_gap_found [OF hi(2) g(3) lt(2), of True "queuedFrames s"] by auto
    note ord = end_gap_order [OF hi(2) m(1,5)]
    have le: "start < bi_End eg" "bi_Start gap < bi_End eg" using g(4) ord by (meson order.strict_trans2)+
    define s2 e2 where "s2 = max start (bi_Start gap)" and "e2 = min ?e (bi_End eg)"
    let ?gs = "before @ adjust_gaps s2 e2 gap eg b inl @ after'"
    have P: "push_data f s = queue_slice f s2 e2 ?gs q s"
      unfolding s2_def e2_def
      using push_data_slice [of f s before gap after eg b inl after' q] G E g(3) m(2) le f(3) max
      by (simp add: start_def n_def)
    have o: "bi_Start gap \<le> s2" "s2 < bi_End gap" "s2 < e2" "bi_Start eg < e2" "e2 \<le> bi_End eg" "e2 < MaxByteCount"
      "start \<le> s2" "e2 \<le> ?e" "e2 = ?e \<or> e2 = bi_End eg" "inl \<longleftrightarrow> b \<or> e2 < bi_End eg"
      using g(3,4) m(2,4) le ord lt by (auto simp: s2_def e2_def max_def min_def)
    have slice: "unat s2 \<le> x \<and> x < unat e2" if "in_gap (gaps s) x" "unat start \<le> x" "x < unat ?e" for x
    proof -
      have "in_gap (gap # after) x"
        using that(1,2) g(1,2) by (fastforce simp: in_gap_def word_less_nat_alt)
      from gaps_slice [OF hi(2) m(1,5) this that(3) m(6)] that(2,3)
      show ?thesis by (simp add: s2_def e2_def max_def min_def)
    qed
    show ?thesis
    proof (cases "length ?gs > MaxStreamFrameSorterGaps")
      case True
      then show ?thesis unfolding P by (simp add: queue_slice_def)
    next
      case False
      then obtain s' where s': "queue_slice f s2 e2 ?gs q s = (None, s')" by (simp add: queue_slice_def Let_def)
      have "gaps_ok lo (gaps s')" "\<exists>F. stores D s2 e2 F s s'"
        using queue_slice_stores [OF ok f(1) e [unfolded start_def n_def] lt(1) [unfolded start_def] g(1) g(2) [unfolded start_def]
            hi m(1,5,3) o(10) o(9) [unfolded start_def] o(1-6)
            o(7) [unfolded start_def] o(8) [unfolded start_def] m(7) s'] by (auto simp: start_def)
      moreover have "unat e2 \<le> unat ?e" using o(8) by (simp add: word_le_nat_alt)
      ultimately show ?thesis using P s' o(7) slice e by auto
    qed
  qed
qed

subsection \<open>Received bytes can be read\<close>

text \<open>
  From position \<open>x\<close> on, the queued frames follow each other without a hole up to the next gap.
\<close>

inductive chain :: "(ByteCount \<rightharpoonup> StreamFrame) \<Rightarrow> ByteInterval list \<Rightarrow> nat \<Rightarrow> bool"
  for q :: "ByteCount \<rightharpoonup> StreamFrame" and gs :: "ByteInterval list" where
  chain_stop: "in_gap gs x \<Longrightarrow> chain q gs x"
| chain_step: "\<not> in_gap gs x \<Longrightarrow> q (of_nat x) = Some f \<Longrightarrow> sf_Data f \<noteq> [] \<Longrightarrow>
     (\<And>y. x \<le> y \<Longrightarrow> y < x + length (sf_Data f) \<Longrightarrow> \<not> in_gap gs y) \<Longrightarrow>
     chain q gs (x + length (sf_Data f)) \<Longrightarrow> chain q gs x"

inductive_cases chain_coveredE: "chain q gs x"

lemma chain_less: "chain q gs x \<Longrightarrow> x < 2 ^ 64"
proof (induction rule: chain.induct)
  case (chain_stop x)
  then obtain g :: ByteInterval where "x < unat (bi_End g)" by (auto simp: in_gap_def)
  also have "unat (bi_End g) < 2 ^ 64" using unsigned_less [of "bi_End g"] by simp
  finally show ?case .
qed simp

lemma stores_queue:
  assumes "stores D s2 e2 F s s'"
  shows "queuedFrames s' s2 = Some F"
    "k \<noteq> s2 \<Longrightarrow> \<not> (s2 < k \<and> k < e2) \<Longrightarrow> queuedFrames s' k = queuedFrames s k"
    "k \<noteq> s2 \<Longrightarrow> queuedFrames s' k = queuedFrames s k \<or> queuedFrames s' k = None"
proof -
  obtain q' where q: "queuedFrames s' = q'(s2 \<mapsto> F)"
    "\<forall>x. q' x = queuedFrames s x \<or> (q' x = None \<and> s2 < x \<and> x < e2)"
    using assms by (auto simp: stores_def)
  show "queuedFrames s' s2 = Some F" using q(1) by simp
  show "k \<noteq> s2 \<Longrightarrow> \<not> (s2 < k \<and> k < e2) \<Longrightarrow> queuedFrames s' k = queuedFrames s k"
    "k \<noteq> s2 \<Longrightarrow> queuedFrames s' k = queuedFrames s k \<or> queuedFrames s' k = None"
    using q(1) q(2) [rule_format, of k] by auto
qed

lemma stores_gaps:
  assumes "stores D s2 e2 F s s'"
  shows "in_gap (gaps s') x \<longleftrightarrow> in_gap (gaps s) x \<and> \<not> (unat s2 \<le> x \<and> x < unat e2)"
    "in_gap (gaps s) (unat s2)" "unat s2 < unat e2" "s2 < e2"
    "in_gap (gaps s') (unat e2) \<or> (\<exists>g\<in>set (gaps s). bi_End g = e2)"
    "g \<in> set (gaps s') \<Longrightarrow> bi_End g = s2 \<or> (\<exists>h\<in>set (gaps s). bi_End g = bi_End h \<and> (bi_End g < s2 \<or> e2 \<le> bi_End g))"
    "sf_Data F = map D [unat s2..<unat e2]" "sf_Offset F = s2" "readPosition s' = readPosition s"
proof -
  show lt: "s2 < e2" using assms unfolding stores_def by blast
  then show "unat s2 < unat e2" by (simp add: word_less_nat_alt)
qed (use assms in \<open>unfold stores_def, blast+\<close>)

text \<open>Storing a slice keeps the chains that start before it and those that start behind it.\<close>

lemma chain_behind:
  assumes "chain (queuedFrames s) (gaps s) x" "stores D s2 e2 F s s'" "unat e2 \<le> x"
  shows "chain (queuedFrames s') (gaps s') x"
  using assms(1,3)
proof (induction rule: chain.induct)
  case (chain_stop x)
  then show ?case using stores_gaps(1) [OF assms(2)] by (intro chain.chain_stop) simp
next
  case (chain_step x f)
  have x: "unat (of_nat x :: u64) = x" using chain_less [OF chain.chain_step [OF chain_step(1-5)]]
    by (simp add: unat_of_nat)
  then have "of_nat x \<noteq> s2" "\<not> of_nat x < e2"
    using chain_step(7) stores_gaps(3) [OF assms(2)] by (auto simp: word_less_nat_alt)
  then have "queuedFrames s' (of_nat x) = Some f" using stores_queue(2) [OF assms(2)] chain_step(2) by simp
  then show ?case
  proof (rule chain.chain_step [rotated])
    show "\<not> in_gap (gaps s') y" if "x \<le> y" "y < x + length (sf_Data f)" for y
      using chain_step(4) [OF that] stores_gaps(1) [OF assms(2)] by simp
    show "chain (queuedFrames s') (gaps s') (x + length (sf_Data f))" using chain_step(6,7) by simp
  qed (use chain_step(1,3) stores_gaps(1) [OF assms(2)] in auto)
qed

lemma chain_before:
  assumes "chain (queuedFrames s) (gaps s) x" "stores D s2 e2 F s s'" "x \<le> unat s2"
    "chain (queuedFrames s') (gaps s') (unat s2)"
  shows "chain (queuedFrames s') (gaps s') x"
  using assms(1,3)
proof (induction rule: chain.induct)
  case (chain_stop x)
  then show ?case
    using assms(4) stores_gaps(1) [OF assms(2)] by (cases "x = unat s2") (simp_all add: chain.chain_stop)
next
  case (chain_step x f)
  have s2: "in_gap (gaps s) (unat s2)" by (rule stores_gaps(2) [OF assms(2)])
  then have "x \<noteq> unat s2" using chain_step(1) by auto
  then have lt: "x < unat s2" using chain_step(7) by simp
  have le: "x + length (sf_Data f) \<le> unat s2"
    using chain_step(4) [of "unat s2"] s2 lt by (meson leI less_imp_le)
  have x: "unat (of_nat x :: u64) = x" using lt chain_less [OF chain.chain_step [OF chain_step(1-5)]]
    by (simp add: unat_of_nat)
  then have "of_nat x \<noteq> s2" "\<not> s2 < of_nat x" using lt by (auto simp: word_less_nat_alt)
  then have "queuedFrames s' (of_nat x) = Some f" using stores_queue(2) [OF assms(2)] chain_step(2) by simp
  then show ?case
  proof (rule chain.chain_step [rotated])
    show "\<not> in_gap (gaps s') y" if "x \<le> y" "y < x + length (sf_Data f)" for y
      using chain_step(4) [OF that] stores_gaps(1) [OF assms(2)] by simp
    show "chain (queuedFrames s') (gaps s') (x + length (sf_Data f))" using chain_step(6) le by simp
  qed (use chain_step(1,3) stores_gaps(1) [OF assms(2)] in auto)
qed

lemma chain_slice:
  assumes "stores D s2 e2 F s s'" "e2 \<noteq> MaxByteCount"
    "\<And>g. g \<in> set (gaps s) \<Longrightarrow> bi_End g \<noteq> MaxByteCount \<Longrightarrow> chain (queuedFrames s) (gaps s) (unat (bi_End g))"
  shows "chain (queuedFrames s') (gaps s') (unat s2)"
proof -
  note S = stores_gaps [OF assms(1)]
  have "chain (queuedFrames s') (gaps s') (unat e2)"
    using S(5) assms(2,3) chain_behind [OF _ assms(1) order_refl] by (auto intro: chain_stop)
  then have "chain (queuedFrames s') (gaps s') (unat s2 + length (sf_Data F))" using S(3,7) by simp
  then show ?thesis
  proof (rule chain_step [rotated 4])
    show "queuedFrames s' (of_nat (unat s2)) = Some F" using stores_queue(1) [OF assms(1)] by simp
  qed (use S(1,3,7) in auto)
qed

subsection \<open>The invariant of the sorter\<close>

text \<open>\<open>N\<close> is the length of the stream; the only empty frame carries the FIN at offset \<open>N\<close>.\<close>

definition frame_ok :: "(nat \<Rightarrow> byte) \<Rightarrow> nat \<Rightarrow> StreamFrame \<Rightarrow> bool" where
  "frame_ok D N f \<longleftrightarrow>
     frame_of D f \<and> unat (sf_Offset f) + length (sf_Data f) \<le> N \<and>
     (sf_Data f = [] \<longrightarrow> sf_FinBit f \<and> unat (sf_Offset f) = N)"

definition sorter_inv :: "(nat \<Rightarrow> byte) \<Rightarrow> nat \<Rightarrow> streamFrameSorter \<Rightarrow> bool" where
  "sorter_inv D N s \<longleftrightarrow>
     N < unat MaxByteCount \<and> gaps_ok (unat (readPosition s)) (gaps s) \<and>
     (\<forall>x. N \<le> x \<and> x < unat MaxByteCount \<longrightarrow> in_gap (gaps s) x) \<and>
     (\<forall>k f. queuedFrames s k = Some f \<longrightarrow>
        sf_Offset f = k \<and> frame_of D f \<and> unat k + length (sf_Data f) \<le> N \<and> (sf_Data f = [] \<longrightarrow> unat k = N) \<and>
        (\<forall>x. unat k \<le> x \<and> x < unat k + length (sf_Data f) \<longrightarrow> \<not> in_gap (gaps s) x)) \<and>
     chain (queuedFrames s) (gaps s) (unat (readPosition s)) \<and>
     (\<forall>g\<in>set (gaps s). bi_End g \<noteq> MaxByteCount \<longrightarrow> chain (queuedFrames s) (gaps s) (unat (bi_End g)))"

lemma sorter_invD:
  assumes "sorter_inv D N s"
  shows "N < unat MaxByteCount" "gaps_ok (unat (readPosition s)) (gaps s)"
    "N \<le> x \<Longrightarrow> x < unat MaxByteCount \<Longrightarrow> in_gap (gaps s) x"
    "queuedFrames s k = Some f \<Longrightarrow> sf_Offset f = k \<and> frame_of D f \<and> unat k + length (sf_Data f) \<le> N"
    "queuedFrames s k = Some f \<Longrightarrow> sf_Data f = [] \<Longrightarrow> unat k = N"
    "queuedFrames s k = Some f \<Longrightarrow> unat k \<le> x \<Longrightarrow> x < unat k + length (sf_Data f) \<Longrightarrow> \<not> in_gap (gaps s) x"
    "chain (queuedFrames s) (gaps s) (unat (readPosition s))"
    "g \<in> set (gaps s) \<Longrightarrow> bi_End g \<noteq> MaxByteCount \<Longrightarrow> chain (queuedFrames s) (gaps s) (unat (bi_End g))"
  using assms unfolding sorter_inv_def by blast+

lemma new_sorter_inv: "N < unat MaxByteCount \<Longrightarrow> sorter_inv D N newStreamFrameSorter"
  by (auto simp: sorter_inv_def newStreamFrameSorter_def MaxByteCount_def intro: chain_stop)

lemma gaps_end_free: "gaps_ok lo gs \<Longrightarrow> g \<in> set gs \<Longrightarrow> \<not> in_gap gs (unat (bi_End g))"
proof (induction gs arbitrary: lo)
  case (Cons h gs)
  show ?case
  proof (cases "g = h")
    case True
    then show ?thesis using Cons.prems(1) gaps_ok_lower [of "unat (bi_End h) + 1" gs "unat (bi_End h)"] by (auto split: if_splits)
  next
    case False
    then have g: "g \<in> set gs" using Cons.prems(2) by simp
    then have ok: "gaps_ok (unat (bi_End h) + 1) gs" using Cons.prems(1) by (auto split: if_splits)
    then show ?thesis using Cons.IH [OF ok g] gaps_ok_ends [OF ok g] by simp
  qed
qed simp

lemma chain_upd:
  assumes "chain q gs x" "in_gap gs (unat k) \<or> unat k < x"
  shows "chain (q(k := v)) gs x"
  using assms
proof (induction rule: chain.induct)
  case (chain_step x f)
  have "unat (of_nat x :: u64) = x" using chain_less [OF chain.chain_step [OF chain_step(1-5)]]
    by (simp add: unat_of_nat)
  then have "of_nat x \<noteq> k" using chain_step(1,7) by auto
  then show ?case
    using chain_step by (intro chain.chain_step [of gs x "q(k := v)" f]) (auto simp: fun_upd_def)
qed (simp add: chain.chain_stop)

lemma stores_inv:
  assumes inv: "sorter_inv D N s" and st: "stores D s2 e2 F s s'" and ok: "gaps_ok (unat (readPosition s)) (gaps s')"
    and e: "unat e2 \<le> N"
  shows "sorter_inv D N s'"
proof -
  note I = sorter_invD [OF inv] and S = stores_gaps [OF st]
  have e2: "e2 \<noteq> MaxByteCount" using e I(1) by auto
  have c: "chain (queuedFrames s') (gaps s') (unat s2)" by (rule chain_slice [OF st e2 I(8)])
  have rp: "unat (readPosition s) \<le> unat s2" by (rule gaps_ok_lower [OF I(2) S(2)])
  have "chain (queuedFrames s') (gaps s') (unat (bi_End g))" if "g \<in> set (gaps s')" "bi_End g \<noteq> MaxByteCount" for g
    using S(6) [OF that(1)] c I(8) that(2) chain_before [OF _ st _ c] chain_behind [OF _ st]
    by (auto simp: word_less_nat_alt word_le_nat_alt)
  moreover have "chain (queuedFrames s') (gaps s') (unat (readPosition s))"
    by (rule chain_before [OF I(7) st rp c])
  moreover have "sf_Offset f = k \<and> frame_of D f \<and> unat k + length (sf_Data f) \<le> N \<and> (sf_Data f = [] \<longrightarrow> unat k = N) \<and>
      (\<forall>x. unat k \<le> x \<and> x < unat k + length (sf_Data f) \<longrightarrow> \<not> in_gap (gaps s') x)"
    if "queuedFrames s' k = Some f" for k f
  proof (cases "k = s2")
    case True
    then have "f = F" using stores_queue(1) [OF st] that by simp
    then show ?thesis using True S(1,3,7,8) e by (auto simp: frame_of_def)
  next
    case False
    then have "queuedFrames s k = Some f" using stores_queue(3) [OF st False] that by auto
    then show ?thesis using I(4-6) S(1) by blast
  qed
  ultimately show ?thesis
    unfolding sorter_inv_def S(9) using I(1,3) ok S(1) e by auto
qed

definition covers :: "StreamFrame \<Rightarrow> nat \<Rightarrow> bool" where
  "covers f x \<longleftrightarrow> unat (sf_Offset f) \<le> x \<and> x < unat (sf_Offset f) + length (sf_Data f)"

text \<open>
  What a push without an error other than duplicate data means: the invariant holds and exactly
  the bytes of the frame are no longer missing.
\<close>

definition pushed :: "(nat \<Rightarrow> byte) \<Rightarrow> nat \<Rightarrow> StreamFrame \<Rightarrow> streamFrameSorter \<Rightarrow> streamFrameSorter \<Rightarrow> bool" where
  "pushed D N f s s' \<longleftrightarrow>
     sorter_inv D N s' \<and> readPosition s' = readPosition s \<and>
     (\<forall>x. in_gap (gaps s') x \<longleftrightarrow> in_gap (gaps s) x \<and> \<not> covers f x)"

definition push_result :: "(nat \<Rightarrow> byte) \<Rightarrow> nat \<Rightarrow> StreamFrame \<Rightarrow> streamFrameSorter \<Rightarrow> error option \<times> streamFrameSorter \<Rightarrow> bool" where
  "push_result D N f s r \<longleftrightarrow>
     fst r = Some ErrTooManyGapsInReceivedStreamData \<or>
     (fst r = None \<or> fst r = Some ErrDuplicateStreamData) \<and> pushed D N f s (snd r)"

lemma push_data_result:
  assumes inv: "sorter_inv D N s" and f: "frame_of D f" "sf_Data f \<noteq> []"
    "unat (sf_Offset f) + length (sf_Data f) \<le> N"
    and ne: "\<forall>g\<in>set (gaps s). sf_Offset f \<noteq> bi_End g"
  shows "push_result D N f s (push_data f s)"
proof -
  note I = sorter_invD [OF inv]
  have "unat (sf_Offset f) + length (sf_Data f) < unat MaxByteCount" using f(3) I(1) by simp
  from push_data_stores [OF I(2) f(1,2) this ne] consider
      (dup) "push_data f s = (Some ErrDuplicateStreamData, s)" "\<forall>x. covers f x \<longrightarrow> \<not> in_gap (gaps s) x"
    | (many) "fst (push_data f s) = Some ErrTooManyGapsInReceivedStreamData"
    | (stored) s2 e2 F where "fst (push_data f s) = None" "gaps_ok (unat (readPosition s)) (gaps (snd (push_data f s)))"
        "stores D s2 e2 F s (snd (push_data f s))" "sf_Offset f \<le> s2" "unat e2 \<le> unat (sf_Offset f) + length (sf_Data f)"
        "\<forall>x. in_gap (gaps s) x \<and> covers f x \<longrightarrow> unat s2 \<le> x \<and> x < unat e2"
    by (auto simp: covers_def)
  then show ?thesis
  proof cases
    case dup
    then show ?thesis using inv by (auto simp: push_result_def pushed_def)
  next
    case many
    then show ?thesis by (simp add: push_result_def)
  next
    case stored
    have "sorter_inv D N (snd (push_data f s))"
      using stores_inv [OF inv stored(3,2)] stored(5) f(3) by simp
    then show ?thesis
      using stored(1,4-6) stores_gaps(1,9) [OF stored(3)]
      by (auto simp: push_result_def pushed_def covers_def word_le_nat_alt)
  qed
qed

lemma Push_fin:
  assumes inv: "sorter_inv D N s" and f: "frame_of D f" "unat (sf_Offset f) = N" "sf_Data f = []"
  shows "sorter_inv D N (s\<lparr>queuedFrames := (queuedFrames s)(sf_Offset f \<mapsto> f)\<rparr>)"
proof -
  note I = sorter_invD [OF inv]
  have g: "in_gap (gaps s) (unat (sf_Offset f))" using I(1,3) f(2) by simp
  show ?thesis
    unfolding sorter_inv_def using I(1-3) I(4-6) f chain_upd [OF I(7) disjI1 [OF g]] chain_upd [OF I(8) disjI1 [OF g]]
    by auto
qed

lemma sorter_inv_dupframesize: "sorter_inv D N (s\<lparr>dupframesize := d\<rparr>) = sorter_inv D N s"
  by (simp add: sorter_inv_def)

lemma fresh_offset:
  assumes inv: "sorter_inv D N s" and q: "queuedFrames s k = None" and k: "unat k < N" and g: "g \<in> set (gaps s)"
  shows "k \<noteq> bi_End g"
proof
  note I = sorter_invD [OF inv]
  assume e: "k = bi_End g"
  moreover have "bi_End g \<noteq> MaxByteCount" using I(1) k e by (metis not_less_iff_gr_or_eq)
  ultimately have "chain (queuedFrames s) (gaps s) (unat k)" "\<not> in_gap (gaps s) (unat k)"
    using I(8) [OF g] gaps_end_free [OF I(2) g] by simp_all
  then show False using q by (auto elim: chain_coveredE)
qed

lemma covered_offset:
  assumes ok: "gaps_ok lo gs" and g: "g \<in> set gs" and k: "0 < unat k" "\<not> in_gap gs (unat k - 1)"
  shows "k \<noteq> bi_End g"
proof
  assume "k = bi_End g"
  moreover have "bi_Start g < bi_End g" using gaps_ok_ends [OF ok g] by (simp add: word_less_nat_alt)
  ultimately have "in_gap gs (unat k - 1)" using g by (auto simp: in_gap_def word_less_nat_alt intro!: bexI [of _ g])
  then show False using k(2) by simp
qed

lemma frame_of_drop:
  assumes "frame_of D f" "n \<le> length (sf_Data f)" "unat (sf_Offset f) + length (sf_Data f) < 2 ^ 64"
  shows "frame_of D (f\<lparr>sf_Data := drop n (sf_Data f), sf_Offset := sf_Offset f + of_nat n\<rparr>)"
    "unat (sf_Offset f + of_nat n) = unat (sf_Offset f) + n"
proof -
  show u: "unat (sf_Offset f + of_nat n) = unat (sf_Offset f) + n"
    using assms(2,3) by (simp add: unat_word_ariths unat_of_nat)
  have "drop n (sf_Data f) = drop n (map D [unat (sf_Offset f)..<unat (sf_Offset f) + length (sf_Data f)])"
    using assms(1) by (simp only: frame_of_def flip:)
  then show "frame_of D (f\<lparr>sf_Data := drop n (sf_Data f), sf_Offset := sf_Offset f + of_nat n\<rparr>)"
    using u assms(2) by (simp add: frame_of_def drop_map)
qed

lemma Push_result:
  assumes inv: "sorter_inv D N s" and f: "frame_ok D N f"
  shows "push_result D N f s (Push f s)"
proof -
  note I = sorter_invD [OF inv]
  have F: "frame_of D f" "unat (sf_Offset f) + length (sf_Data f) \<le> N" using f by (simp_all add: frame_ok_def)
  have N: "N < 2 ^ 64" using I(1) by (simp add: MaxByteCount_def)
  have len: "length (sf_Data f) < 2 ^ 64" using F(2) N by simp
  have dl: "sf_DataLen f = 0 \<longleftrightarrow> sf_Data f = []"
    using len by (simp add: sf_DataLen_def word_unat_eq_iff unat_of_nat)
  show ?thesis
  proof (cases "sf_Data f = []")
    case True
    then have "sf_FinBit f" "unat (sf_Offset f) = N" using f by (simp_all add: frame_ok_def)
    then show ?thesis
      using True dl Push_fin [OF inv F(1) _ True] by (simp add: Push_def push_result_def pushed_def covers_def)
  next
    case ne: False
    then have off: "unat (sf_Offset f) < N" using F(2) by (cases "sf_Data f") auto
    show ?thesis
    proof (cases "queuedFrames s (sf_Offset f)")
      case None
      then show ?thesis
        using ne dl push_data_result [OF inv F(1) ne F(2)] fresh_offset [OF inv None off] by (simp add: Push_def)
    next
      case (Some g)
      let ?n = "length (sf_Data g)"
      have g: "unat (sf_Offset f) + ?n \<le> N" "sf_Data g \<noteq> []"
        using I(4,5) [OF Some] off by auto
      then have n: "unat (sf_DataLen g) = ?n" using N by (simp add: sf_DataLen_def unat_of_nat)
      have fl: "unat (sf_DataLen f) = length (sf_Data f)" using len by (simp add: sf_DataLen_def unat_of_nat)
      have cov: "\<not> in_gap (gaps s) x" if "unat (sf_Offset f) \<le> x" "x < unat (sf_Offset f) + ?n" for x
        using I(6) [OF Some that] .
      show ?thesis
      proof (cases "sf_DataLen f \<le> sf_DataLen g")
        case True
        then have "length (sf_Data f) \<le> ?n" using n fl by (simp add: word_le_nat_alt)
        then show ?thesis
          using True Some ne dl inv cov
          by (auto simp: Push_def push_result_def pushed_def covers_def sorter_inv_dupframesize)
      next
        case False
        let ?f = "f\<lparr>sf_Data := drop ?n (sf_Data f), sf_Offset := sf_Offset f + of_nat ?n\<rparr>"
        have lt: "?n < length (sf_Data f)" using False n fl by (simp add: word_le_nat_alt)
        have D: "frame_of D ?f" "unat (sf_Offset ?f) = unat (sf_Offset f) + ?n"
          using frame_of_drop [OF F(1) less_imp_le [OF lt]] F(2) N by simp_all
        have "\<not> in_gap (gaps s) (unat (sf_Offset ?f) - 1)" using cov D(2) g(2) by (cases "sf_Data g") auto
        then have "\<forall>h\<in>set (gaps s). sf_Offset ?f \<noteq> bi_End h"
          using covered_offset [OF I(2)] D(2) g(2) by simp
        then have r: "push_result D N ?f s (push_data ?f s)"
          using D lt F(2) by (intro push_data_result [OF inv]) simp_all
        have "covers ?f x \<and> in_gap (gaps s) x \<longleftrightarrow> covers f x \<and> in_gap (gaps s) x" for x
          using D(2) lt cov [of x] by (cases "x < unat (sf_Offset f) + ?n") (auto simp: covers_def)
        then have "push_result D N f s (push_data ?f s)"
          using r unfolding push_result_def pushed_def by blast
        then show ?thesis using False Some ne dl n by (simp add: Push_def sf_DataLen_def)
      qed
    qed
  qed
qed

subsection \<open>Reading in order\<close>

lemma gaps_ok_raise:
  "gaps_ok lo gs \<Longrightarrow> (\<And>x. lo \<le> x \<Longrightarrow> x < lo' \<Longrightarrow> \<not> in_gap gs x) \<Longrightarrow> gaps_ok lo' gs"
proof (cases gs)
  case (Cons g gs')
  assume ok: "gaps_ok lo gs" and free: "\<And>x. lo \<le> x \<Longrightarrow> x < lo' \<Longrightarrow> \<not> in_gap gs x"
  have "in_gap gs (unat (bi_Start g))" "lo \<le> unat (bi_Start g)"
    using ok Cons gaps_ok_ends [OF ok, of g] by (auto split: if_splits simp: word_less_nat_alt)
  then have "lo' \<le> unat (bi_Start g)" using free not_le by blast
  then show "gaps_ok lo' gs" using ok Cons by (auto split: if_splits)
qed simp

lemma Pop_correct:
  assumes inv: "sorter_inv D N s" and P: "Pop s = (Inr f, s')"
  shows "sorter_inv D N s'" "sf_Data f = map D [unat (readPosition s)..<unat (readPosition s')]"
    "unat (readPosition s') = unat (readPosition s) + length (sf_Data f)" "gaps s' = gaps s"
proof -
  note I = sorter_invD [OF inv]
  have q: "queuedFrames s (readPosition s) = Some f"
    and s': "s' = s\<lparr>readPosition := readPosition s + sf_DataLen f, queuedFrames := (queuedFrames s)(sf_Offset f := None)\<rparr>"
    using P by (auto simp: Pop_def Head_def split: option.splits)
  have f: "sf_Offset f = readPosition s" "frame_of D f" "unat (readPosition s) + length (sf_Data f) \<le> N"
    using I(4) [OF q] by auto
  have "N < 2 ^ 64" using I(1) by (simp add: MaxByteCount_def)
  then show r: "unat (readPosition s') = unat (readPosition s) + length (sf_Data f)"
    using f(3) by (simp add: s' sf_DataLen_def unat_word_ariths unat_of_nat)
  then show "sf_Data f = map D [unat (readPosition s)..<unat (readPosition s')]"
    using f(1,2) by (simp add: frame_of_def)
  show g: "gaps s' = gaps s" by (simp add: s')
  have q': "queuedFrames s' = (queuedFrames s)(readPosition s := None)" using f(1) by (simp add: s')
  have free: "\<not> in_gap (gaps s) x" if "unat (readPosition s) \<le> x" "x < unat (readPosition s')" for x
    using I(6) [OF q] that r by simp
  have "chain (queuedFrames s') (gaps s) (unat (readPosition s'))"
  proof (cases "in_gap (gaps s) (unat (readPosition s))")
    case True
    then have "length (sf_Data f) = 0" using free r by fastforce
    then show ?thesis using True r by (simp add: chain_stop)
  next
    case False
    then have "chain (queuedFrames s) (gaps s) (unat (readPosition s')) \<and> sf_Data f \<noteq> []"
      using q r by (rule_tac chain_coveredE [OF I(7)]) simp_all
    then show ?thesis unfolding q' using r by (intro chain_upd) simp_all
  qed
  moreover have "gaps_ok (unat (readPosition s')) (gaps s)" by (rule gaps_ok_raise [OF I(2) free])
  moreover have "chain (queuedFrames s') (gaps s) (unat (bi_End h))"
    if "h \<in> set (gaps s)" "bi_End h \<noteq> MaxByteCount" for h
    unfolding q' using I(8) [OF that] gaps_ok_ends [OF I(2) that(1)] by (intro chain_upd) simp_all
  ultimately show "sorter_inv D N s'"
    unfolding sorter_inv_def g q' using I(1,3-6) by (auto split: if_splits)
qed

text \<open>
  A reader that pops whatever is at the head, while frames arrive. As in \<open>AddStreamFrame\<close>, duplicate
  data are no error.
\<close>

datatype sorter_event = PushE StreamFrame | PopE

fun sorter_run :: "sorter_event list \<Rightarrow> streamFrameSorter \<Rightarrow> error + bytes \<times> streamFrameSorter" where
  "sorter_run [] s = Inr ([], s)"
| "sorter_run (PushE f # es) s =
     (case Push f s of
        (None, s') \<Rightarrow> sorter_run es s'
      | (Some e, s') \<Rightarrow> if e = ErrDuplicateStreamData then sorter_run es s' else Inl e)"
| "sorter_run (PopE # es) s =
     (case Pop s of
        (Inl e, s') \<Rightarrow> Inl e
      | (Inr f, s') \<Rightarrow> bindE (sorter_run es s') (\<lambda>(out, s''). Inr (sf_Data f @ out, s'')))"

definition events_ok :: "(nat \<Rightarrow> byte) \<Rightarrow> nat \<Rightarrow> sorter_event list \<Rightarrow> bool" where
  "events_ok D N es \<longleftrightarrow> (\<forall>f. PushE f \<in> set es \<longrightarrow> frame_ok D N f)"

definition arrived :: "sorter_event list \<Rightarrow> nat \<Rightarrow> bool" where
  "arrived es x \<longleftrightarrow> (\<exists>f. PushE f \<in> set es \<and> covers f x)"

definition progress :: "(nat \<Rightarrow> byte) \<Rightarrow> nat \<Rightarrow> sorter_event list \<Rightarrow> bytes \<Rightarrow> streamFrameSorter \<Rightarrow> streamFrameSorter \<Rightarrow> bool" where
  "progress D N es out s s' \<longleftrightarrow>
     sorter_inv D N s' \<and> unat (readPosition s') = unat (readPosition s) + length out \<and>
     out = map D [unat (readPosition s)..<unat (readPosition s) + length out] \<and>
     (\<forall>x. in_gap (gaps s') x \<longleftrightarrow> in_gap (gaps s) x \<and> \<not> arrived es x)"

lemma progress_push: "pushed D N f s s1 \<Longrightarrow> progress D N es out s1 s' \<Longrightarrow> progress D N (PushE f # es) out s s'"
  unfolding progress_def pushed_def arrived_def by auto

lemma progress_pop:
  assumes "sorter_inv D N s" "Pop s = (Inr f, s1)" "progress D N es out s1 s'"
  shows "progress D N (PopE # es) (sf_Data f @ out) s s'"
proof -
  let ?a = "unat (readPosition s)" and ?n = "length (sf_Data f)"
  note C = Pop_correct [OF assms(1,2)]
  have "sf_Data f @ out = map D ([?a..<?a + ?n] @ [?a + ?n..<?a + ?n + length out])"
    using C(2,3) assms(3) unfolding progress_def map_append by (metis (no_types))
  also have "[?a..<?a + ?n] @ [?a + ?n..<?a + ?n + length out] = [?a..<?a + ?n + length out]"
    by (rule upt_add_eq_append [symmetric]) simp
  finally show ?thesis
    using C(3,4) assms(3) unfolding progress_def arrived_def by (simp add: add.assoc)
qed

lemma sorter_run_progress:
  "sorter_inv D N s \<Longrightarrow> events_ok D N es \<Longrightarrow> sorter_run es s = Inr (out, s') \<Longrightarrow> progress D N es out s s'"
proof (induction es arbitrary: s out)
  case Nil
  then show ?case by (simp add: arrived_def progress_def)
next
  case (Cons e es)
  have ok: "events_ok D N es" using Cons.prems(2) by (simp add: events_ok_def)
  show ?case
  proof (cases e)
    case (PushE f)
    obtain r s1 where P: "Push f s = (r, s1)" by (cases "Push f s")
    have f: "frame_ok D N f" using Cons.prems(2) PushE by (simp add: events_ok_def)
    have r: "r = None \<or> r = Some ErrDuplicateStreamData" "sorter_run es s1 = Inr (out, s')"
      using Cons.prems(3) P PushE by (auto split: option.splits if_splits)
    then have p: "pushed D N f s s1" using Push_result [OF Cons.prems(1) f] P by (auto simp: push_result_def)
    then have "sorter_inv D N s1" by (simp add: pushed_def)
    then show ?thesis unfolding PushE by (intro progress_push [OF p] Cons.IH ok r)
  next
    case PopE
    obtain f s1 out1 where P: "Pop s = (Inr f, s1)" "sorter_run es s1 = Inr (out1, s')" "out = sf_Data f @ out1"
      using Cons.prems(3) PopE by (auto split: prod.splits sum.splits simp: bindE_eq_Inr)
    show ?thesis unfolding PopE P(3)
      by (intro progress_pop [OF Cons.prems(1) P(1)] Cons.IH ok P(2) Pop_correct(1) [OF Cons.prems(1) P(1)])
  qed
qed

text \<open>
  C5: Whatever the order, overlap and duplication of the frames of a stream that the peer sends, as
  long as they are slices of one byte sequence, the bytes popped from the sorter are the beginning
  of that sequence, without loss, repetition or reordering. Whenever the next byte has arrived, the
  head of the sorter is a non-empty frame, so the reader makes progress.
\<close>

theorem sorter_reassembles:
  assumes "N < unat MaxByteCount" "events_ok D N es" "sorter_run es newStreamFrameSorter = Inr (out, s)"
  shows "out = map D [0..<length out] \<and> unat (readPosition s) = length out \<and>
    (arrived es (length out) \<longrightarrow> (\<exists>f. Head s = Some f \<and> sf_Data f \<noteq> [] \<and> sf_Data f = map D [length out..<length out + length (sf_Data f)]))"
proof -
  have p: "progress D N es out newStreamFrameSorter s"
    by (rule sorter_run_progress [OF new_sorter_inv [OF assms(1)] assms(2,3)])
  have z: "readPosition newStreamFrameSorter = 0" by (simp add: newStreamFrameSorter_def)
  from p have out: "out = map D [0..<length out]" "unat (readPosition s) = length out" and inv: "sorter_inv D N s"
    unfolding progress_def z unsigned_0 add_0 by blast+
  note I = sorter_invD [OF inv]
  have "\<exists>f. Head s = Some f \<and> sf_Data f \<noteq> [] \<and> sf_Data f = map D [length out..<length out + length (sf_Data f)]"
    if "arrived es (length out)"
  proof -
    have "\<not> in_gap (gaps s) (unat (readPosition s))" using that p out(2) unfolding progress_def by metis
    then obtain f where f: "queuedFrames s (readPosition s) = Some f" "sf_Data f \<noteq> []"
      by (rule_tac chain_coveredE [OF I(7)]) simp_all
    moreover have "sf_Data f = map D [length out..<length out + length (sf_Data f)]"
      using I(4) [OF f(1)] unfolding frame_of_def out(2) [symmetric] by metis
    ultimately show ?thesis unfolding Head_def by blast
  qed
  then show ?thesis using out by blast
qed

definition demo_frame :: "nat \<Rightarrow> nat \<Rightarrow> bool \<Rightarrow> StreamFrame" where
  "demo_frame a b fin =
     \<lparr>sf_StreamID = 5, sf_FinBit = fin, sf_DataLenPresent = True, sf_Offset = of_nat a, sf_Data = map of_nat [a..<b],
      sf_Rcvpkttime = None, sf_Priority = False\<rparr>"

definition demo_events :: "sorter_event list" where
  "demo_events = [PushE (demo_frame 2 5 False), PushE (demo_frame 0 3 False), PopE, PushE (demo_frame 4 7 True),
     PushE (demo_frame 0 2 False), PopE]"

lemma demo_frame_ok: "a < b \<Longrightarrow> b \<le> N \<Longrightarrow> N < unat MaxByteCount \<Longrightarrow> frame_ok of_nat N (demo_frame a b fin)"
  by (simp add: frame_ok_def frame_of_def demo_frame_def unat_of_nat MaxByteCount_def)

theorem sorter_reassembles_witness:
  "\<exists>out s. sorter_run demo_events newStreamFrameSorter = Inr (out, s) \<and> out = [0, 1, 2, 3, 4] \<and>
    arrived demo_events (length out) \<and> (\<exists>f. Head s = Some f \<and> sf_Data f \<noteq> [] \<and> sf_Data f = map of_nat [5..<5 + length (sf_Data f)])"
proof -
  have "case sorter_run demo_events newStreamFrameSorter of Inl _ \<Rightarrow> False | Inr (out, s) \<Rightarrow> out = [0, 1, 2, 3, 4]"
    by code_simp
  then obtain out s where r: "sorter_run demo_events newStreamFrameSorter = Inr (out, s)" "out = [0, 1, 2, 3, 4]"
    by (auto split: sum.splits)
  have ok: "events_ok of_nat 7 demo_events"
    by (auto simp: events_ok_def demo_events_def MaxByteCount_def intro!: demo_frame_ok)
  have a: "arrived demo_events (length out)"
    unfolding arrived_def using r(2) by (intro exI [of _ "demo_frame 4 7 True"]) (simp add: demo_events_def covers_def demo_frame_def)
  have "7 < unat MaxByteCount" by (simp add: MaxByteCount_def)
  from sorter_reassembles [OF this ok r(1)] a
  have "\<exists>f. Head s = Some f \<and> sf_Data f \<noteq> [] \<and> sf_Data f = map of_nat [length out..<length out + length (sf_Data f)]"
    by blast
  moreover have "length out = 5" using r(2) by simp
  ultimately show ?thesis using r a by metis
qed

text \<open>
  C30: The FIN bit of a frame survives when its tail is cut off because that data is already queued.
  After the last part of a stream, a retransmission of the whole stream queues the first part with
  the FIN bit, so the reader sees the end of the stream before the last part.
\<close>

theorem cut_frame_keeps_fin:
  assumes "0 < m" "m < n" "n < unat MaxByteCount"
    "sf_Offset f1 = of_nat m" "sf_Data f1 = map D [m..<n]"
    "sf_Offset f2 = 0" "sf_Data f2 = map D [0..<n]" "sf_FinBit f2"
  shows "fst (Push f1 newStreamFrameSorter) = None \<and>
    fst (Push f2 (snd (Push f1 newStreamFrameSorter))) = None \<and>
    Head (snd (Push f2 (snd (Push f1 newStreamFrameSorter)))) = Some (f2\<lparr>sf_Data := map D [0..<m]\<rparr>) \<and>
    sf_FinBit (f2\<lparr>sf_Data := map D [0..<m]\<rparr>)"
proof -
  define M N :: ByteCount where "M = of_nat m" and "N = of_nat n"
  have u: "unat M = m" "unat N = n" using assms(2,3) by (simp_all add: M_def N_def unat_of_nat MaxByteCount_def)
  have w: "0 < M" "M < N" "N < MaxByteCount" "M \<noteq> 0" "N \<noteq> 0" "N \<noteq> MaxByteCount" "M \<noteq> MaxByteCount" "N \<noteq> M"
    "\<not> N \<le> M" "\<not> MaxByteCount \<le> N" "M \<le> MaxByteCount" "M \<le> N" "0 < N" "\<not> MaxByteCount < N" "\<not> N < M"
    using assms(1-3) u by (auto simp: word_less_nat_alt word_le_nat_alt MaxByteCount_max)
  have l: "sf_Offset f1 = M" "of_nat (length (sf_Data f1)) = N - M" "of_nat (length (sf_Data f2)) = N"
    using assms by (simp_all add: M_def N_def of_nat_diff)
  let ?F = "f1\<lparr>sf_Offset := M, sf_Data := take (unat (N - M)) (sf_Data f1)\<rparr>"
  have p1: "Push f1 newStreamFrameSorter =
      (None, newStreamFrameSorter\<lparr>gaps := [\<lparr>bi_Start = 0, bi_End = M\<rparr>, \<lparr>bi_Start = N, bi_End = MaxByteCount\<rparr>],
         queuedFrames := [M \<mapsto> ?F]\<rparr>)"
    using w by (simp add: Push_def l push_data_def newStreamFrameSorter_def adjust_gaps_def
        MaxStreamFrameSorterGaps_def Let_def sf_DataLen_def)
  have "take (unat M) (sf_Data f2) = map D [0..<m]" using assms(2,7) u by (simp add: take_map)
  then show ?thesis
    using w(2-) assms(6,8) by (simp add: p1 Push_def l push_data_def newStreamFrameSorter_def adjust_gaps_def
        MaxStreamFrameSorterGaps_def Let_def sf_DataLen_def Head_def)
qed

theorem cut_frame_keeps_fin_witness:
  "Head (snd (Push (demo_frame 0 10 True) (snd (Push (demo_frame 5 10 True) newStreamFrameSorter))))
     = Some (demo_frame 0 5 True)"
  using cut_frame_keeps_fin [of 5 10 "demo_frame 5 10 True" of_nat "demo_frame 0 10 True"]
  by (simp add: demo_frame_def MaxByteCount_def)

end
