(* ===== verification/Go_Float.thy ===== *)
theory Go_Float
  imports Prelude Complex_Main "HOL-Library.Log_Nat"
begin

text \<open>
  Go's \<open>float32\<close> and \<open>float64\<close>: a rational number is rounded to 24 or 53 significant bits, to
  nearest with ties to even (IEEE 754). The exponent is unbounded: the modelled code stays far from
  overflow and from subnormal numbers. Every arithmetic operation of the source is an exact rational
  operation followed by a rounding.
\<close>

definition pow2 :: "int \<Rightarrow> rat" where
  "pow2 e = (if e \<ge> 0 then 2 ^ nat e else 1 / 2 ^ nat (- e))"

definition round_even :: "rat \<Rightarrow> int" where
  "round_even x =
     (let f = \<lfloor>x\<rfloor>; r = x - of_int f in
      if r > 1 / 2 \<or> (r = 1 / 2 \<and> odd f) then f + 1 else f)"

text \<open>The number of binary digits in front of the point, negative below \<open>1 / 2\<close>.\<close>

definition magnitude :: "rat \<Rightarrow> int" where
  "magnitude x =
     (case quotient_of x of (n, d) \<Rightarrow>
        let k = int (floorlog 2 (nat n)) - int (floorlog 2 (nat d)) in
        if x \<ge> pow2 k then k + 1 else k)"

definition float_round :: "nat \<Rightarrow> rat \<Rightarrow> rat" where
  "float_round p x =
     (if x = 0 then 0
      else let e = magnitude \<bar>x\<bar> - int p in sgn x * of_int (round_even (\<bar>x\<bar> / pow2 e)) * pow2 e)"

definition f32 :: "rat \<Rightarrow> rat" where "f32 = float_round 24"

definition f64 :: "rat \<Rightarrow> rat" where "f64 = float_round 53"

text \<open>The conversion to an integer truncates towards zero.\<close>

definition go_trunc :: "rat \<Rightarrow> int" where
  "go_trunc x = (if x \<ge> 0 then \<lfloor>x\<rfloor> else \<lceil>x\<rceil>)"

subsection \<open>Powers of two\<close>

lemma pow2_powr: "(of_rat (pow2 e) :: real) = 2 powr (of_int e)"
  by (auto simp: pow2_def of_rat_divide of_rat_power powr_realpow [symmetric] powr_minus_divide [symmetric])

lemma pow2_pos [simp]: "0 < pow2 e"
  by (simp add: pow2_def)

lemma pow2_add: "pow2 (a + b) = pow2 a * pow2 b"
proof -
  have "(of_rat (pow2 (a + b)) :: real) = of_rat (pow2 a * pow2 b)"
    by (simp add: of_rat_mult pow2_powr powr_add)
  then show ?thesis by simp
qed

lemma pow2_of_nat [simp]: "pow2 (int n) = 2 ^ n"
  by (simp add: pow2_def)

lemma pow2_pred: "0 < n \<Longrightarrow> pow2 (int n - 1) = 2 ^ (n - 1)"
  by (simp add: pow2_def nat_diff_distrib')

lemma pow2_mono: "a \<le> b \<Longrightarrow> pow2 a \<le> pow2 b"
proof -
  assume "a \<le> b"
  then have "(of_rat (pow2 a) :: real) \<le> of_rat (pow2 b)" by (simp add: pow2_powr)
  then show ?thesis by (simp add: of_rat_less_eq)
qed

lemma pow2_less_iff: "pow2 a < pow2 b \<longleftrightarrow> a < b"
  by (subst of_rat_less [symmetric, where 'a = real]) (simp add: pow2_powr)

subsection \<open>Rounding\<close>

lemma round_even_of_int [simp]: "round_even (of_int n) = n"
  by (simp add: round_even_def)

lemma round_even_mono:
  assumes "x \<le> y"
  shows "round_even x \<le> round_even y"
proof -
  have "\<lfloor>x\<rfloor> \<le> \<lfloor>y\<rfloor>" by (rule floor_mono [OF assms])
  then consider "\<lfloor>x\<rfloor> = \<lfloor>y\<rfloor>" | "\<lfloor>x\<rfloor> + 1 \<le> \<lfloor>y\<rfloor>" by linarith
  then show ?thesis
  proof cases
    case 1
    then show ?thesis using assms by (auto simp: round_even_def Let_def)
  next
    case 2
    then show ?thesis by (auto simp: round_even_def Let_def)
  qed
qed

lemma floorlog2_bounds: "0 < n \<Longrightarrow> 2 ^ (floorlog 2 n - 1) \<le> n \<and> n < 2 ^ floorlog 2 n"
  using floorlog_bounds [of n 2] by simp

lemma magnitude_bounds:
  assumes "0 < x"
  shows "pow2 (magnitude x - 1) \<le> x" "x < pow2 (magnitude x)"
proof -
  obtain n d where q: "quotient_of x = (n, d)" by (metis surj_pair)
  have d: "0 < d" by (rule quotient_of_denom_pos [OF q])
  have x: "x = of_int n / of_int d" by (rule quotient_of_div [OF q])
  then have n: "0 < n" using assms d by (simp add: zero_less_divide_iff)
  define a b where "a = floorlog 2 (nat n)" and "b = floorlog 2 (nat d)"
  have A: "2 ^ (a - 1) \<le> nat n" "nat n < 2 ^ a" "0 < a" and B: "2 ^ (b - 1) \<le> nat d" "nat d < 2 ^ b" "0 < b"
    using floorlog2_bounds [of "nat n"] floorlog2_bounds [of "nat d"] n d
    by (auto simp: a_def b_def floorlog_eq_zero_iff zero_less_iff_neq_zero)
  have p: "pow2 (int a - 1) = of_int (2 ^ (a - 1))" "pow2 (int b - 1) = of_int (2 ^ (b - 1))"
    using A(3) B(3) by (simp_all add: pow2_def nat_diff_distrib')
  have N: "pow2 (int a - 1) \<le> of_int n" "of_int n < pow2 (int a)" and D: "pow2 (int b - 1) \<le> of_int d" "of_int d < pow2 (int b)"
    using A B n d unfolding p
    by (simp_all add: le_nat_iff nat_less_iff del: of_int_power flip: of_int_power_le_of_int_cancel_iff)
  let ?k = "int a - int b"
  have k: "magnitude x = (if x \<ge> pow2 ?k then ?k + 1 else ?k)" by (simp add: magnitude_def q a_def b_def)
  have "pow2 (?k - 1) * of_int d \<le> pow2 (?k - 1) * pow2 (int b)" using D(2) by simp
  also have "\<dots> = pow2 (int a - 1)" unfolding pow2_add [symmetric] by simp
  finally have lo: "pow2 (?k - 1) \<le> x" using N(1) d by (simp add: x pos_le_divide_eq)
  have "pow2 (int a) = pow2 (?k + 1) * pow2 (int b - 1)" unfolding pow2_add [symmetric] by simp
  also have "\<dots> \<le> pow2 (?k + 1) * of_int d" using D(1) by simp
  finally have "of_int n < pow2 (?k + 1) * of_int d" by (rule less_le_trans [OF N(2)])
  then have hi: "x < pow2 (?k + 1)" using d by (simp add: x pos_divide_less_eq)
  show "pow2 (magnitude x - 1) \<le> x" "x < pow2 (magnitude x)" using lo hi k by auto
qed

lemma magnitude_mono: "0 < x \<Longrightarrow> x \<le> y \<Longrightarrow> magnitude x \<le> magnitude y"
  using magnitude_bounds(1) [of x] magnitude_bounds(2) [of y] pow2_less_iff [of "magnitude x - 1" "magnitude y"] by auto

lemma float_round_pos:
  assumes "0 < x"
  shows "float_round p x = of_int (round_even (x / pow2 (magnitude x - int p))) * pow2 (magnitude x - int p)"
  using assms by (simp add: float_round_def Let_def)

lemma float_round_0 [simp]: "float_round p 0 = 0"
  by (simp add: float_round_def)

text \<open>A rounded number stays between the powers of two around it.\<close>

lemma float_round_magnitude:
  assumes "0 < x" "0 < p"
  shows "pow2 (magnitude x - 1) \<le> float_round p x" "float_round p x \<le> pow2 (magnitude x)"
proof -
  define e where "e = magnitude x - int p"
  have lo: "pow2 (magnitude x - 1) = of_int (2 ^ (p - 1)) * pow2 e" and hi: "pow2 (magnitude x) = of_int (2 ^ p) * pow2 e"
    using pow2_add [of "int p - 1" e] pow2_add [of "int p" e] pow2_pred [OF assms(2)] by (simp_all add: e_def)
  have "of_int (2 ^ (p - 1)) \<le> x / pow2 e" "x / pow2 e \<le> of_int (2 ^ p)"
    using magnitude_bounds [OF assms(1)] unfolding lo hi
    by (simp_all add: pos_le_divide_eq pos_divide_le_eq)
  then have "2 ^ (p - 1) \<le> round_even (x / pow2 e)" "round_even (x / pow2 e) \<le> 2 ^ p"
    using round_even_mono round_even_of_int by metis+
  then have "(of_int (2 ^ (p - 1)) :: rat) \<le> of_int (round_even (x / pow2 e))" "(of_int (round_even (x / pow2 e)) :: rat) \<le> of_int (2 ^ p)"
    by (simp_all only: of_int_le_iff)
  then show "pow2 (magnitude x - 1) \<le> float_round p x" "float_round p x \<le> pow2 (magnitude x)"
    unfolding lo hi float_round_pos [OF assms(1)] e_def [symmetric] by (simp_all add: mult_right_mono del: of_int_power)
qed

lemma float_round_nonneg: "0 \<le> x \<Longrightarrow> 0 < p \<Longrightarrow> 0 \<le> float_round p x"
  using float_round_magnitude(1) [of x p] pow2_pos [of "magnitude x - 1"]
  by (cases "x = 0") (auto simp del: pow2_pos)

lemma float_round_mono:
  assumes "0 \<le> x" "x \<le> y" "0 < p"
  shows "float_round p x \<le> float_round p y"
proof (cases "x = 0")
  case True
  then show ?thesis using float_round_nonneg [of y p] assms by simp
next
  case False
  then have x: "0 < x" "0 < y" using assms by simp_all
  have "magnitude x \<le> magnitude y" by (rule magnitude_mono [OF x(1) assms(2)])
  then consider "magnitude x = magnitude y" | "magnitude x \<le> magnitude y - 1" by linarith
  then show ?thesis
  proof cases
    case 1
    have "round_even (x / pow2 (magnitude y - int p)) \<le> round_even (y / pow2 (magnitude y - int p))"
      using assms(2) by (intro round_even_mono divide_right_mono) (simp_all add: order.strict_implies_order)
    then show ?thesis
      using 1 by (simp add: float_round_pos x mult_right_mono order.strict_implies_order)
  next
    case 2
    have "float_round p x \<le> pow2 (magnitude x)" by (rule float_round_magnitude(2) [OF x(1) assms(3)])
    also have "\<dots> \<le> pow2 (magnitude y - 1)" by (rule pow2_mono [OF 2])
    also have "\<dots> \<le> float_round p y" by (rule float_round_magnitude(1) [OF x(2) assms(3)])
    finally show ?thesis .
  qed
qed

text \<open>Multiples of a power of two with few digits are not changed.\<close>

lemma float_round_exact:
  assumes "0 \<le> n" "n \<le> 2 ^ p" "0 < p"
  shows "float_round p (of_int n * pow2 k) = of_int n * pow2 k"
proof (cases "n = 0")
  case False
  let ?x = "of_int n * pow2 k"
  have "0 < n" using assms(1) False by simp
  then have pos: "0 < ?x" by simp
  have "magnitude ?x \<le> k + int p \<or> n = 2 ^ p"
  proof (rule disjCI)
    assume "n \<noteq> 2 ^ p"
    then have "n < 2 ^ p" using assms(2) by simp
    then have "(of_int n :: rat) < of_int (2 ^ p)" by (simp only: of_int_less_iff)
    then have "?x < pow2 (k + int p)" by (simp add: pow2_add mult.commute)
    then have "pow2 (magnitude ?x - 1) < pow2 (k + int p)" using magnitude_bounds(1) [OF pos] by linarith
    then show "magnitude ?x \<le> k + int p" by (simp add: pow2_less_iff)
  qed
  then show ?thesis
  proof
    assume m: "magnitude ?x \<le> k + int p"
    define j where "j = nat (k + int p - magnitude ?x)"
    have k: "pow2 k = 2 ^ j * pow2 (magnitude ?x - int p)"
      using pow2_add [of "k + int p - magnitude ?x" "magnitude ?x - int p"] m by (simp add: j_def pow2_def [of "k + int p - magnitude ?x"])
    have "?x / pow2 (magnitude ?x - int p) = of_int (n * 2 ^ j)"
      by (subst k) (simp add: less_imp_neq [OF pow2_pos, symmetric])
    then have "float_round p ?x = of_int (n * 2 ^ j) * pow2 (magnitude ?x - int p)"
      by (simp add: float_round_pos [OF pos] del: of_int_mult of_int_power)
    also have "\<dots> = ?x" using k by simp
    finally show ?thesis .
  next
    assume n: "n = 2 ^ p"
    then have x: "?x = pow2 (k + int p)" by (simp add: pow2_add)
    have "magnitude ?x - 1 \<le> k + int p" "k + int p < magnitude ?x"
      using magnitude_bounds [OF pos] pow2_less_iff unfolding x by (auto simp: pow2_less_iff simp flip: not_less)
    then have m: "magnitude ?x = k + int p + 1" by simp
    have "?x / pow2 (magnitude ?x - int p) = of_int n / 2"
      using pow2_add [of k 1] by (simp add: m pow2_def [of 1] less_imp_neq [OF pow2_pos, symmetric])
    also have "\<dots> = of_int (2 ^ (p - 1))" using assms(3) by (cases p) (simp_all add: n)
    finally have "float_round p ?x = of_int (2 ^ (p - 1)) * pow2 (k + 1)"
      using m by (simp add: float_round_pos [OF pos] del: of_int_power)
    also have "\<dots> = ?x" using pow2_add [of k 1] assms(3) n by (cases p) (simp_all add: pow2_def [of 1])
    finally show ?thesis .
  qed
qed simp

lemma float_round_of_int: "0 \<le> n \<Longrightarrow> n \<le> 2 ^ p \<Longrightarrow> 0 < p \<Longrightarrow> float_round p (of_int n) = of_int n"
  using float_round_exact [of n p 0] by (simp add: pow2_def)

lemma f32_of_int: "0 \<le> n \<Longrightarrow> n \<le> 2 ^ 24 \<Longrightarrow> f32 (of_int n) = of_int n"
  using float_round_of_int [of n 24] by (simp add: f32_def)

lemma f64_of_int: "0 \<le> n \<Longrightarrow> n \<le> 2 ^ 53 \<Longrightarrow> f64 (of_int n) = of_int n"
  using float_round_of_int [of n 53] by (simp add: f64_def)

lemma f32_mono: "0 \<le> x \<Longrightarrow> x \<le> y \<Longrightarrow> f32 x \<le> f32 y"
  by (simp add: f32_def float_round_mono)

lemma f64_mono: "0 \<le> x \<Longrightarrow> x \<le> y \<Longrightarrow> f64 x \<le> f64 y"
  by (simp add: f64_def float_round_mono)

lemma f32_nonneg: "0 \<le> x \<Longrightarrow> 0 \<le> f32 x"
  by (simp add: f32_def float_round_nonneg)

lemma f64_nonneg: "0 \<le> x \<Longrightarrow> 0 \<le> f64 x"
  by (simp add: f64_def float_round_nonneg)

lemma magnitude_eqI: "0 < x \<Longrightarrow> pow2 (b - 1) \<le> x \<Longrightarrow> x < pow2 b \<Longrightarrow> magnitude x = b"
  using magnitude_bounds [of x] pow2_less_iff [of "b - 1" "magnitude x"] pow2_less_iff [of "magnitude x - 1" b] by auto

lemma floor_numeral_divide [simp]: "\<lfloor>numeral a / numeral b :: rat\<rfloor> = numeral a div numeral b"
  by (metis floor_divide_of_int_eq of_int_numeral)

lemma f32_compute:
  "0 < x \<Longrightarrow> pow2 (b - 1) \<le> x \<Longrightarrow> x < pow2 b \<Longrightarrow> f32 x = of_int (round_even (x / pow2 (b - 24))) * pow2 (b - 24)"
  by (simp add: f32_def float_round_pos magnitude_eqI)

lemma f32_small [simp]: "f32 1 = 1" "f32 2 = 2" "f32 0 = 0" "f32 6 = 6" "f32 12 = 12"
  using f32_of_int [of 1] f32_of_int [of 2] f32_of_int [of 6] f32_of_int [of 12] by (simp_all add: f32_def)

end
