(* ===== verification/Flow_Control.thy ===== *)
theory Flow_Control
  imports Conn_Params Go_Float
begin

text \<open>
  \<open>internal/flowcontrol\<close>: the flow controllers of the streams and of the connection and the manager
  that combines them. The pointers to the connection parameters, the RTT statistics and the remote
  RTTs are shared with the session; what is read through them is in the record \<open>fc_env\<close>, together
  with the clock.
\<close>

definition StreamDataAfterTermination :: u32 where "StreamDataAfterTermination = 2"

definition FlowControlReceivedTooMuchData :: u32 where "FlowControlReceivedTooMuchData = 59"

definition DefaultMaxReceiveStreamFlowControlWindowServer :: ByteCount where
  "DefaultMaxReceiveStreamFlowControlWindowServer = 1 * push_bit 20 1"

definition DefaultMaxReceiveConnectionFlowControlWindowServer :: ByteCount where
  "DefaultMaxReceiveConnectionFlowControlWindowServer = 3 * push_bit 19 1"

record fc_env =
  connectionParameters :: connectionParametersManager
  env_smoothedRTT :: Duration
  remoteRTTs :: "(PathID \<times> Duration) list"
  env_now :: Time

record flowController =
  fc_streamID :: StreamID
  contributesToConnection :: bool
  bytesSent :: ByteCount
  sendWindow :: ByteCount
  bytesRetrans :: ByteCount
  lastWindowUpdateTime :: "Time option"
  bytesRead :: ByteCount
  highestReceived :: ByteCount
  receiveWindow :: ByteCount
  receiveWindowIncrement :: ByteCount
  maxReceiveWindowIncrement :: ByteCount

definition newFlowController :: "fc_env \<Rightarrow> StreamID \<Rightarrow> bool \<Rightarrow> flowController" where
  "newFlowController env streamID contributes =
     (let cp = connectionParameters env;
          (window, max) = (if streamID = 0
             then (receiveConnectionFlowControlWindow cp, maxReceiveConnectionFlowControlWindow cp)
             else (receiveStreamFlowControlWindow cp, maxReceiveStreamFlowControlWindow cp))
      in \<lparr>fc_streamID = streamID, contributesToConnection = contributes, bytesSent = 0, sendWindow = 0,
          bytesRetrans = 0, lastWindowUpdateTime = None, bytesRead = 0, highestReceived = 0,
          receiveWindow = window, receiveWindowIncrement = window, maxReceiveWindowIncrement = max\<rparr>)"

definition getSendWindow :: "fc_env \<Rightarrow> flowController \<Rightarrow> ByteCount" where
  "getSendWindow env c =
     (if sendWindow c = 0 then
        if fc_streamID c = 0 then sendConnectionFlowControlWindow (connectionParameters env)
        else sendStreamFlowControlWindow (connectionParameters env)
      else sendWindow c)"

definition fc_AddBytesSent :: "ByteCount \<Rightarrow> flowController \<Rightarrow> flowController" where
  "fc_AddBytesSent n c = c\<lparr>bytesSent := bytesSent c + n\<rparr>"

definition fc_AddBytesRetrans :: "ByteCount \<Rightarrow> flowController \<Rightarrow> flowController" where
  "fc_AddBytesRetrans n c = c\<lparr>bytesRetrans := bytesRetrans c + n\<rparr>"

definition UpdateSendWindow :: "ByteCount \<Rightarrow> flowController \<Rightarrow> bool \<times> flowController" where
  "UpdateSendWindow newOffset c =
     (if newOffset > sendWindow c then (True, c\<lparr>sendWindow := newOffset\<rparr>) else (False, c))"

definition fc_SendWindowSize :: "fc_env \<Rightarrow> flowController \<Rightarrow> ByteCount" where
  "fc_SendWindowSize env c =
     (let w = getSendWindow env c in if bytesSent c > w then 0 else w - bytesSent c)"

definition fc_UpdateHighestReceived ::
    "ByteCount \<Rightarrow> flowController \<Rightarrow> (ByteCount \<times> error option) \<times> flowController" where
  "fc_UpdateHighestReceived byteOffset c =
     (if byteOffset = highestReceived c then ((0, None), c)
      else if byteOffset > highestReceived c
      then ((byteOffset - highestReceived c, None), c\<lparr>highestReceived := byteOffset\<rparr>)
      else ((0, Some ErrReceivedSmallerByteOffset), c))"

definition IncrementHighestReceived :: "ByteCount \<Rightarrow> flowController \<Rightarrow> flowController" where
  "IncrementHighestReceived increment c = c\<lparr>highestReceived := highestReceived c + increment\<rparr>"

definition fc_AddBytesRead :: "fc_env \<Rightarrow> ByteCount \<Rightarrow> flowController \<Rightarrow> flowController" where
  "fc_AddBytesRead env n c =
     (let c = (if bytesRead c = 0 then c\<lparr>lastWindowUpdateTime := Some (env_now env)\<rparr> else c)
      in c\<lparr>bytesRead := bytesRead c + n\<rparr>)"

definition maybeAdjustWindowIncrement :: "fc_env \<Rightarrow> flowController \<Rightarrow> flowController" where
  "maybeAdjustWindowIncrement env c =
     (if lastWindowUpdateTime c = None then c
      else if env_smoothedRTT env = 0 then c
      else
        let maxRemoteRTT = foldr max (map snd (remoteRTTs env)) 0 in
        if time_Since (env_now env) (lastWindowUpdateTime c)
             \<ge> wrap64 (2 * max (env_smoothedRTT env) maxRemoteRTT)
        then c
        else c\<lparr>receiveWindowIncrement := min (2 * receiveWindowIncrement c) (maxReceiveWindowIncrement c)\<rparr>)"

definition MaybeUpdateWindow ::
    "fc_env \<Rightarrow> flowController \<Rightarrow> (bool \<times> ByteCount \<times> ByteCount) \<times> flowController" where
  "MaybeUpdateWindow env c =
     (let diff = receiveWindow c - bytesRead c in
      if diff < receiveWindowIncrement c div 2 then
        let c' = maybeAdjustWindowIncrement env c;
            newWindowIncrement = (if receiveWindowIncrement c' \<noteq> receiveWindowIncrement c
                                  then receiveWindowIncrement c' else 0);
            c' = c'\<lparr>lastWindowUpdateTime := Some (env_now env),
                    receiveWindow := bytesRead c' + receiveWindowIncrement c'\<rparr>
        in ((True, newWindowIncrement, receiveWindow c'), c')
      else ((False, receiveWindowIncrement c, receiveWindow c), c))"

definition EnsureMinimumWindowIncrement :: "ByteCount \<Rightarrow> flowController \<Rightarrow> flowController" where
  "EnsureMinimumWindowIncrement inc c =
     (if inc > receiveWindowIncrement c
      then c\<lparr>receiveWindowIncrement := min inc (maxReceiveWindowIncrement c), lastWindowUpdateTime := None\<rparr>
      else c)"

definition CheckFlowControlViolation :: "flowController \<Rightarrow> bool" where
  "CheckFlowControlViolation c \<longleftrightarrow> highestReceived c > receiveWindow c"

subsection \<open>The manager\<close>

record flowControlManager =
  streamFlowController :: "StreamID \<rightharpoonup> flowController"
  connFlowController :: flowController

definition NewFlowControlManager :: "fc_env \<Rightarrow> flowControlManager" where
  "NewFlowControlManager env =
     \<lparr>streamFlowController = Map.empty, connFlowController = newFlowController env 0 False\<rparr>"

definition NewStream :: "fc_env \<Rightarrow> StreamID \<Rightarrow> bool \<Rightarrow> flowControlManager \<Rightarrow> flowControlManager" where
  "NewStream env streamID contributes f =
     (if streamFlowController f streamID \<noteq> None then f
      else f\<lparr>streamFlowController := (streamFlowController f)(streamID \<mapsto> newFlowController env streamID contributes)\<rparr>)"

definition RemoveStream :: "StreamID \<Rightarrow> flowControlManager \<Rightarrow> flowControlManager" where
  "RemoveStream streamID f = f\<lparr>streamFlowController := (streamFlowController f)(streamID := None)\<rparr>"

text \<open>
  The common part of \<open>ResetStream\<close> and \<open>UpdateHighestReceived\<close>, behind the update of the stream's
  controller.
\<close>

definition received_more ::
    "StreamID \<Rightarrow> ByteCount \<Rightarrow> flowController \<Rightarrow> flowControlManager \<Rightarrow> error option \<times> flowControlManager" where
  "received_more streamID increment fc f =
     (let f = f\<lparr>streamFlowController := (streamFlowController f)(streamID \<mapsto> fc)\<rparr> in
      if CheckFlowControlViolation fc then (Some (QuicError FlowControlReceivedTooMuchData), f)
      else if contributesToConnection fc then
        let f = f\<lparr>connFlowController := IncrementHighestReceived increment (connFlowController f)\<rparr> in
        (if CheckFlowControlViolation (connFlowController f)
         then Some (QuicError FlowControlReceivedTooMuchData) else None, f)
      else (None, f))"

definition ResetStream ::
    "StreamID \<Rightarrow> ByteCount \<Rightarrow> flowControlManager \<Rightarrow> error option \<times> flowControlManager" where
  "ResetStream streamID byteOffset f =
     (case streamFlowController f streamID of
        None \<Rightarrow> (Some ErrMapAccess, f)
      | Some fc \<Rightarrow>
          (case fc_UpdateHighestReceived byteOffset fc of
             ((_, Some _), _) \<Rightarrow> (Some (QuicError StreamDataAfterTermination), f)
           | ((increment, None), fc) \<Rightarrow> received_more streamID increment fc f))"

definition UpdateHighestReceived ::
    "StreamID \<Rightarrow> ByteCount \<Rightarrow> flowControlManager \<Rightarrow> error option \<times> flowControlManager" where
  "UpdateHighestReceived streamID byteOffset f =
     (case streamFlowController f streamID of
        None \<Rightarrow> (Some ErrMapAccess, f)
      | Some fc \<Rightarrow>
          (case fc_UpdateHighestReceived byteOffset fc of
             ((increment, _), fc) \<Rightarrow> received_more streamID increment fc f))"

text \<open>
  \<open>AddBytesRead\<close>, \<open>AddBytesSent\<close> and \<open>AddBytesRetrans\<close> apply the same update to the stream's
  controller and, when it contributes, to the connection's.
\<close>

definition on_stream ::
    "(flowController \<Rightarrow> flowController) \<Rightarrow> StreamID \<Rightarrow> flowControlManager \<Rightarrow> error option \<times> flowControlManager" where
  "on_stream upd streamID f =
     (case streamFlowController f streamID of
        None \<Rightarrow> (Some ErrMapAccess, f)
      | Some fc \<Rightarrow>
          let f = f\<lparr>streamFlowController := (streamFlowController f)(streamID \<mapsto> upd fc)\<rparr> in
          (None, if contributesToConnection fc then f\<lparr>connFlowController := upd (connFlowController f)\<rparr> else f))"

definition AddBytesRead ::
    "fc_env \<Rightarrow> StreamID \<Rightarrow> ByteCount \<Rightarrow> flowControlManager \<Rightarrow> error option \<times> flowControlManager" where
  "AddBytesRead env streamID n f = on_stream (fc_AddBytesRead env n) streamID f"

definition AddBytesSent ::
    "StreamID \<Rightarrow> ByteCount \<Rightarrow> flowControlManager \<Rightarrow> error option \<times> flowControlManager" where
  "AddBytesSent streamID n f = on_stream (fc_AddBytesSent n) streamID f"

definition AddBytesRetrans ::
    "StreamID \<Rightarrow> ByteCount \<Rightarrow> flowControlManager \<Rightarrow> error option \<times> flowControlManager" where
  "AddBytesRetrans streamID n f = on_stream (fc_AddBytesRetrans n) streamID f"

text \<open>
  \<open>protocol.ByteCount(float64(newIncrement) * protocol.ConnectionFlowControlMultiplier)\<close>. Go leaves
  the conversion unspecified for a product of \<open>2 ^ 64\<close> or more; no window gets near it.
\<close>

definition times_ConnectionFlowControlMultiplier :: "ByteCount \<Rightarrow> ByteCount" where
  "times_ConnectionFlowControlMultiplier n =
     word_of_int (go_trunc (f64 (f64 (of_int (uint n)) * (3 / 2))))"

text \<open>
  The loop over the streams in \<open>GetWindowUpdates\<close>. Go iterates over a map in any order: the order is an
  argument.
\<close>

fun stream_updates ::
    "fc_env \<Rightarrow> bool \<Rightarrow> StreamID list \<Rightarrow> flowControlManager \<Rightarrow> (StreamID \<times> ByteCount) list \<times> flowControlManager" where
  "stream_updates env force [] f = ([], f)"
| "stream_updates env force (i # order) f =
     (case streamFlowController f i of
        None \<Rightarrow> stream_updates env force order f
      | Some fc \<Rightarrow>
          (case MaybeUpdateWindow env fc of
             ((necessary, newIncrement, offset), fc') \<Rightarrow>
               let f = f\<lparr>streamFlowController := (streamFlowController f)(i \<mapsto> fc')\<rparr> in
               if force \<or> necessary then
                 let f = (if contributesToConnection fc' \<and> newIncrement \<noteq> 0
                          then f\<lparr>connFlowController :=
                                  EnsureMinimumWindowIncrement
                                    (times_ConnectionFlowControlMultiplier newIncrement) (connFlowController f)\<rparr>
                          else f);
                     (res, f) = stream_updates env force order f
                 in ((i, offset) # res, f)
               else stream_updates env force order f))"

definition GetWindowUpdates ::
    "fc_env \<Rightarrow> bool \<Rightarrow> StreamID list \<Rightarrow> flowControlManager \<Rightarrow> (StreamID \<times> ByteCount) list \<times> flowControlManager" where
  "GetWindowUpdates env force order f =
     (let (res, f) = stream_updates env force order f in
      case MaybeUpdateWindow env (connFlowController f) of
        ((necessary, _, offset), conn) \<Rightarrow>
          (if force \<or> necessary then res @ [(0, offset)] else res, f\<lparr>connFlowController := conn\<rparr>))"

definition GetReceiveWindow :: "StreamID \<Rightarrow> flowControlManager \<Rightarrow> error + ByteCount" where
  "GetReceiveWindow streamID f =
     (if streamID = 0 then Inr (receiveWindow (connFlowController f))
      else case streamFlowController f streamID of
             None \<Rightarrow> Inl ErrMapAccess
           | Some fc \<Rightarrow> Inr (receiveWindow fc))"

definition GetBytesSent :: "StreamID \<Rightarrow> flowControlManager \<Rightarrow> error + ByteCount" where
  "GetBytesSent streamID f =
     (case streamFlowController f streamID of None \<Rightarrow> Inl ErrMapAccess | Some fc \<Rightarrow> Inr (bytesSent fc))"

definition GetBytesRetrans :: "StreamID \<Rightarrow> flowControlManager \<Rightarrow> error + ByteCount" where
  "GetBytesRetrans streamID f =
     (case streamFlowController f streamID of None \<Rightarrow> Inl ErrMapAccess | Some fc \<Rightarrow> Inr (bytesRetrans fc))"

definition SendWindowSize :: "fc_env \<Rightarrow> StreamID \<Rightarrow> flowControlManager \<Rightarrow> error + ByteCount" where
  "SendWindowSize env streamID f =
     (case streamFlowController f streamID of
        None \<Rightarrow> Inl ErrMapAccess
      | Some fc \<Rightarrow>
          Inr (if contributesToConnection fc
               then min (fc_SendWindowSize env fc) (fc_SendWindowSize env (connFlowController f))
               else fc_SendWindowSize env fc))"

definition RemainingConnectionWindowSize :: "fc_env \<Rightarrow> flowControlManager \<Rightarrow> ByteCount" where
  "RemainingConnectionWindowSize env f = fc_SendWindowSize env (connFlowController f)"

definition UpdateWindow ::
    "StreamID \<Rightarrow> ByteCount \<Rightarrow> flowControlManager \<Rightarrow> (error + bool) \<times> flowControlManager" where
  "UpdateWindow streamID offset f =
     (if streamID = 0 then
        (case UpdateSendWindow offset (connFlowController f) of
           (updated, c) \<Rightarrow> (Inr updated, f\<lparr>connFlowController := c\<rparr>))
      else
        (case streamFlowController f streamID of
           None \<Rightarrow> (Inl ErrMapAccess, f)
         | Some fc \<Rightarrow>
             (case UpdateSendWindow offset fc of
                (updated, c) \<Rightarrow>
                  (Inr updated, f\<lparr>streamFlowController := (streamFlowController f)(streamID \<mapsto> c)\<rparr>))))"

subsection \<open>A sender and a receiver\<close>

text \<open>
  The two ends of one flow-controlled quantity: the controller \<open>a\<close> of the sender and the controller
  \<open>b\<close> of the receiver, where \<open>W\<close> is the window that was negotiated in the handshake. The bounds keep
  all sums below \<open>2 ^ 64\<close>.
\<close>

definition fc_window :: "ByteCount \<Rightarrow> flowController \<Rightarrow> ByteCount" where
  "fc_window W c = (if sendWindow c = 0 then W else sendWindow c)"

definition link :: "ByteCount \<Rightarrow> flowController \<Rightarrow> flowController \<Rightarrow> bool" where
  "link W a b \<longleftrightarrow>
     unat (bytesRead b) \<le> unat (highestReceived b) \<and> unat (highestReceived b) \<le> unat (bytesSent a) \<and>
     unat (bytesSent a) < 2 ^ 63 \<and> unat (bytesSent a) \<le> unat (fc_window W a) \<and>
     unat (fc_window W a) \<le> unat (receiveWindow b) \<and> unat W \<le> unat (receiveWindow b) \<and>
     unat (receiveWindowIncrement b) \<le> unat (maxReceiveWindowIncrement b) \<and>
     unat (maxReceiveWindowIncrement b) \<le> 2 ^ 62"

lemma link_no_violation: "link W a b \<Longrightarrow> \<not> CheckFlowControlViolation b"
  by (simp add: link_def CheckFlowControlViolation_def word_less_nat_alt)

lemma link_sent:
  assumes "link W a b" "n \<le> fc_window W a - bytesSent a" "unat (bytesSent a) + unat n < 2 ^ 63"
  shows "link W (fc_AddBytesSent n a) b" "unat (bytesSent (fc_AddBytesSent n a)) = unat (bytesSent a) + unat n"
proof -
  have le: "bytesSent a \<le> fc_window W a" using assms(1) by (simp add: link_def word_le_nat_alt)
  show "unat (bytesSent (fc_AddBytesSent n a)) = unat (bytesSent a) + unat n"
    using assms(3) by (simp add: fc_AddBytesSent_def unat_word_ariths)
  moreover have "unat n \<le> unat (fc_window W a) - unat (bytesSent a)"
    using assms(2) le by (simp add: word_le_nat_alt unat_sub)
  ultimately show "link W (fc_AddBytesSent n a) b"
    using assms(1,3) le by (cases "sendWindow a = 0") (auto simp: link_def fc_window_def fc_AddBytesSent_def word_le_nat_alt)
qed

lemma link_received:
  "link W a b \<Longrightarrow> highestReceived b \<le> h \<Longrightarrow> h \<le> bytesSent a \<Longrightarrow> link W a (b\<lparr>highestReceived := h\<rparr>)"
  by (simp add: link_def word_le_nat_alt)

lemma link_read:
  assumes "link W a b" "unat (bytesRead b) + unat n \<le> unat (highestReceived b)"
  shows "link W a (fc_AddBytesRead env n b)" "unat (bytesRead (fc_AddBytesRead env n b)) = unat (bytesRead b) + unat n"
proof -
  have "unat (bytesRead b) + unat n < 2 ^ 64"
    using assms by (auto simp: link_def)
  then show "unat (bytesRead (fc_AddBytesRead env n b)) = unat (bytesRead b) + unat n"
    by (simp add: fc_AddBytesRead_def unat_word_ariths)
  then show "link W a (fc_AddBytesRead env n b)"
    using assms by (simp add: link_def fc_AddBytesRead_def)
qed

lemma link_window_update:
  "link W a b \<Longrightarrow> W \<le> off \<Longrightarrow> off \<le> receiveWindow b \<Longrightarrow> link W (snd (UpdateSendWindow off a)) b"
  by (cases "sendWindow a = 0") (auto simp: link_def UpdateSendWindow_def fc_window_def word_le_nat_alt word_less_nat_alt)

lemma adjusted_increment:
  assumes "unat (receiveWindowIncrement b) \<le> unat (maxReceiveWindowIncrement b)" "unat (maxReceiveWindowIncrement b) \<le> 2 ^ 62"
  shows "unat (receiveWindowIncrement b) \<le> unat (receiveWindowIncrement (maybeAdjustWindowIncrement env b))"
    "unat (receiveWindowIncrement (maybeAdjustWindowIncrement env b)) \<le> unat (maxReceiveWindowIncrement b)"
proof -
  have "unat (2 * receiveWindowIncrement b) = 2 * unat (receiveWindowIncrement b)"
    using assms by (simp add: unat_word_ariths)
  then show "unat (receiveWindowIncrement b) \<le> unat (receiveWindowIncrement (maybeAdjustWindowIncrement env b))"
    "unat (receiveWindowIncrement (maybeAdjustWindowIncrement env b)) \<le> unat (maxReceiveWindowIncrement b)"
    using assms by (auto simp: maybeAdjustWindowIncrement_def Let_def min_def word_le_nat_alt)
qed

lemma adjust_selectors [simp]:
  "bytesRead (maybeAdjustWindowIncrement env b) = bytesRead b"
  "bytesSent (maybeAdjustWindowIncrement env b) = bytesSent b"
  "highestReceived (maybeAdjustWindowIncrement env b) = highestReceived b"
  "receiveWindow (maybeAdjustWindowIncrement env b) = receiveWindow b"
  "maxReceiveWindowIncrement (maybeAdjustWindowIncrement env b) = maxReceiveWindowIncrement b"
  "contributesToConnection (maybeAdjustWindowIncrement env b) = contributesToConnection b"
  "fc_streamID (maybeAdjustWindowIncrement env b) = fc_streamID b"
  by (simp_all add: maybeAdjustWindowIncrement_def Let_def)

text \<open>The receive window never shrinks, as long as the increment is within its maximum.\<close>

lemma link_maybe_update:
  assumes "link W a b" "MaybeUpdateWindow env b = ((necessary, inc, off), b')"
  shows "link W a b'" "unat (receiveWindow b) \<le> unat (receiveWindow b')" "off = receiveWindow b'"
    "contributesToConnection b' = contributesToConnection b" "highestReceived b' = highestReceived b"
    "bytesRead b' = bytesRead b"
proof -
  let ?b = "maybeAdjustWindowIncrement env b"
  have L: "unat (receiveWindowIncrement b) \<le> unat (maxReceiveWindowIncrement b)" "unat (maxReceiveWindowIncrement b) \<le> 2 ^ 62"
    "unat (bytesRead b) < 2 ^ 63" "bytesRead b \<le> receiveWindow b"
    using assms(1) by (simp_all add: link_def word_le_nat_alt)
  have inc: "unat (receiveWindowIncrement b) \<le> unat (receiveWindowIncrement ?b)"
    "unat (receiveWindowIncrement ?b) \<le> unat (maxReceiveWindowIncrement b)"
    by (rule adjusted_increment [OF L(1,2)])+
  then have sum: "unat (bytesRead b + receiveWindowIncrement ?b) = unat (bytesRead b) + unat (receiveWindowIncrement ?b)"
    using L(2,3) by (simp add: unat_word_ariths)
  have d: "unat (receiveWindow b) < unat (bytesRead b) + unat (receiveWindowIncrement b)"
    if "receiveWindow b - bytesRead b < receiveWindowIncrement b div 2"
  proof -
    have "unat (receiveWindow b) - unat (bytesRead b) < unat (receiveWindowIncrement b) div 2"
      using that L(4) by (simp add: word_less_nat_alt unat_sub unat_div)
    then show ?thesis using L(4) by (simp add: word_le_nat_alt)
  qed
  show mono: "unat (receiveWindow b) \<le> unat (receiveWindow b')"
    using assms(2) d inc(1) sum by (auto simp: MaybeUpdateWindow_def Let_def split: if_splits)
  show "off = receiveWindow b'" "contributesToConnection b' = contributesToConnection b"
    "highestReceived b' = highestReceived b" "bytesRead b' = bytesRead b"
    using assms(2) by (auto simp: MaybeUpdateWindow_def Let_def split: if_splits)
  show "link W a b'"
    using assms mono inc by (auto simp: link_def MaybeUpdateWindow_def Let_def split: if_splits)
qed

lemma link_ensure: "link W a b \<Longrightarrow> link W a (EnsureMinimumWindowIncrement inc b)"
  by (auto simp: link_def EnsureMinimumWindowIncrement_def min_def word_le_nat_alt)

lemma ensure_selectors [simp]:
  "receiveWindow (EnsureMinimumWindowIncrement inc b) = receiveWindow b"
  "highestReceived (EnsureMinimumWindowIncrement inc b) = highestReceived b"
  "bytesRead (EnsureMinimumWindowIncrement inc b) = bytesRead b"
  by (simp_all add: EnsureMinimumWindowIncrement_def)

lemma newFlowController_selectors [simp]:
  "fc_streamID (newFlowController env i c) = i" "contributesToConnection (newFlowController env i c) = c"
  "bytesSent (newFlowController env i c) = 0" "sendWindow (newFlowController env i c) = 0"
  "bytesRead (newFlowController env i c) = 0" "highestReceived (newFlowController env i c) = 0"
  "lastWindowUpdateTime (newFlowController env i c) = None"
  "receiveWindow (newFlowController env i c) =
     (if i = 0 then receiveConnectionFlowControlWindow (connectionParameters env)
      else receiveStreamFlowControlWindow (connectionParameters env))"
  "receiveWindowIncrement (newFlowController env i c) = receiveWindow (newFlowController env i c)"
  "maxReceiveWindowIncrement (newFlowController env i c) =
     (if i = 0 then maxReceiveConnectionFlowControlWindow (connectionParameters env)
      else maxReceiveStreamFlowControlWindow (connectionParameters env))"
  by (simp_all add: newFlowController_def Let_def)

lemma link_new:
  assumes "unat (receiveWindow b) = unat W" "receiveWindowIncrement b = receiveWindow b"
    "unat (receiveWindow b) \<le> unat (maxReceiveWindowIncrement b)" "unat (maxReceiveWindowIncrement b) \<le> 2 ^ 62"
    "sendWindow a = 0" "bytesSent a = 0" "bytesRead b = 0" "highestReceived b = 0"
  shows "link W a b"
  using assms by (simp add: link_def fc_window_def)

text \<open>The sum of a counter over the streams that contribute to the connection.\<close>

definition total :: "(flowController \<Rightarrow> ByteCount) \<Rightarrow> (StreamID \<rightharpoonup> flowController) \<Rightarrow> nat" where
  "total cnt M = (\<Sum>i\<in>{i \<in> dom M. contributesToConnection (the (M i))}. unat (cnt (the (M i))))"

lemma total_upd:
  assumes "finite (dom M)" "M i = Some c" "contributesToConnection c' = contributesToConnection c"
  shows "total cnt (M(i \<mapsto> c')) + (if contributesToConnection c then unat (cnt c) else 0)
       = total cnt M + (if contributesToConnection c then unat (cnt c') else 0)"
proof -
  let ?A = "{j \<in> dom M. contributesToConnection (the (M j))}"
  have A: "{j \<in> dom (M(i \<mapsto> c')). contributesToConnection (the ((M(i \<mapsto> c')) j))} = ?A"
    using assms(2,3) by (auto split: if_splits)
  have fin: "finite ?A" using assms(1) by simp
  show ?thesis
  proof (cases "contributesToConnection c")
    case True
    then have i: "i \<in> ?A" using assms(2) by auto
    have "(\<Sum>j\<in>?A - {i}. unat (cnt (the ((M(i \<mapsto> c')) j)))) = (\<Sum>j\<in>?A - {i}. unat (cnt (the (M j))))"
      by (rule sum.cong) auto
    moreover have "total cnt (M(i \<mapsto> c')) = unat (cnt c') + (\<Sum>j\<in>?A - {i}. unat (cnt (the ((M(i \<mapsto> c')) j))))"
      unfolding total_def A by (subst sum.remove [OF fin i]) simp
    moreover have "total cnt M = unat (cnt c) + (\<Sum>j\<in>?A - {i}. unat (cnt (the (M j))))"
      unfolding total_def using assms(2) by (subst sum.remove [OF fin i]) simp
    ultimately show ?thesis using True by (simp only: if_True)
  next
    case False
    then have "i \<notin> ?A" using assms(2) by auto
    then have "(\<Sum>j\<in>?A. unat (cnt (the ((M(i \<mapsto> c')) j)))) = (\<Sum>j\<in>?A. unat (cnt (the (M j))))"
      by (intro sum.cong) auto
    then show ?thesis using False unfolding total_def A by simp
  qed
qed

lemma total_upd_same:
  "finite (dom M) \<Longrightarrow> M i = Some c \<Longrightarrow> contributesToConnection c' = contributesToConnection c \<Longrightarrow> cnt c' = cnt c \<Longrightarrow>
   total cnt (M(i \<mapsto> c')) = total cnt M"
  using total_upd [of M i c c' cnt] by auto

lemma total_new:
  assumes "finite (dom M)" "M i = None" "cnt c = 0"
  shows "total cnt (M(i \<mapsto> c)) = total cnt M"
proof -
  let ?A = "{j \<in> dom M. contributesToConnection (the (M j))}"
  have "i \<notin> ?A" using assms(2) by auto
  then have s: "(\<Sum>j\<in>?A. unat (cnt (the ((M(i \<mapsto> c)) j)))) = (\<Sum>j\<in>?A. unat (cnt (the (M j))))"
    by (intro sum.cong) auto
  have "{j \<in> dom (M(i \<mapsto> c)). contributesToConnection (the ((M(i \<mapsto> c)) j))}
      = (if contributesToConnection c then insert i ?A else ?A)" using assms(2) by auto
  then show ?thesis using assms(1,3) s \<open>i \<notin> ?A\<close> by (simp add: total_def)
qed

lemma total_mono:
  assumes "finite (dom M)" "dom N = dom M"
    "\<And>i c d. M i = Some c \<Longrightarrow> N i = Some d \<Longrightarrow> contributesToConnection d = contributesToConnection c \<and> unat (f c) \<le> unat (g d)"
  shows "total f M \<le> total g N"
proof -
  have *: "contributesToConnection (the (N i)) = contributesToConnection (the (M i)) \<and> unat (f (the (M i))) \<le> unat (g (the (N i)))"
    if i: "i \<in> dom M" for i
  proof -
    obtain c d where "M i = Some c" "N i = Some d" using i assms(2) by blast
    then show ?thesis using assms(3) [of i c d] by simp
  qed
  then have e: "{i \<in> dom N. contributesToConnection (the (N i))} = {i \<in> dom M. contributesToConnection (the (M i))}"
    using assms(2) by blast
  show ?thesis unfolding total_def e by (rule sum_mono) (use * in blast)
qed

subsection \<open>Runs of the two managers\<close>

text \<open>
  The manager of the sender, the manager of the receiver and the window updates that have been sent
  and may arrive at any later time, in any order and more than once.
\<close>

record fc_system =
  fcs_sender :: flowControlManager
  fcs_receiver :: flowControlManager
  fcs_updates :: "(StreamID \<times> ByteCount) list"

text \<open>Both ends know the negotiated windows, and the receiver's maxima are not smaller.\<close>

definition negotiated :: "ByteCount \<Rightarrow> ByteCount \<Rightarrow> fc_env \<Rightarrow> fc_env \<Rightarrow> bool" where
  "negotiated Ws Wc es er \<longleftrightarrow>
     sendStreamFlowControlWindow (connectionParameters es) = Ws \<and>
     sendConnectionFlowControlWindow (connectionParameters es) = Wc \<and>
     receiveStreamFlowControlWindow (connectionParameters er) = Ws \<and>
     receiveConnectionFlowControlWindow (connectionParameters er) = Wc \<and>
     Ws \<le> maxReceiveStreamFlowControlWindow (connectionParameters er) \<and>
     Wc \<le> maxReceiveConnectionFlowControlWindow (connectionParameters er) \<and>
     unat (maxReceiveStreamFlowControlWindow (connectionParameters er)) \<le> 2 ^ 62 \<and>
     unat (maxReceiveConnectionFlowControlWindow (connectionParameters er)) \<le> 2 ^ 62"

text \<open>
  A step of the system. A sender that honours \<open>SendWindowSize\<close> sends at most that many bytes; data
  that arrives ends at an offset that has been sent; the application reads data that has arrived.
\<close>

inductive fc_step :: "ByteCount \<Rightarrow> ByteCount \<Rightarrow> fc_system \<Rightarrow> fc_system \<Rightarrow> bool" for Ws Wc where
  step_new: "negotiated Ws Wc es er \<Longrightarrow> i \<noteq> 0 \<Longrightarrow>
     fc_step Ws Wc s (s\<lparr>fcs_sender := NewStream es i c (fcs_sender s), fcs_receiver := NewStream er i c (fcs_receiver s)\<rparr>)"
| step_send: "negotiated Ws Wc es er \<Longrightarrow> SendWindowSize es i (fcs_sender s) = Inr w \<Longrightarrow> n \<le> w \<Longrightarrow>
     AddBytesSent i n (fcs_sender s) = (None, f) \<Longrightarrow>
     (\<And>c. streamFlowController (fcs_sender s) i = Some c \<Longrightarrow> unat (bytesSent c) + unat n < 2 ^ 63) \<Longrightarrow>
     unat (bytesSent (connFlowController (fcs_sender s))) + unat n < 2 ^ 63 \<Longrightarrow>
     fc_step Ws Wc s (s\<lparr>fcs_sender := f\<rparr>)"
| step_arrive: "GetBytesSent i (fcs_sender s) = Inr b \<Longrightarrow> off \<le> b \<Longrightarrow>
     UpdateHighestReceived i off (fcs_receiver s) = (e, f) \<Longrightarrow> fc_step Ws Wc s (s\<lparr>fcs_receiver := f\<rparr>)"
| step_read: "streamFlowController (fcs_receiver s) i = Some c \<Longrightarrow>
     unat (bytesRead c) + unat n \<le> unat (highestReceived c) \<Longrightarrow>
     AddBytesRead er i n (fcs_receiver s) = (e, f) \<Longrightarrow> fc_step Ws Wc s (s\<lparr>fcs_receiver := f\<rparr>)"
| step_publish: "GetWindowUpdates er force order (fcs_receiver s) = (us, f) \<Longrightarrow>
     fc_step Ws Wc s (s\<lparr>fcs_receiver := f, fcs_updates := us @ fcs_updates s\<rparr>)"
| step_update: "(i, off) \<in> set (fcs_updates s) \<Longrightarrow> UpdateWindow i off (fcs_sender s) = (r, f) \<Longrightarrow>
     fc_step Ws Wc s (s\<lparr>fcs_sender := f\<rparr>)"

definition fc_start :: "fc_env \<Rightarrow> fc_env \<Rightarrow> fc_system" where
  "fc_start es er =
     \<lparr>fcs_sender = NewFlowControlManager es, fcs_receiver = NewFlowControlManager er, fcs_updates = []\<rparr>"

inductive fc_reachable :: "ByteCount \<Rightarrow> ByteCount \<Rightarrow> fc_system \<Rightarrow> bool" for Ws Wc where
  fc_init: "negotiated Ws Wc es er \<Longrightarrow> fc_reachable Ws Wc (fc_start es er)"
| fc_more: "fc_reachable Ws Wc s \<Longrightarrow> fc_step Ws Wc s s' \<Longrightarrow> fc_reachable Ws Wc s'"

text \<open>The invariant of the system.\<close>

definition receive_windows :: "flowControlManager \<Rightarrow> StreamID \<Rightarrow> ByteCount option" where
  "receive_windows f i =
     (if i = 0 then Some (receiveWindow (connFlowController f)) else map_option receiveWindow (streamFlowController f i))"

definition streams_linked :: "ByteCount \<Rightarrow> (StreamID \<rightharpoonup> flowController) \<Rightarrow> (StreamID \<rightharpoonup> flowController) \<Rightarrow> bool" where
  "streams_linked Ws S R \<longleftrightarrow>
     dom R = dom S \<and> finite (dom S) \<and>
     (\<forall>i a b. S i = Some a \<longrightarrow> R i = Some b \<longrightarrow>
        i \<noteq> 0 \<and> fc_streamID a = i \<and> contributesToConnection a = contributesToConnection b \<and> link Ws a b)"

definition fc_inv :: "ByteCount \<Rightarrow> ByteCount \<Rightarrow> fc_system \<Rightarrow> bool" where
  "fc_inv Ws Wc s \<longleftrightarrow>
     streams_linked Ws (streamFlowController (fcs_sender s)) (streamFlowController (fcs_receiver s)) \<and>
     link Wc (connFlowController (fcs_sender s)) (connFlowController (fcs_receiver s)) \<and>
     fc_streamID (connFlowController (fcs_sender s)) = 0 \<and>
     unat (bytesSent (connFlowController (fcs_sender s))) = total bytesSent (streamFlowController (fcs_sender s)) \<and>
     unat (highestReceived (connFlowController (fcs_receiver s))) = total highestReceived (streamFlowController (fcs_receiver s)) \<and>
     unat (bytesRead (connFlowController (fcs_receiver s))) = total bytesRead (streamFlowController (fcs_receiver s)) \<and>
     (\<forall>(i, off)\<in>set (fcs_updates s). (if i = 0 then Wc else Ws) \<le> off \<and>
        (\<exists>w. receive_windows (fcs_receiver s) i = Some w \<and> off \<le> w))"

lemma streams_linkedD:
  assumes "streams_linked Ws S R"
  shows "dom R = dom S" "finite (dom S)" "S i = Some a \<Longrightarrow> R i = Some b \<Longrightarrow> i \<noteq> 0"
    "S i = Some a \<Longrightarrow> R i = Some b \<Longrightarrow> fc_streamID a = i"
    "S i = Some a \<Longrightarrow> R i = Some b \<Longrightarrow> contributesToConnection a = contributesToConnection b"
    "S i = Some a \<Longrightarrow> R i = Some b \<Longrightarrow> link Ws a b"
    "S i = Some a \<Longrightarrow> \<exists>b. R i = Some b" "R i = Some b \<Longrightarrow> \<exists>a. S i = Some a"
  using assms unfolding streams_linked_def by blast+

lemma streams_linked_upd:
  assumes "streams_linked Ws S R" "i \<noteq> 0" "link Ws a b" "fc_streamID a = i"
    "contributesToConnection a = contributesToConnection b"
  shows "streams_linked Ws (S(i \<mapsto> a)) (R(i \<mapsto> b))"
proof -
  have "j \<noteq> 0 \<and> fc_streamID a' = j \<and> contributesToConnection a' = contributesToConnection b' \<and> link Ws a' b'"
    if "(S(i \<mapsto> a)) j = Some a'" "(R(i \<mapsto> b)) j = Some b'" for j a' b'
    using that assms(2-) streams_linkedD(3-6) [OF assms(1), of j a' b'] by (cases "j = i") simp_all
  moreover have "dom (R(i \<mapsto> b)) = dom (S(i \<mapsto> a))" "finite (dom (S(i \<mapsto> a)))"
    using streams_linkedD(1,2) [OF assms(1)] by simp_all
  ultimately show ?thesis unfolding streams_linked_def by blast
qed

lemma streams_linked_sender:
  "streams_linked Ws S R \<Longrightarrow> S i = Some a0 \<Longrightarrow> R i = Some b \<Longrightarrow> link Ws a b \<Longrightarrow> fc_streamID a = i \<Longrightarrow>
   contributesToConnection a = contributesToConnection b \<Longrightarrow> streams_linked Ws (S(i \<mapsto> a)) R"
  using streams_linked_upd [of Ws S R i a b] streams_linkedD(3) [of Ws S R i a0 b] by (simp add: fun_upd_idem)

lemma streams_linked_receiver:
  "streams_linked Ws S R \<Longrightarrow> S i = Some a \<Longrightarrow> R i = Some b0 \<Longrightarrow> link Ws a b \<Longrightarrow>
   contributesToConnection a = contributesToConnection b \<Longrightarrow> streams_linked Ws S (R(i \<mapsto> b))"
  using streams_linked_upd [of Ws S R i a b] streams_linkedD(3,4) [of Ws S R i a b0] by (simp add: fun_upd_idem)

lemma fc_invD:
  assumes "fc_inv Ws Wc s"
  shows "streams_linked Ws (streamFlowController (fcs_sender s)) (streamFlowController (fcs_receiver s))"
    "link Wc (connFlowController (fcs_sender s)) (connFlowController (fcs_receiver s))"
    "fc_streamID (connFlowController (fcs_sender s)) = 0"
    "unat (bytesSent (connFlowController (fcs_sender s))) = total bytesSent (streamFlowController (fcs_sender s))"
    "unat (highestReceived (connFlowController (fcs_receiver s))) = total highestReceived (streamFlowController (fcs_receiver s))"
    "unat (bytesRead (connFlowController (fcs_receiver s))) = total bytesRead (streamFlowController (fcs_receiver s))"
    "(i, off) \<in> set (fcs_updates s) \<Longrightarrow> (if i = 0 then Wc else Ws) \<le> off"
    "(i, off) \<in> set (fcs_updates s) \<Longrightarrow> \<exists>w. receive_windows (fcs_receiver s) i = Some w \<and> off \<le> w"
  using assms unfolding fc_inv_def by blast+

lemma fc_inv_start: "negotiated Ws Wc es er \<Longrightarrow> fc_inv Ws Wc (fc_start es er)"
  by (auto simp: fc_inv_def fc_start_def NewFlowControlManager_def negotiated_def
      streams_linked_def total_def word_le_nat_alt intro!: link_new)

lemma SendWindow_window:
  "negotiated Ws Wc es er \<Longrightarrow> getSendWindow es c = fc_window (if fc_streamID c = 0 then Wc else Ws) c"
  by (simp add: getSendWindow_def negotiated_def fc_window_def)

lemma inv_new:
  assumes "fc_inv Ws Wc s" "negotiated Ws Wc es er" "i \<noteq> 0"
  shows "fc_inv Ws Wc (s\<lparr>fcs_sender := NewStream es i c (fcs_sender s), fcs_receiver := NewStream er i c (fcs_receiver s)\<rparr>)"
proof -
  let ?S = "streamFlowController (fcs_sender s)" and ?R = "streamFlowController (fcs_receiver s)"
  note I = fc_invD [OF assms(1)]
  show ?thesis
  proof (cases "i \<in> dom ?S")
    case True
    moreover from True have "i \<in> dom ?R" using streams_linkedD(1) [OF I(1)] by simp
    ultimately show ?thesis using assms(1) by (auto simp: NewStream_def)
  next
    case False
    then have n: "?S i = None" "?R i = None" using streams_linkedD(1) [OF I(1)] by auto
    let ?a = "newFlowController es i c" and ?b = "newFlowController er i c"
    have l: "link Ws ?a ?b"
      using assms(2,3) by (intro link_new) (simp_all add: negotiated_def word_le_nat_alt)
    have "streams_linked Ws (?S(i \<mapsto> ?a)) (?R(i \<mapsto> ?b))"
      using streams_linked_upd [OF I(1) assms(3) l] by simp
    moreover have "finite (dom ?S)" "finite (dom ?R)" using streams_linkedD(1,2) [OF I(1)] by simp_all
    then have "total bytesSent (?S(i \<mapsto> ?a)) = total bytesSent ?S"
      "total highestReceived (?R(i \<mapsto> ?b)) = total highestReceived ?R" "total bytesRead (?R(i \<mapsto> ?b)) = total bytesRead ?R"
      using n by (simp_all add: total_new)
    moreover have "\<exists>w. receive_windows (NewStream er i c (fcs_receiver s)) j = Some w \<and> off \<le> w"
      if "(j, off) \<in> set (fcs_updates s)" for j off
      using I(8) [OF that] n by (auto simp: receive_windows_def NewStream_def)
    ultimately show ?thesis
      using I(2-7) n unfolding fc_inv_def by (fastforce simp: NewStream_def)
  qed
qed

lemma inv_send:
  assumes "fc_inv Ws Wc s" "negotiated Ws Wc es er" "SendWindowSize es i (fcs_sender s) = Inr w" "n \<le> w"
    "AddBytesSent i n (fcs_sender s) = (None, f)"
    "\<And>c. streamFlowController (fcs_sender s) i = Some c \<Longrightarrow> unat (bytesSent c) + unat n < 2 ^ 63"
    "unat (bytesSent (connFlowController (fcs_sender s))) + unat n < 2 ^ 63"
  shows "fc_inv Ws Wc (s\<lparr>fcs_sender := f\<rparr>)"
proof -
  let ?S = "streamFlowController (fcs_sender s)" and ?R = "streamFlowController (fcs_receiver s)"
  let ?C = "connFlowController (fcs_sender s)"
  note I = fc_invD [OF assms(1)]
  obtain a where a: "?S i = Some a" using assms(3) by (auto simp: SendWindowSize_def split: option.splits)
  then obtain b where b: "?R i = Some b" using streams_linkedD(7) [OF I(1)] by blast
  note L = streams_linkedD(3-6) [OF I(1) a b]
  have size: "n \<le> fc_window W c - bytesSent c"
    if "link W c d" "n \<le> fc_SendWindowSize es c" "getSendWindow es c = fc_window W c" for W c d
    using that by (auto simp: fc_SendWindowSize_def link_def word_less_nat_alt Let_def split: if_splits)
  have "n \<le> fc_SendWindowSize es a" using assms(3,4) a by (auto simp: SendWindowSize_def split: if_splits)
  then have "n \<le> fc_window Ws a - bytesSent a"
    using size [OF L(4)] SendWindow_window [OF assms(2), of a] L(1,2) by simp
  from link_sent [OF L(4) this assms(6) [OF a]]
  have la: "link Ws (fc_AddBytesSent n a) b" "unat (bytesSent (fc_AddBytesSent n a)) = unat (bytesSent a) + unat n" .
  have sl: "streams_linked Ws (?S(i \<mapsto> fc_AddBytesSent n a)) ?R"
    using streams_linked_sender [OF I(1) a b la(1)] L(2,3) by (simp add: fc_AddBytesSent_def)
  have t: "total bytesSent (?S(i \<mapsto> fc_AddBytesSent n a)) = total bytesSent ?S + (if contributesToConnection a then unat n else 0)"
    using total_upd [of ?S i a "fc_AddBytesSent n a" bytesSent] streams_linkedD(2) [OF I(1)] a la(2)
    by (simp add: fc_AddBytesSent_def split: if_splits)
  show ?thesis
  proof (cases "contributesToConnection a")
    case True
    then have "n \<le> fc_SendWindowSize es ?C" using assms(3,4) a by (auto simp: SendWindowSize_def)
    then have "n \<le> fc_window Wc ?C - bytesSent ?C"
      using size [OF I(2)] SendWindow_window [OF assms(2), of ?C] I(3) by simp
    from link_sent [OF I(2) this assms(7)]
    have "link Wc (fc_AddBytesSent n ?C) (connFlowController (fcs_receiver s))"
      "unat (bytesSent (fc_AddBytesSent n ?C)) = unat (bytesSent ?C) + unat n" .
    moreover have "f = (fcs_sender s)\<lparr>streamFlowController := ?S(i \<mapsto> fc_AddBytesSent n a), connFlowController := fc_AddBytesSent n ?C\<rparr>"
      using assms(5) a True by (simp add: AddBytesSent_def on_stream_def)
    moreover have "fc_streamID (fc_AddBytesSent n ?C) = 0" using I(3) by (simp add: fc_AddBytesSent_def)
    ultimately show ?thesis using sl t True I(4-8) unfolding fc_inv_def by auto
  next
    case False
    then have "f = (fcs_sender s)\<lparr>streamFlowController := ?S(i \<mapsto> fc_AddBytesSent n a)\<rparr>"
      using assms(5) a by (simp add: AddBytesSent_def on_stream_def)
    then show ?thesis using sl t False I(2-8) unfolding fc_inv_def by auto
  qed
qed

lemma fc_received_cases:
  assumes "fc_UpdateHighestReceived off b = ((inc, e), b')"
  shows "b' = b\<lparr>highestReceived := max (highestReceived b) off\<rparr>"
    "unat (highestReceived b') = unat (highestReceived b) + unat inc"
proof -
  show b': "b' = b\<lparr>highestReceived := max (highestReceived b) off\<rparr>"
    using assms by (auto simp: fc_UpdateHighestReceived_def max_def split: if_splits)
  show "unat (highestReceived b') = unat (highestReceived b) + unat inc"
    using assms by (auto simp: fc_UpdateHighestReceived_def unat_sub word_less_nat_alt word_le_nat_alt split: if_splits)
qed

lemma AddBytesRead_selectors [simp]:
  "highestReceived (fc_AddBytesRead env n c) = highestReceived c"
  "receiveWindow (fc_AddBytesRead env n c) = receiveWindow c"
  "contributesToConnection (fc_AddBytesRead env n c) = contributesToConnection c"
  by (simp_all add: fc_AddBytesRead_def Let_def)

text \<open>Replacing one controller of the receiver and the controller of the connection.\<close>

lemma inv_receiver:
  assumes inv: "fc_inv Ws Wc s" and a: "streamFlowController (fcs_sender s) i = Some a"
    and b: "streamFlowController (fcs_receiver s) i = Some b"
    and l: "link Ws a b'" "contributesToConnection b' = contributesToConnection b"
    and conn: "link Wc (connFlowController (fcs_sender s)) conn"
    and tot: "unat (highestReceived conn) = total highestReceived ((streamFlowController (fcs_receiver s))(i \<mapsto> b'))"
      "unat (bytesRead conn) = total bytesRead ((streamFlowController (fcs_receiver s))(i \<mapsto> b'))"
    and mono: "unat (receiveWindow b) \<le> unat (receiveWindow b')"
      "unat (receiveWindow (connFlowController (fcs_receiver s))) \<le> unat (receiveWindow conn)"
  shows "fc_inv Ws Wc (s\<lparr>fcs_receiver := (fcs_receiver s)\<lparr>streamFlowController := (streamFlowController (fcs_receiver s))(i \<mapsto> b'),
           connFlowController := conn\<rparr>\<rparr>)"
proof -
  note I = fc_invD [OF inv]
  have "streams_linked Ws (streamFlowController (fcs_sender s)) ((streamFlowController (fcs_receiver s))(i \<mapsto> b'))"
    using streams_linked_receiver [OF I(1) a b l(1)] streams_linkedD(5) [OF I(1) a b] l(2) by simp
  moreover have "\<exists>w. receive_windows ((fcs_receiver s)\<lparr>streamFlowController := (streamFlowController (fcs_receiver s))(i \<mapsto> b'),
      connFlowController := conn\<rparr>) j = Some w \<and> off \<le> w" if "(j, off) \<in> set (fcs_updates s)" for j off
    using I(8) [OF that] mono b by (auto simp: receive_windows_def word_le_nat_alt split: if_splits)
  ultimately show ?thesis
    unfolding fc_inv_def using I(3,4,7) conn tot by (auto split: prod.split)
qed

lemma inv_arrive:
  assumes inv: "fc_inv Ws Wc s" and g: "GetBytesSent i (fcs_sender s) = Inr m" "off \<le> m"
    and u: "UpdateHighestReceived i off (fcs_receiver s) = (e, f)"
  shows "fc_inv Ws Wc (s\<lparr>fcs_receiver := f\<rparr>)" "e = None"
proof -
  let ?S = "streamFlowController (fcs_sender s)" and ?R = "streamFlowController (fcs_receiver s)"
  let ?C = "connFlowController (fcs_receiver s)"
  note I = fc_invD [OF inv]
  obtain a where a: "?S i = Some a" "m = bytesSent a" using g by (auto simp: GetBytesSent_def split: option.splits)
  then obtain b where b: "?R i = Some b" using streams_linkedD(7) [OF I(1)] by blast
  note L = streams_linkedD(3-6) [OF I(1) a(1) b]
  obtain inc e' b' where U: "fc_UpdateHighestReceived off b = ((inc, e'), b')" by (metis surj_pair)
  note b' = fc_received_cases [OF U]
  have "max (highestReceived b) off \<le> bytesSent a" using L(4) g(2) a(2) by (auto simp: link_def max_def word_le_nat_alt)
  then have l: "link Ws a b'" unfolding b'(1) by (intro link_received [OF L(4)]) simp_all
  have sel: "contributesToConnection b' = contributesToConnection b" "bytesRead b' = bytesRead b" "receiveWindow b' = receiveWindow b"
    by (simp_all add: b'(1))
  have fin: "finite (dom ?R)" using streams_linkedD(1,2) [OF I(1)] by simp
  have t: "total highestReceived (?R(i \<mapsto> b')) = total highestReceived ?R + (if contributesToConnection b then unat inc else 0)"
    "total bytesRead (?R(i \<mapsto> b')) = total bytesRead ?R"
    using total_upd [OF fin b sel(1), of highestReceived] total_upd [OF fin b sel(1), of bytesRead] b'(2) sel(2)
    by (auto split: if_splits)
  have sl: "streams_linked Ws ?S (?R(i \<mapsto> b'))"
    using streams_linked_receiver [OF I(1) a(1) b l] L(3) sel(1) by simp
  have "total highestReceived (?R(i \<mapsto> b')) \<le> total bytesSent ?S"
  proof (rule total_mono)
    show "finite (dom (?R(i \<mapsto> b')))" using fin by simp
    show "dom ?S = dom (?R(i \<mapsto> b'))" using streams_linkedD(1) [OF sl] by simp
    fix j c d assume "(?R(i \<mapsto> b')) j = Some c" "?S j = Some d"
    then show "contributesToConnection d = contributesToConnection c \<and> unat (highestReceived c) \<le> unat (bytesSent d)"
      using streams_linkedD(5,6) [OF sl] by (simp add: link_def)
  qed
  then have le: "contributesToConnection b \<Longrightarrow> unat (highestReceived ?C) + unat inc \<le> unat (bytesSent (connFlowController (fcs_sender s)))"
    using t(1) I(4,5) by simp
  have conn: "link Wc (connFlowController (fcs_sender s)) (IncrementHighestReceived inc ?C)"
    "unat (highestReceived (IncrementHighestReceived inc ?C)) = unat (highestReceived ?C) + unat inc"
    if "contributesToConnection b"
  proof -
    have "unat (bytesSent (connFlowController (fcs_sender s))) < 2 ^ 63" using I(2) by (simp add: link_def)
    then show n: "unat (highestReceived (IncrementHighestReceived inc ?C)) = unat (highestReceived ?C) + unat inc"
      using le [OF that] by (simp add: IncrementHighestReceived_def unat_word_ariths)
    then show "link Wc (connFlowController (fcs_sender s)) (IncrementHighestReceived inc ?C)"
      using le [OF that] I(2) unfolding IncrementHighestReceived_def
      by (intro link_received) (simp_all add: word_le_nat_alt)
  qed
  have "e = None \<and> f = (fcs_receiver s)\<lparr>streamFlowController := ?R(i \<mapsto> b'),
      connFlowController := (if contributesToConnection b then IncrementHighestReceived inc ?C else ?C)\<rparr>"
    using u b U sel(1) link_no_violation [OF l] link_no_violation [OF conn(1)]
    by (auto simp: UpdateHighestReceived_def received_more_def Let_def split: if_splits)
  then show "e = None" "fc_inv Ws Wc (s\<lparr>fcs_receiver := f\<rparr>)"
    using inv_receiver [OF inv a(1) b l sel(1), of "if contributesToConnection b then IncrementHighestReceived inc ?C else ?C"]
      conn t I(2,5,6) sel(3) by (simp_all add: IncrementHighestReceived_def)
qed

lemma inv_read:
  assumes inv: "fc_inv Ws Wc s" and b: "streamFlowController (fcs_receiver s) i = Some b"
    and n: "unat (bytesRead b) + unat n \<le> unat (highestReceived b)"
    and u: "AddBytesRead er i n (fcs_receiver s) = (e, f)"
  shows "fc_inv Ws Wc (s\<lparr>fcs_receiver := f\<rparr>)"
proof -
  let ?R = "streamFlowController (fcs_receiver s)" and ?C = "connFlowController (fcs_receiver s)"
  note I = fc_invD [OF inv]
  obtain a where a: "streamFlowController (fcs_sender s) i = Some a" using streams_linkedD(8) [OF I(1) b] by blast
  note L = streams_linkedD(3-6) [OF I(1) a b]
  let ?b = "fc_AddBytesRead er n b"
  note l = link_read [OF L(4) n]
  have sel: "contributesToConnection ?b = contributesToConnection b" "highestReceived ?b = highestReceived b" "receiveWindow ?b = receiveWindow b"
    by simp_all
  have fin: "finite (dom ?R)" using streams_linkedD(1,2) [OF I(1)] by simp
  have t: "total bytesRead (?R(i \<mapsto> ?b)) = total bytesRead ?R + (if contributesToConnection b then unat n else 0)"
    "total highestReceived (?R(i \<mapsto> ?b)) = total highestReceived ?R"
    using total_upd [OF fin b sel(1), of bytesRead] total_upd [OF fin b sel(1), of highestReceived] l(2) [of er] sel(2)
    by (auto split: if_splits)
  have le: "total bytesRead (?R(i \<mapsto> ?b)) \<le> total highestReceived (?R(i \<mapsto> ?b))"
  proof (rule total_mono)
    show "finite (dom (?R(i \<mapsto> ?b)))" using fin by simp
    fix j c d assume jc: "(?R(i \<mapsto> ?b)) j = Some c" "(?R(i \<mapsto> ?b)) j = Some d"
    have sl: "streams_linked Ws (streamFlowController (fcs_sender s)) (?R(i \<mapsto> ?b))"
      using streams_linked_receiver [OF I(1) a b l(1)] L(3) sel(1) by simp
    obtain a' where "streamFlowController (fcs_sender s) j = Some a'" using streams_linkedD(8) [OF sl jc(1)] by blast
    then show "contributesToConnection d = contributesToConnection c \<and> unat (bytesRead c) \<le> unat (highestReceived d)"
      using streams_linkedD(6) [OF sl _ jc(1)] jc by (simp add: link_def)
  qed simp
  have conn: "unat (bytesRead ?C) + unat n \<le> unat (highestReceived ?C)" if "contributesToConnection b"
    using le t that I(5,6) by simp
  have "f = (fcs_receiver s)\<lparr>streamFlowController := ?R(i \<mapsto> ?b),
      connFlowController := (if contributesToConnection b then fc_AddBytesRead er n ?C else ?C)\<rparr>"
    using u b by (auto simp: AddBytesRead_def on_stream_def Let_def)
  then show ?thesis
    using inv_receiver [OF inv a b l(1) sel(1), of "if contributesToConnection b then fc_AddBytesRead er n ?C else ?C"]
      link_read [OF I(2) conn, of er] t I(2,5,6) by (cases "contributesToConnection b") simp_all
qed

text \<open>Receive windows only grow.\<close>

definition grown :: "flowControlManager \<Rightarrow> flowControlManager \<Rightarrow> bool" where
  "grown f f' \<longleftrightarrow> (\<forall>i w. receive_windows f i = Some w \<longrightarrow> (\<exists>w'. receive_windows f' i = Some w' \<and> w \<le> w'))"

definition fresh_updates :: "ByteCount \<Rightarrow> flowControlManager \<Rightarrow> (StreamID \<times> ByteCount) list \<Rightarrow> bool" where
  "fresh_updates Ws f us \<longleftrightarrow>
     (\<forall>(i, off)\<in>set us. i \<noteq> 0 \<and> Ws \<le> off \<and> (\<exists>w. receive_windows f i = Some w \<and> off \<le> w))"

lemma grown_refl [simp]: "grown f f"
  by (simp add: grown_def)

lemma grown_trans: "grown f g \<Longrightarrow> grown g h \<Longrightarrow> grown f h"
  unfolding grown_def by (meson order.trans)

lemma fresh_updates_grown: "fresh_updates Ws f us \<Longrightarrow> grown f g \<Longrightarrow> fresh_updates Ws g us"
  unfolding fresh_updates_def grown_def by (fastforce intro: order.trans)

lemma inv_stream_window:
  assumes inv: "fc_inv Ws Wc s" and b: "streamFlowController (fcs_receiver s) i = Some b"
    and M: "MaybeUpdateWindow env b = ((nec, inc, off), b')"
    and conn: "conn = connFlowController (fcs_receiver s) \<or> conn = EnsureMinimumWindowIncrement x (connFlowController (fcs_receiver s))"
    and f: "f = (fcs_receiver s)\<lparr>streamFlowController := (streamFlowController (fcs_receiver s))(i \<mapsto> b'), connFlowController := conn\<rparr>"
  shows "fc_inv Ws Wc (s\<lparr>fcs_receiver := f\<rparr>)" "grown (fcs_receiver s) f" "fresh_updates Ws f [(i, off)]"
proof -
  let ?R = "streamFlowController (fcs_receiver s)" and ?C = "connFlowController (fcs_receiver s)"
  note I = fc_invD [OF inv]
  obtain a where a: "streamFlowController (fcs_sender s) i = Some a" using streams_linkedD(8) [OF I(1) b] by blast
  note L = streams_linkedD(3-6) [OF I(1) a b]
  note m = link_maybe_update [OF L(4) M]
  have fin: "finite (dom ?R)" using streams_linkedD(1,2) [OF I(1)] by simp
  have t: "total bytesRead (?R(i \<mapsto> b')) = total bytesRead ?R" "total highestReceived (?R(i \<mapsto> b')) = total highestReceived ?R"
    using total_upd_same [OF fin b m(4)] m(5,6) by simp_all
  have c: "link Wc (connFlowController (fcs_sender s)) conn" "receiveWindow conn = receiveWindow ?C"
    "highestReceived conn = highestReceived ?C" "bytesRead conn = bytesRead ?C"
    using conn I(2) link_ensure by auto
  show "fc_inv Ws Wc (s\<lparr>fcs_receiver := f\<rparr>)"
    unfolding f by (rule inv_receiver [OF inv a b m(1,4) c(1)]) (use c t I(5,6) m(2) in simp_all)
  show "grown (fcs_receiver s) f"
    using b m(2) c(2) by (auto simp: grown_def f receive_windows_def word_le_nat_alt split: if_splits)
  show "fresh_updates Ws f [(i, off)]"
    using m(1,3) L(1) by (auto simp: fresh_updates_def f receive_windows_def link_def word_le_nat_alt)
qed

lemma fresh_updates_Cons: "fresh_updates Ws f (u # us) \<longleftrightarrow> fresh_updates Ws f [u] \<and> fresh_updates Ws f us"
  by (auto simp: fresh_updates_def)

lemma inv_stream_updates:
  "fc_inv Ws Wc s \<Longrightarrow> stream_updates env force order (fcs_receiver s) = (us, f) \<Longrightarrow>
   fc_inv Ws Wc (s\<lparr>fcs_receiver := f\<rparr>) \<and> grown (fcs_receiver s) f \<and> fresh_updates Ws f us"
proof (induction order arbitrary: s us f)
  case Nil
  then show ?case by (auto simp: fresh_updates_def)
next
  case (Cons i order)
  show ?case
  proof (cases "streamFlowController (fcs_receiver s) i")
    case None
    then show ?thesis using Cons by simp
  next
    case (Some b)
    obtain nec inc off b' where M: "MaybeUpdateWindow env b = ((nec, inc, off), b')" by (metis surj_pair)
    define conn where "conn = (if (force \<or> nec) \<and> contributesToConnection b' \<and> inc \<noteq> 0
        then EnsureMinimumWindowIncrement (times_ConnectionFlowControlMultiplier inc) (connFlowController (fcs_receiver s))
        else connFlowController (fcs_receiver s))"
    define g where "g = (fcs_receiver s)\<lparr>streamFlowController := (streamFlowController (fcs_receiver s))(i \<mapsto> b'), connFlowController := conn\<rparr>"
    obtain us' where us': "stream_updates env force order g = (us', f)" "us = (if force \<or> nec then (i, off) # us' else us')"
      using Cons.prems(2) Some M by (auto simp: g_def conn_def Let_def split: if_splits prod.splits)
    have "conn = connFlowController (fcs_receiver s) \<or>
        conn = EnsureMinimumWindowIncrement (times_ConnectionFlowControlMultiplier inc) (connFlowController (fcs_receiver s))"
      by (simp add: conn_def)
    note w = inv_stream_window [OF Cons.prems(1) Some M this g_def]
    have "fc_inv Ws Wc (s\<lparr>fcs_receiver := f\<rparr>) \<and> grown g f \<and> fresh_updates Ws f us'"
      using Cons.IH [OF w(1), of us' f] us'(1) by simp
    then show ?thesis
      using us'(2) w(2,3) grown_trans fresh_updates_grown fresh_updates_Cons [of Ws f "(i, off)" us'] by auto
  qed
qed

lemma inv_publish:
  assumes inv: "fc_inv Ws Wc s" and G: "GetWindowUpdates er force order (fcs_receiver s) = (us, f)"
  shows "fc_inv Ws Wc (s\<lparr>fcs_receiver := f, fcs_updates := us @ fcs_updates s\<rparr>)"
proof -
  obtain us' g where g: "stream_updates er force order (fcs_receiver s) = (us', g)" by (metis surj_pair)
  obtain nec inc off conn where M: "MaybeUpdateWindow er (connFlowController g) = ((nec, inc, off), conn)"
    by (metis surj_pair)
  have G': "us = (if force \<or> nec then us' @ [(0, off)] else us')" "f = g\<lparr>connFlowController := conn\<rparr>"
    using G g M by (simp_all add: GetWindowUpdates_def split: if_splits)
  have S: "fc_inv Ws Wc (s\<lparr>fcs_receiver := g\<rparr>)" "grown (fcs_receiver s) g" "fresh_updates Ws g us'"
    using inv_stream_updates [OF inv g] by auto
  note I = fc_invD [OF S(1), simplified]
  note m = link_maybe_update [OF I(2) M]
  have "grown g f" using m(2) by (auto simp: grown_def G'(2) receive_windows_def word_le_nat_alt split: if_splits)
  then have fresh: "fresh_updates Ws f us'" and gr: "grown (fcs_receiver s) f"
    using S(2,3) grown_trans fresh_updates_grown by blast+
  have "(if j = 0 then Wc else Ws) \<le> off' \<and> (\<exists>w. receive_windows f j = Some w \<and> off' \<le> w)"
    if u: "(j, off') \<in> set (us @ fcs_updates s)" for j off'
  proof -
    consider "(j, off') \<in> set us'" | "j = 0" "off' = off" | "(j, off') \<in> set (fcs_updates s)"
      using u G'(1) by (auto split: if_splits)
    then show ?thesis
    proof cases
      case 1
      then show ?thesis using fresh by (auto simp: fresh_updates_def)
    next
      case 2
      then show ?thesis using m(1,3) by (simp add: G'(2) receive_windows_def link_def word_le_nat_alt)
    next
      case 3
      then show ?thesis using fc_invD(7,8) [OF inv 3] gr unfolding grown_def by (meson order.trans)
    qed
  qed
  then show ?thesis
    unfolding fc_inv_def using I(1,3-6) m(1,5,6) by (auto simp: G'(2))
qed

lemma inv_update:
  assumes inv: "fc_inv Ws Wc s" and u: "(i, off) \<in> set (fcs_updates s)"
    and U: "UpdateWindow i off (fcs_sender s) = (r, f)"
  shows "fc_inv Ws Wc (s\<lparr>fcs_sender := f\<rparr>)"
proof -
  let ?S = "streamFlowController (fcs_sender s)" and ?C = "connFlowController (fcs_sender s)"
  note I = fc_invD [OF inv]
  obtain w where w: "receive_windows (fcs_receiver s) i = Some w" "off \<le> w" using I(8) [OF u] by blast
  have W: "(if i = 0 then Wc else Ws) \<le> off" using I(7) [OF u] .
  have sel: "bytesSent (snd (UpdateSendWindow off c)) = bytesSent c" "fc_streamID (snd (UpdateSendWindow off c)) = fc_streamID c"
    "contributesToConnection (snd (UpdateSendWindow off c)) = contributesToConnection c" for c
    by (simp_all add: UpdateSendWindow_def)
  show ?thesis
  proof (cases "i = 0")
    case True
    then have f: "f = (fcs_sender s)\<lparr>connFlowController := snd (UpdateSendWindow off ?C)\<rparr>"
      using U by (auto simp: UpdateWindow_def split: prod.splits)
    have "link Wc (snd (UpdateSendWindow off ?C)) (connFlowController (fcs_receiver s))"
      using W w True by (intro link_window_update [OF I(2)]) (auto simp: receive_windows_def)
    then show ?thesis unfolding fc_inv_def f using I(1,3-8) by (auto simp: sel)
  next
    case False
    then obtain b where b: "streamFlowController (fcs_receiver s) i = Some b" "w = receiveWindow b"
      using w(1) by (auto simp: receive_windows_def)
    then obtain a where a: "?S i = Some a" using streams_linkedD(8) [OF I(1)] by blast
    note L = streams_linkedD(3-6) [OF I(1) a b(1)]
    have f: "f = (fcs_sender s)\<lparr>streamFlowController := ?S(i \<mapsto> snd (UpdateSendWindow off a))\<rparr>"
      using U False a by (auto simp: UpdateWindow_def split: prod.splits)
    have "link Ws (snd (UpdateSendWindow off a)) b"
      using W w False b(2) by (intro link_window_update [OF L(4)]) auto
    then have "streams_linked Ws (?S(i \<mapsto> snd (UpdateSendWindow off a))) (streamFlowController (fcs_receiver s))"
      using streams_linked_sender [OF I(1) a b(1)] L(2,3) by (simp add: sel)
    moreover have "total bytesSent (?S(i \<mapsto> snd (UpdateSendWindow off a))) = total bytesSent ?S"
      using total_upd_same [OF streams_linkedD(2) [OF I(1)] a] by (simp add: sel)
    ultimately show ?thesis unfolding fc_inv_def f using I(2-8) by auto
  qed
qed

lemma fc_inv_step: "fc_step Ws Wc s s' \<Longrightarrow> fc_inv Ws Wc s \<Longrightarrow> fc_inv Ws Wc s'"
  by (induction rule: fc_step.induct) (blast intro: inv_new inv_send inv_arrive inv_read inv_publish inv_update)+

lemma fc_inv_reachable: "fc_reachable Ws Wc s \<Longrightarrow> fc_inv Ws Wc s"
  by (induction rule: fc_reachable.induct) (blast intro: fc_inv_start fc_inv_step)+

text \<open>
  C6: Flow control is sound end to end. The two ends agree on the negotiated windows, and the maxima
  of the receiver are not below them. Then a sender that never exceeds \<open>SendWindowSize\<close> is never
  accused of a violation: whatever was sent on a stream, \<open>UpdateHighestReceived\<close> accepts it, even if
  frames and window updates are delayed, reordered, repeated or lost.
\<close>

theorem honest_sender_accepted:
  assumes "fc_reachable Ws Wc s" "GetBytesSent i (fcs_sender s) = Inr sent" "off \<le> sent"
  shows "fst (UpdateHighestReceived i off (fcs_receiver s)) = None"
  using inv_arrive(2) [OF fc_inv_reachable [OF assms(1)] assms(2,3)] by (metis prod.collapse)

definition demo_cp :: "Perspective \<Rightarrow> connectionParametersManager" where
  "demo_cp pers =
     (NewConnectionParamatersManager pers 39 (push_bit 28 1) (push_bit 28 1) 0)
       \<lparr>sendStreamFlowControlWindow := ReceiveStreamFlowControlWindow,
        sendConnectionFlowControlWindow := ReceiveConnectionFlowControlWindow\<rparr>"

definition demo_env :: "Perspective \<Rightarrow> fc_env" where
  "demo_env pers = \<lparr>connectionParameters = demo_cp pers, env_smoothedRTT = 0, remoteRTTs = [], env_now = 0\<rparr>"

theorem honest_sender_accepted_witness:
  "\<exists>s. fc_reachable ReceiveStreamFlowControlWindow ReceiveConnectionFlowControlWindow s \<and>
     GetBytesSent 5 (fcs_sender s) = Inr 1000 \<and> fst (UpdateHighestReceived 5 700 (fcs_receiver s)) = None"
proof -
  let ?e = "demo_env PerspectiveClient" and ?r = "demo_env PerspectiveServer"
  let ?Ws = ReceiveStreamFlowControlWindow and ?Wc = ReceiveConnectionFlowControlWindow
  let ?s1 = "(fc_start ?e ?r)\<lparr>fcs_sender := NewStream ?e 5 True (fcs_sender (fc_start ?e ?r)),
    fcs_receiver := NewStream ?r 5 True (fcs_receiver (fc_start ?e ?r))\<rparr>"
  let ?s2 = "?s1\<lparr>fcs_sender := snd (AddBytesSent 5 1000 (fcs_sender ?s1))\<rparr>"
  have n: "negotiated ?Ws ?Wc ?e ?r"
    by (simp add: negotiated_def demo_env_def demo_cp_def NewConnectionParamatersManager_def
        ReceiveStreamFlowControlWindow_def ReceiveConnectionFlowControlWindow_def)
  have "fc_reachable ?Ws ?Wc ?s1" by (rule fc_more [OF fc_init [OF n] step_new [OF n]]) simp
  moreover have "fc_step ?Ws ?Wc ?s1 ?s2"
    by (rule step_send [OF n, where i = 5 and w = "ReceiveStreamFlowControlWindow" and n = 1000])
      (simp_all add: fc_start_def NewStream_def NewFlowControlManager_def SendWindowSize_def AddBytesSent_def on_stream_def
        fc_SendWindowSize_def getSendWindow_def demo_env_def demo_cp_def ReceiveStreamFlowControlWindow_def
        ReceiveConnectionFlowControlWindow_def)
  ultimately have r: "fc_reachable ?Ws ?Wc ?s2" by (rule fc_more)
  have g: "GetBytesSent 5 (fcs_sender ?s2) = Inr 1000"
    by (simp add: GetBytesSent_def fc_start_def NewStream_def NewFlowControlManager_def AddBytesSent_def on_stream_def
        fc_AddBytesSent_def)
  have "fst (UpdateHighestReceived 5 700 (fcs_receiver ?s2)) = None"
    by (rule honest_sender_accepted [OF r g]) simp
  then show ?thesis using r g by blast
qed

text \<open>
  C28: With the default maxima of the server, which are below the windows the server announces, the
  window shrinks. A client may send up to \<open>ReceiveStreamFlowControlWindow\<close> bytes on a new stream;
  once more than half of them has been read within two round trips, the server's window drops to
  the bytes read plus one megabyte, and it accuses the client, who is still within the window that
  was announced to it, of a flow control violation.
\<close>

theorem server_window_shrinks:
  assumes cp: "connectionParameters env0 = NewConnectionParamatersManager PerspectiveServer v
      DefaultMaxReceiveStreamFlowControlWindowServer DefaultMaxReceiveConnectionFlowControlWindowServer idle"
    and rtt: "env_smoothedRTT env1 \<noteq> 0" "time_Since (env_now env1) (Some (env_now env0))
      < wrap64 (2 * max (env_smoothedRTT env1) (foldr max (map snd (remoteRTTs env1)) 0))"
    and n: "80 * 2 ^ 20 < unat n" "unat n + 2 ^ 20 < unat h" "h \<le> ReceiveStreamFlowControlWindow" and i: "i \<noteq> 0"
    and f0: "f0 = NewStream env0 i True (NewFlowControlManager env0)"
    and f1: "UpdateHighestReceived i n f0 = (e1, f1)" and f2: "AddBytesRead env0 i n f1 = (e2, f2)"
    and f3: "GetWindowUpdates env1 False [i] f2 = (us, f3)"
  shows "GetReceiveWindow i f0 = Inr ReceiveStreamFlowControlWindow \<and> e1 = None \<and> e2 = None \<and>
    (i, n + 2 ^ 20) \<in> set us \<and> GetReceiveWindow i f3 = Inr (n + 2 ^ 20) \<and>
    fst (UpdateHighestReceived i h f3) = Some (QuicError FlowControlReceivedTooMuchData)"
proof -
  have W: "unat ReceiveStreamFlowControlWindow = 160 * 2 ^ 20" "unat ReceiveConnectionFlowControlWindow = 200 * 2 ^ 20"
    by (simp_all add: ReceiveStreamFlowControlWindow_def ReceiveConnectionFlowControlWindow_def)
  have h: "unat h \<le> 160 * 2 ^ 20" using n(3) W(1) by (simp add: word_le_nat_alt)
  let ?c = "newFlowController env0 i True"
  let ?d = "(newFlowController env0 0 False)\<lparr>highestReceived := n\<rparr>"
  have win: "receiveWindow ?c = ReceiveStreamFlowControlWindow" "receiveWindow ?d = ReceiveConnectionFlowControlWindow"
    using i cp by (simp_all add: NewConnectionParamatersManager_def)
  have n0: "n \<noteq> 0" "0 < n" using n(1) by (auto simp: word_less_nat_alt)
  have ok: "\<not> ReceiveStreamFlowControlWindow < n" "\<not> ReceiveConnectionFlowControlWindow < n"
    using n(2) h W by (simp_all add: word_less_nat_alt)
  have s1: "e1 = None" "streamFlowController f1 = [i \<mapsto> ?c\<lparr>highestReceived := n\<rparr>]"
    using f1 n0 ok win i cp unfolding f0
    by (auto simp: UpdateHighestReceived_def NewStream_def NewFlowControlManager_def fc_UpdateHighestReceived_def
        received_more_def CheckFlowControlViolation_def IncrementHighestReceived_def Let_def NewConnectionParamatersManager_def)
  define b where "b = fc_AddBytesRead env0 n (?c\<lparr>highestReceived := n\<rparr>)"
  have s2: "e2 = None" "streamFlowController f2 = [i \<mapsto> b]"
    using f2 s1(2) by (auto simp: AddBytesRead_def on_stream_def b_def Let_def)
  have "ReceiveStreamFlowControlWindow - n < ReceiveStreamFlowControlWindow div 2"
    using n(1) ok(1) W(1) by (simp add: word_less_nat_alt unat_sub unat_div word_le_nat_alt not_less)
  moreover have "min (2 * ReceiveStreamFlowControlWindow) DefaultMaxReceiveStreamFlowControlWindowServer = 2 ^ 20"
    by (simp add: ReceiveStreamFlowControlWindow_def DefaultMaxReceiveStreamFlowControlWindowServer_def min_def word_le_nat_alt)
  moreover have "ReceiveStreamFlowControlWindow \<noteq> 2 ^ 20" by (simp add: ReceiveStreamFlowControlWindow_def)
  ultimately have M: "MaybeUpdateWindow env1 b =
      ((True, 2 ^ 20, n + 2 ^ 20), b\<lparr>lastWindowUpdateTime := Some (env_now env1), receiveWindow := n + 2 ^ 20, receiveWindowIncrement := 2 ^ 20\<rparr>)"
    using rtt cp i by (simp add: MaybeUpdateWindow_def maybeAdjustWindowIncrement_def b_def fc_AddBytesRead_def Let_def
        NewConnectionParamatersManager_def)
  then have s3: "(i, n + 2 ^ 20) \<in> set us" "streamFlowController f3 = [i \<mapsto> snd (MaybeUpdateWindow env1 b)]"
    using f3 s2(2) by (auto simp: GetWindowUpdates_def Let_def split: prod.splits)
  have "unat (n + 2 ^ 20) = unat n + 2 ^ 20" using n(2) h by (simp add: unat_word_ariths)
  then have "n + 2 ^ 20 < h" "n < h" "n \<noteq> h" using n(2) by (auto simp: word_less_nat_alt)
  then show ?thesis
    using s1 s2 s3 M i win unfolding f0
    by (simp add: GetReceiveWindow_def NewStream_def NewFlowControlManager_def UpdateHighestReceived_def
        fc_UpdateHighestReceived_def received_more_def CheckFlowControlViolation_def b_def fc_AddBytesRead_def Let_def)
qed

definition demo_server :: "Time \<Rightarrow> fc_env" where
  "demo_server now =
     \<lparr>connectionParameters = NewConnectionParamatersManager PerspectiveServer 39
        DefaultMaxReceiveStreamFlowControlWindowServer DefaultMaxReceiveConnectionFlowControlWindowServer 0,
      env_smoothedRTT = 50000000, remoteRTTs = [], env_now = now\<rparr>"

theorem server_window_shrinks_witness:
  "\<exists>f f'. GetReceiveWindow 5 f = Inr ReceiveStreamFlowControlWindow \<and> 150000000 \<le> ReceiveStreamFlowControlWindow \<and>
     (5, 101048576) \<in> set (fst (GetWindowUpdates (demo_server 60000000) False [5] f')) \<and>
     fst (UpdateHighestReceived 5 150000000 (snd (GetWindowUpdates (demo_server 60000000) False [5] f')))
       = Some (QuicError FlowControlReceivedTooMuchData)"
proof -
  let ?f0 = "NewStream (demo_server 0) 5 True (NewFlowControlManager (demo_server 0))"
  let ?f1 = "snd (UpdateHighestReceived 5 100000000 ?f0)"
  let ?f2 = "snd (AddBytesRead (demo_server 0) 5 100000000 ?f1)"
  let ?r = "GetWindowUpdates (demo_server 60000000) False [5] ?f2"
  have "(5, 100000000 + 2 ^ 20) \<in> set (fst ?r) \<and> GetReceiveWindow 5 ?f0 = Inr ReceiveStreamFlowControlWindow \<and>
      fst (UpdateHighestReceived 5 150000000 (snd ?r)) = Some (QuicError FlowControlReceivedTooMuchData)"
    using server_window_shrinks [of "demo_server 0" 39 0 "demo_server 60000000" 100000000 150000000 5 ?f0
        "fst (UpdateHighestReceived 5 100000000 ?f0)" ?f1 "fst (AddBytesRead (demo_server 0) 5 100000000 ?f1)" ?f2 "fst ?r" "snd ?r"]
    by (simp add: demo_server_def ReceiveStreamFlowControlWindow_def time_Since_def)
  then show ?thesis
    by (intro exI [of _ ?f0] exI [of _ ?f2]) (simp add: ReceiveStreamFlowControlWindow_def)
qed

end
