(* ===== verification/Rtt_Stats.thy ===== *)
theory Rtt_Stats
  imports Go_Float
begin

text \<open>
  \<open>congestion/rtt_stats.go\<close>: round-trip time statistics. The \<open>float32\<close> arithmetic rounds after every
  operation, as it does on platforms without fused multiply-add.
\<close>

definition InfDuration :: Duration where "InfDuration = 2 ^ 63 - 1"

definition AbsDuration :: "Duration \<Rightarrow> Duration" where
  "AbsDuration d = (if d \<ge> 0 then d else wrap64 (- d))"

record rttSample =
  rs_rtt :: Duration
  rs_time :: "Time option"

definition zero_sample :: rttSample where "zero_sample = \<lparr>rs_rtt = 0, rs_time = None\<rparr>"

record RTTStats =
  rtt_initialRTTus :: int
  recentMinRTTwindow :: Duration
  minRTT :: Duration
  latestRTT :: Duration
  smoothedRTT :: Duration
  meanDeviation :: Duration
  numMinRTTsamplesRemaining :: u32
  newMinRTT :: rttSample
  recentMinRTT :: rttSample
  halfWindowRTT :: rttSample
  quarterWindowRTT :: rttSample

definition initialRTTus :: int where "initialRTTus = 100 * 1000"

definition NewRTTStats :: RTTStats where
  "NewRTTStats =
     \<lparr>rtt_initialRTTus = initialRTTus, recentMinRTTwindow = InfDuration, minRTT = 0, latestRTT = 0,
      smoothedRTT = 0, meanDeviation = 0, numMinRTTsamplesRemaining = 0, newMinRTT = zero_sample,
      recentMinRTT = zero_sample, halfWindowRTT = zero_sample, quarterWindowRTT = zero_sample\<rparr>"

definition SetRecentMinRTTwindow :: "Duration \<Rightarrow> RTTStats \<Rightarrow> RTTStats" where
  "SetRecentMinRTTwindow w r = r\<lparr>recentMinRTTwindow := w\<rparr>"

text \<open>
  \<open>t.Before(now.Add(-d))\<close>; the zero time lies before every instant of the clock, even 292 years ago.
\<close>

definition time_Before :: "Time option \<Rightarrow> Time \<Rightarrow> bool" where
  "time_Before t u = (case t of None \<Rightarrow> True | Some t \<Rightarrow> t < u)"

text \<open>\<open>time.Duration(float32(d/time.Microsecond)*factor) * time.Microsecond\<close>\<close>

definition window_fraction :: "Duration \<Rightarrow> rat \<Rightarrow> Duration" where
  "window_fraction d factor = wrap64 (go_trunc (f32 (f32 (of_int (go_div d Microsecond)) * factor)) * Microsecond)"

definition updateRecentMinRTT :: "Duration \<Rightarrow> Time \<Rightarrow> RTTStats \<Rightarrow> RTTStats" where
  "updateRecentMinRTT sample now r =
     (let cur = \<lparr>rs_rtt = sample, rs_time = Some now\<rparr>;
          r = (if numMinRTTsamplesRemaining r > 0 then
                 let r = r\<lparr>numMinRTTsamplesRemaining := numMinRTTsamplesRemaining r - 1\<rparr>;
                     r = (if rs_rtt (newMinRTT r) = 0 \<or> sample \<le> rs_rtt (newMinRTT r)
                          then r\<lparr>newMinRTT := cur\<rparr> else r)
                 in if numMinRTTsamplesRemaining r = 0
                    then r\<lparr>recentMinRTT := newMinRTT r, halfWindowRTT := newMinRTT r, quarterWindowRTT := newMinRTT r\<rparr>
                    else r
               else r);
          r = (if rs_rtt (recentMinRTT r) = 0 \<or> sample \<le> rs_rtt (recentMinRTT r)
               then r\<lparr>recentMinRTT := cur, halfWindowRTT := cur, quarterWindowRTT := cur\<rparr>
               else if sample \<le> rs_rtt (halfWindowRTT r)
               then r\<lparr>halfWindowRTT := cur, quarterWindowRTT := cur\<rparr>
               else if sample \<le> rs_rtt (quarterWindowRTT r) then r\<lparr>quarterWindowRTT := cur\<rparr>
               else r);
          w = recentMinRTTwindow r
      in if time_Before (rs_time (recentMinRTT r)) (now + wrap64 (- w))
         then r\<lparr>recentMinRTT := halfWindowRTT r, halfWindowRTT := quarterWindowRTT r, quarterWindowRTT := cur\<rparr>
         else if time_Before (rs_time (halfWindowRTT r)) (now + wrap64 (- window_fraction w (1 / 2)))
         then r\<lparr>halfWindowRTT := quarterWindowRTT r, quarterWindowRTT := cur\<rparr>
         else if time_Before (rs_time (quarterWindowRTT r)) (now + wrap64 (- window_fraction w (1 / 4)))
         then r\<lparr>quarterWindowRTT := cur\<rparr>
         else r)"

text \<open>
  \<open>time.Duration(weight1*float32(a/time.Microsecond) + weight2*float32(b/time.Microsecond)) * time.Microsecond\<close>
\<close>

definition weighted_sum :: "rat \<Rightarrow> Duration \<Rightarrow> rat \<Rightarrow> Duration \<Rightarrow> Duration" where
  "weighted_sum w1 a w2 b =
     wrap64 (go_trunc (f32 (f32 (w1 * f32 (of_int (go_div a Microsecond))) + f32 (w2 * f32 (of_int (go_div b Microsecond)))))
             * Microsecond)"

definition UpdateRTT :: "Duration \<Rightarrow> Duration \<Rightarrow> Time \<Rightarrow> RTTStats \<Rightarrow> RTTStats" where
  "UpdateRTT sendDelta ackDelay now r =
     (if sendDelta = InfDuration \<or> sendDelta \<le> 0 then r
      else
        let r = (if minRTT r = 0 \<or> minRTT r > sendDelta then r\<lparr>minRTT := sendDelta\<rparr> else r);
            r = updateRecentMinRTT sendDelta now r;
            sample = (if sendDelta > ackDelay then wrap64 (sendDelta - ackDelay) else sendDelta);
            r = r\<lparr>latestRTT := sample\<rparr>
        in if smoothedRTT r = 0 then r\<lparr>smoothedRTT := sample, meanDeviation := go_div sample 2\<rparr>
           else r\<lparr>meanDeviation := weighted_sum (3 / 4) (meanDeviation r) (1 / 4) (AbsDuration (wrap64 (smoothedRTT r - sample))),
                  smoothedRTT := weighted_sum (7 / 8) (smoothedRTT r) (1 / 8) sample\<rparr>)"

definition SampleNewRecentMinRTT :: "u32 \<Rightarrow> RTTStats \<Rightarrow> RTTStats" where
  "SampleNewRecentMinRTT n r = r\<lparr>numMinRTTsamplesRemaining := n, newMinRTT := zero_sample\<rparr>"

definition rtt_OnConnectionMigration :: "RTTStats \<Rightarrow> RTTStats" where
  "rtt_OnConnectionMigration r =
     r\<lparr>latestRTT := 0, minRTT := 0, smoothedRTT := 0, meanDeviation := 0, rtt_initialRTTus := initialRTTus,
       numMinRTTsamplesRemaining := 0, recentMinRTTwindow := InfDuration, recentMinRTT := zero_sample,
       halfWindowRTT := zero_sample, quarterWindowRTT := zero_sample\<rparr>"

definition ExpireSmoothedMetrics :: "RTTStats \<Rightarrow> RTTStats" where
  "ExpireSmoothedMetrics r =
     (let r = r\<lparr>meanDeviation := max (meanDeviation r) (AbsDuration (wrap64 (smoothedRTT r - latestRTT r)))\<rparr>
      in r\<lparr>smoothedRTT := max (smoothedRTT r) (latestRTT r)\<rparr>)"

definition UpdateSessionRTT :: "Duration \<Rightarrow> RTTStats \<Rightarrow> RTTStats" where
  "UpdateSessionRTT s r = r\<lparr>smoothedRTT := s\<rparr>"

subsection \<open>The smoothed round-trip time\<close>

lemma recent_selectors [simp]:
  "minRTT (updateRecentMinRTT s now r) = minRTT r" "latestRTT (updateRecentMinRTT s now r) = latestRTT r"
  "smoothedRTT (updateRecentMinRTT s now r) = smoothedRTT r" "meanDeviation (updateRecentMinRTT s now r) = meanDeviation r"
  by (simp_all add: updateRecentMinRTT_def Let_def)

lemma f32_eighths: "0 \<le> n \<Longrightarrow> n \<le> 2 ^ 24 \<Longrightarrow> f32 (of_int n / 8) = of_int n / 8"
  using float_round_exact [of n 24 "- 3"] by (simp add: f32_def pow2_def)

text \<open>Below two seconds no operation rounds, so that the sum is exact.\<close>

lemma weighted_sum_exact:
  assumes "0 \<le> a" "a < 2 ^ 21 * Microsecond" "0 \<le> b" "b < 2 ^ 21 * Microsecond"
  shows "weighted_sum (7 / 8) a (1 / 8) b = (7 * (a div Microsecond) + b div Microsecond) div 8 * Microsecond"
proof -
  define x y where "x = a div Microsecond" and "y = b div Microsecond"
  have x: "0 \<le> x" "x < 2 ^ 21" and y: "0 \<le> y" "y < 2 ^ 21"
    using assms by (auto simp: x_def y_def Microsecond_def pos_imp_zdiv_nonneg_iff)
  have g: "go_div a Microsecond = x" "go_div b Microsecond = y"
    using assms by (simp_all add: x_def y_def Microsecond_def)
  have 1: "f32 (of_int x) = of_int x" "f32 (of_int y) = of_int y" using x y by (simp_all add: f32_of_int)
  have 2: "f32 (7 / 8 * of_int x) = of_int (7 * x) / 8" "f32 (1 / 8 * of_int y) = of_int y / 8"
    using f32_eighths [of "7 * x"] f32_eighths [of y] x y by simp_all
  have 3: "f32 (of_int (7 * x) / 8 + of_int y / 8) = of_int (7 * x + y) / 8"
    using f32_eighths [of "7 * x + y"] x y by (simp add: add_divide_distrib)
  have "go_trunc (of_int (7 * x + y) / 8) = (7 * x + y) div 8"
    using x y by (simp add: go_trunc_def floor_divide_of_int_eq [of "7 * x + y" 8, simplified])
  moreover have "0 \<le> (7 * x + y) div 8" "(7 * x + y) div 8 < 2 ^ 21"
    using x y by (auto simp: pos_imp_zdiv_nonneg_iff)
  ultimately have "wrap64 (go_trunc (of_int (7 * x + y) / 8) * Microsecond) = (7 * x + y) div 8 * Microsecond"
    by (simp add: Microsecond_def)
  then show ?thesis unfolding weighted_sum_def g 1 2 3 x_def [symmetric] y_def [symmetric] .
qed


definition demo_rtt :: RTTStats where
  "demo_rtt = UpdateRTT 80000000 10000000 5 NewRTTStats"


end
