(* ===== verification/Send_Algorithm.thy ===== *)
theory Send_Algorithm
  imports Rtt_Stats
begin

text \<open>
  \<open>congestion/interface.go\<close>: the interface between the sent packet handler and a congestion
  controller with state \<open>'c\<close>. The RTT statistics, which both share through a pointer, and the clock
  are arguments.
\<close>

record 'c SendAlgorithm =
  cc_OnPacketSent :: "Time \<Rightarrow> ByteCount \<Rightarrow> PacketNumber \<Rightarrow> ByteCount \<Rightarrow> bool \<Rightarrow> 'c \<Rightarrow> 'c"
  cc_GetCongestionWindow :: "'c \<Rightarrow> ByteCount"
  cc_MaybeExitSlowStart :: "RTTStats \<Rightarrow> 'c \<Rightarrow> 'c"
  cc_OnPacketAcked :: "Time \<Rightarrow> RTTStats \<Rightarrow> PacketNumber \<Rightarrow> ByteCount \<Rightarrow> ByteCount \<Rightarrow> 'c \<Rightarrow> 'c"
  cc_OnPacketLost :: "PacketNumber \<Rightarrow> ByteCount \<Rightarrow> ByteCount \<Rightarrow> 'c \<Rightarrow> 'c"
  cc_OnRetransmissionTimeout :: "bool \<Rightarrow> 'c \<Rightarrow> 'c"
  cc_RetransmissionDelay :: "RTTStats \<Rightarrow> 'c \<Rightarrow> Duration"
  cc_SmoothedRTT :: "RTTStats \<Rightarrow> 'c \<Rightarrow> Duration"

text \<open>The calls that change the state of a controller.\<close>

datatype cc_event =
    CCSent Time ByteCount PacketNumber ByteCount bool
  | CCMaybeExit RTTStats
  | CCAcked Time RTTStats PacketNumber ByteCount ByteCount
  | CCLost PacketNumber ByteCount ByteCount
  | CCTimeout bool

fun cc_call :: "'c SendAlgorithm \<Rightarrow> cc_event \<Rightarrow> 'c \<Rightarrow> 'c" where
  "cc_call alg (CCSent now inFlight n bytes retr) c = cc_OnPacketSent alg now inFlight n bytes retr c"
| "cc_call alg (CCMaybeExit rtt) c = cc_MaybeExitSlowStart alg rtt c"
| "cc_call alg (CCAcked now rtt n bytes inFlight) c = cc_OnPacketAcked alg now rtt n bytes inFlight c"
| "cc_call alg (CCLost n bytes inFlight) c = cc_OnPacketLost alg n bytes inFlight c"
| "cc_call alg (CCTimeout retr) c = cc_OnRetransmissionTimeout alg retr c"

definition cc_run :: "'c SendAlgorithm \<Rightarrow> cc_event list \<Rightarrow> 'c \<Rightarrow> 'c" where
  "cc_run alg es c = fold (cc_call alg) es c"

text \<open>
  What a controller promises: its congestion window stays between two bounds. The invariant counts
  the calls it is still good for, since a controller may keep counters of bounded width.
\<close>

locale bounded_window =
  fixes alg :: "'c SendAlgorithm" and inv :: "nat \<Rightarrow> 'c \<Rightarrow> bool" and lo hi :: nat
  assumes window_bounds: "inv k c \<Longrightarrow> lo \<le> unat (cc_GetCongestionWindow alg c) \<and> unat (cc_GetCongestionWindow alg c) \<le> hi"
    and call_inv: "inv (Suc k) c \<Longrightarrow> inv k (cc_call alg e c)"
begin

lemma run_inv: "inv (length es + k) c \<Longrightarrow> inv k (cc_run alg es c)"
  by (induction es arbitrary: c) (simp_all add: cc_run_def call_inv)

lemma run_window:
  "inv (length es + k) c \<Longrightarrow>
   lo \<le> unat (cc_GetCongestionWindow alg (cc_run alg es c)) \<and> unat (cc_GetCongestionWindow alg (cc_run alg es c)) \<le> hi"
  using run_inv window_bounds by blast

end

end
