(* ===== verification/Cubic_Sender.thy ===== *)
theory Cubic_Sender
  imports Send_Algorithm
begin

text \<open>
  \<open>congestion/hybrid_slow_start.go\<close>, \<open>prr_sender.go\<close>, \<open>cubic.go\<close> and \<open>cubic_sender.go\<close>: the
  congestion controller of a single path. The clock is an argument; \<open>math.Cbrt\<close>, whose last bits no
  documentation fixes, is the argument \<open>cbrt\<close>.
\<close>

definition DefaultTCPMSS :: ByteCount where "DefaultTCPMSS = 1460"

definition DefaultMaxCongestionWindow :: PacketNumber where "DefaultMaxCongestionWindow = 2500"

definition InitialCongestionWindow :: PacketNumber where "InitialCongestionWindow = 32"

subsection \<open>Hybrid slow start\<close>

definition hybridStartLowWindow :: ByteCount where "hybridStartLowWindow = 16"

definition hybridStartMinSamples :: u32 where "hybridStartMinSamples = 8"

definition hybridStartDelayMinThresholdUs :: int where "hybridStartDelayMinThresholdUs = 4000"

definition hybridStartDelayMaxThresholdUs :: int where "hybridStartDelayMaxThresholdUs = 16000"

record HybridSlowStart =
  hss_endPacketNumber :: PacketNumber
  hss_lastSentPacketNumber :: PacketNumber
  hss_started :: bool
  currentMinRTT :: Duration
  rttSampleCount :: u32
  hystartFound :: bool

definition StartReceiveRound :: "PacketNumber \<Rightarrow> HybridSlowStart \<Rightarrow> HybridSlowStart" where
  "StartReceiveRound lastSent s =
     s\<lparr>hss_endPacketNumber := lastSent, currentMinRTT := 0, rttSampleCount := 0, hss_started := True\<rparr>"

definition IsEndOfRound :: "PacketNumber \<Rightarrow> HybridSlowStart \<Rightarrow> bool" where
  "IsEndOfRound ack s \<longleftrightarrow> hss_endPacketNumber s < ack"

definition ShouldExitSlowStart ::
    "Duration \<Rightarrow> Duration \<Rightarrow> ByteCount \<Rightarrow> HybridSlowStart \<Rightarrow> bool \<times> HybridSlowStart" where
  "ShouldExitSlowStart latest minRTT' cwnd s =
     (let s = (if \<not> hss_started s then StartReceiveRound (hss_lastSentPacketNumber s) s else s) in
      if hystartFound s then (True, s)
      else
        let s = s\<lparr>rttSampleCount := rttSampleCount s + 1\<rparr>;
            s = (if rttSampleCount s \<le> hybridStartMinSamples \<and> (currentMinRTT s = 0 \<or> currentMinRTT s > latest)
                 then s\<lparr>currentMinRTT := latest\<rparr> else s);
            threshold = max (min (go_div minRTT' Microsecond div 8) hybridStartDelayMaxThresholdUs)
                          hybridStartDelayMinThresholdUs * Microsecond;
            s = (if rttSampleCount s = hybridStartMinSamples \<and> currentMinRTT s > wrap64 (minRTT' + threshold)
                 then s\<lparr>hystartFound := True\<rparr> else s)
        in (cwnd \<ge> hybridStartLowWindow \<and> hystartFound s, s))"

definition hss_OnPacketSent :: "PacketNumber \<Rightarrow> HybridSlowStart \<Rightarrow> HybridSlowStart" where
  "hss_OnPacketSent n s = s\<lparr>hss_lastSentPacketNumber := n\<rparr>"

definition hss_OnPacketAcked :: "PacketNumber \<Rightarrow> HybridSlowStart \<Rightarrow> HybridSlowStart" where
  "hss_OnPacketAcked n s = (if IsEndOfRound n s then s\<lparr>hss_started := False\<rparr> else s)"

definition hss_Restart :: "HybridSlowStart \<Rightarrow> HybridSlowStart" where
  "hss_Restart s = s\<lparr>hss_started := False, hystartFound := False\<rparr>"

subsection \<open>Proportional rate reduction\<close>

record PrrSender =
  bytesSentSinceLoss :: ByteCount
  bytesDeliveredSinceLoss :: ByteCount
  ackCountSinceLoss :: ByteCount
  bytesInFlightBeforeLoss :: ByteCount

definition prr_OnPacketSent :: "ByteCount \<Rightarrow> PrrSender \<Rightarrow> PrrSender" where
  "prr_OnPacketSent n p = p\<lparr>bytesSentSinceLoss := bytesSentSinceLoss p + n\<rparr>"

definition prr_OnPacketLost :: "ByteCount \<Rightarrow> PrrSender \<Rightarrow> PrrSender" where
  "prr_OnPacketLost inFlight p =
     p\<lparr>bytesSentSinceLoss := 0, bytesInFlightBeforeLoss := inFlight, bytesDeliveredSinceLoss := 0,
       ackCountSinceLoss := 0\<rparr>"

definition prr_OnPacketAcked :: "ByteCount \<Rightarrow> PrrSender \<Rightarrow> PrrSender" where
  "prr_OnPacketAcked n p =
     p\<lparr>bytesDeliveredSinceLoss := bytesDeliveredSinceLoss p + n, ackCountSinceLoss := ackCountSinceLoss p + 1\<rparr>"

definition prr_TimeUntilSend :: "ByteCount \<Rightarrow> ByteCount \<Rightarrow> ByteCount \<Rightarrow> PrrSender \<Rightarrow> Duration" where
  "prr_TimeUntilSend cwnd inFlight ssthresh p =
     (if bytesSentSinceLoss p = 0 \<or> inFlight < DefaultTCPMSS then 0
      else if cwnd > inFlight then
        if bytesDeliveredSinceLoss p + ackCountSinceLoss p * DefaultTCPMSS \<le> bytesSentSinceLoss p
        then InfDuration else 0
      else if bytesDeliveredSinceLoss p * ssthresh > bytesSentSinceLoss p * bytesInFlightBeforeLoss p
      then 0 else InfDuration)"

subsection \<open>The cubic function\<close>

definition cubeScale :: nat where "cubeScale = 40"

definition cubeCongestionWindowScale :: int where "cubeCongestionWindowScale = 410"

definition cubeFactor :: PacketNumber where "cubeFactor = word_of_int (2 ^ 40 div 410)"

definition defaultNumConnections :: int where "defaultNumConnections = 2"

definition beta :: rat where "beta = f32 (7 / 10)"

definition betaLastMax :: rat where "betaLastMax = f32 (85 / 100)"

definition maxCubicTimeInterval :: Duration where "maxCubicTimeInterval = 30 * Millisecond"

record Cubic =
  cubic_numConnections :: int
  epoch :: "Time option"
  appLimitedStartTime :: "Time option"
  lastUpdateTime :: "Time option"
  lastCongestionWindow :: PacketNumber
  lastMaxCongestionWindow :: PacketNumber
  ackedPacketsCount :: PacketNumber
  estimatedTCPcongestionWindow :: PacketNumber
  originPointCongestionWindow :: PacketNumber
  timeToOriginPoint :: u32
  lastTargetCongestionWindow :: PacketNumber

definition cubic_Reset :: "Cubic \<Rightarrow> Cubic" where
  "cubic_Reset c =
     c\<lparr>epoch := None, appLimitedStartTime := None, lastUpdateTime := None, lastCongestionWindow := 0,
       lastMaxCongestionWindow := 0, ackedPacketsCount := 0, estimatedTCPcongestionWindow := 0,
       originPointCongestionWindow := 0, timeToOriginPoint := 0, lastTargetCongestionWindow := 0\<rparr>"

definition NewCubic :: Cubic where
  "NewCubic =
     \<lparr>cubic_numConnections = defaultNumConnections, epoch = None, appLimitedStartTime = None,
      lastUpdateTime = None, lastCongestionWindow = 0, lastMaxCongestionWindow = 0, ackedPacketsCount = 0,
      estimatedTCPcongestionWindow = 0, originPointCongestionWindow = 0, timeToOriginPoint = 0,
      lastTargetCongestionWindow = 0\<rparr>"

definition nconn_beta :: "int \<Rightarrow> rat" where
  "nconn_beta n = f32 (f32 (f32 (f32 (of_int n) - 1) + beta) / f32 (of_int n))"

definition nconn_alpha :: "int \<Rightarrow> rat" where
  "nconn_alpha n =
     (let b = nconn_beta n in
      f32 (f32 (f32 (f32 (3 * f32 (of_int n)) * f32 (of_int n)) * f32 (1 - b)) / f32 (1 + b)))"

definition f32_of_pn :: "PacketNumber \<Rightarrow> rat" where "f32_of_pn n = f32 (of_int (uint n))"

definition pn_of_f32 :: "rat \<Rightarrow> PacketNumber" where "pn_of_f32 x = word_of_int (go_trunc x)"

definition OnApplicationLimited :: "Time \<Rightarrow> Cubic \<Rightarrow> Cubic" where
  "OnApplicationLimited now c =
     (if appLimitedStartTime c = None then c\<lparr>appLimitedStartTime := Some now\<rparr> else c)"

definition CongestionWindowAfterPacketLoss :: "PacketNumber \<Rightarrow> Cubic \<Rightarrow> PacketNumber \<times> Cubic" where
  "CongestionWindowAfterPacketLoss cw c =
     (pn_of_f32 (f32 (f32_of_pn cw * nconn_beta (cubic_numConnections c))),
      c\<lparr>lastMaxCongestionWindow :=
           (if cw < lastMaxCongestionWindow c then pn_of_f32 (f32 (betaLastMax * f32_of_pn cw)) else cw),
        epoch := None\<rparr>)"

text \<open>
  The loop that updates the estimated TCP window has no bound of its own: \<open>None\<close> is a call that does
  not return.
\<close>

partial_function (option) tcp_loop ::
    "rat \<Rightarrow> PacketNumber \<Rightarrow> PacketNumber \<Rightarrow> (PacketNumber \<times> PacketNumber) option" where
  "tcp_loop a acked est =
     (let requiredAckCount = pn_of_f32 (f32 (f32_of_pn est / a)) in
      if acked < requiredAckCount then Some (acked, est)
      else tcp_loop a (acked - requiredAckCount) (est + 1))"

declare tcp_loop.simps [code]

text \<open>The target window of the cubic function.\<close>

definition cubic_target :: "Time \<Rightarrow> Duration \<Rightarrow> Cubic \<Rightarrow> PacketNumber" where
  "cubic_target now delayMin c =
     (let elapsedTime = go_div (wrap64 (go_div (time_Since (now + delayMin) (epoch c)) Microsecond * 2 ^ 10)) 1000000;
          offset = wrap64 (uint (timeToOriginPoint c) - elapsedTime);
          offset = (if offset < 0 then wrap64 (- offset) else offset);
          cube = wrap64 (wrap64 (wrap64 (cubeCongestionWindowScale * offset) * offset) * offset);
          delta = word_of_int (cube div 2 ^ cubeScale)
      in if elapsedTime > uint (timeToOriginPoint c) then originPointCongestionWindow c + delta
         else originPointCongestionWindow c - delta)"

text \<open>The start of an epoch, or the shift of the epoch by the time without data.\<close>

definition cubic_epoch :: "(u64 \<Rightarrow> u32) \<Rightarrow> Time \<Rightarrow> PacketNumber \<Rightarrow> Cubic \<Rightarrow> Cubic" where
  "cubic_epoch cbrt now cw c =
     (case epoch c of
        None \<Rightarrow>
          let c = c\<lparr>epoch := Some now, ackedPacketsCount := 1, estimatedTCPcongestionWindow := cw\<rparr> in
          if lastMaxCongestionWindow c \<le> cw
          then c\<lparr>timeToOriginPoint := 0, originPointCongestionWindow := cw\<rparr>
          else c\<lparr>timeToOriginPoint := cbrt (cubeFactor * (lastMaxCongestionWindow c - cw)),
                 originPointCongestionWindow := lastMaxCongestionWindow c\<rparr>
      | Some e \<Rightarrow>
          if appLimitedStartTime c \<noteq> None
          then c\<lparr>epoch := Some (e + time_Since now (appLimitedStartTime c)), appLimitedStartTime := None\<rparr>
          else c)"

definition CongestionWindowAfterAck ::
    "(u64 \<Rightarrow> u32) \<Rightarrow> Time \<Rightarrow> PacketNumber \<Rightarrow> Duration \<Rightarrow> Cubic \<Rightarrow> (PacketNumber \<times> Cubic) option" where
  "CongestionWindowAfterAck cbrt now cw delayMin c =
     (let c = c\<lparr>ackedPacketsCount := ackedPacketsCount c + 1\<rparr> in
      if lastCongestionWindow c = cw \<and> time_Since now (lastUpdateTime c) \<le> maxCubicTimeInterval
      then Some (max (lastTargetCongestionWindow c) (estimatedTCPcongestionWindow c), c)
      else
        let c = c\<lparr>lastCongestionWindow := cw, lastUpdateTime := Some now\<rparr>;
            c = cubic_epoch cbrt now cw c;
            target = cubic_target now delayMin c
        in map_option (\<lambda>(acked, est).
             (if target < est then est else target,
              c\<lparr>ackedPacketsCount := acked, estimatedTCPcongestionWindow := est, lastTargetCongestionWindow := target\<rparr>))
             (tcp_loop (nconn_alpha (cubic_numConnections c)) (ackedPacketsCount c) (estimatedTCPcongestionWindow c)))"

subsection \<open>The sender\<close>

definition maxBurstBytes :: ByteCount where "maxBurstBytes = 3 * DefaultTCPMSS"

definition defaultMinimumCongestionWindow :: PacketNumber where "defaultMinimumCongestionWindow = 2"

record cubicSender =
  hybridSlowStart :: HybridSlowStart
  prr :: PrrSender
  slowstartPacketsLost :: PacketNumber
  slowstartBytesLost :: ByteCount
  cubic :: Cubic
  reno :: bool
  largestSentPacketNumber :: PacketNumber
  largestAckedPacketNumber :: PacketNumber
  largestSentAtLastCutback :: PacketNumber
  congestionWindow :: PacketNumber
  slowstartThreshold :: PacketNumber
  lastCutbackExitedSlowstart :: bool
  slowStartLargeReduction :: bool
  minCongestionWindow :: PacketNumber
  maxTCPCongestionWindow :: PacketNumber
  numConnections :: int
  congestionWindowCount :: ByteCount
  initialCongestionWindow :: PacketNumber
  initialMaxCongestionWindow :: PacketNumber

definition zero_prr :: PrrSender where
  "zero_prr = \<lparr>bytesSentSinceLoss = 0, bytesDeliveredSinceLoss = 0, ackCountSinceLoss = 0, bytesInFlightBeforeLoss = 0\<rparr>"

definition NewCubicSender :: "bool \<Rightarrow> PacketNumber \<Rightarrow> PacketNumber \<Rightarrow> cubicSender" where
  "NewCubicSender reno' initialWindow initialMax =
     \<lparr>hybridSlowStart = \<lparr>hss_endPacketNumber = 0, hss_lastSentPacketNumber = 0, hss_started = False,
                          currentMinRTT = 0, rttSampleCount = 0, hystartFound = False\<rparr>,
      prr = zero_prr, slowstartPacketsLost = 0, slowstartBytesLost = 0, cubic = NewCubic, reno = reno',
      largestSentPacketNumber = 0, largestAckedPacketNumber = 0, largestSentAtLastCutback = 0,
      congestionWindow = initialWindow, slowstartThreshold = initialMax, lastCutbackExitedSlowstart = False,
      slowStartLargeReduction = False, minCongestionWindow = defaultMinimumCongestionWindow,
      maxTCPCongestionWindow = initialMax, numConnections = defaultNumConnections, congestionWindowCount = 0,
      initialCongestionWindow = initialWindow, initialMaxCongestionWindow = initialMax\<rparr>"

definition InRecovery :: "cubicSender \<Rightarrow> bool" where
  "InRecovery c \<longleftrightarrow> largestAckedPacketNumber c \<le> largestSentAtLastCutback c \<and> largestAckedPacketNumber c \<noteq> 0"

definition GetCongestionWindow :: "cubicSender \<Rightarrow> ByteCount" where
  "GetCongestionWindow c = congestionWindow c * DefaultTCPMSS"

definition GetSlowStartThreshold :: "cubicSender \<Rightarrow> ByteCount" where
  "GetSlowStartThreshold c = slowstartThreshold c * DefaultTCPMSS"

definition InSlowStart :: "cubicSender \<Rightarrow> bool" where
  "InSlowStart c \<longleftrightarrow> GetCongestionWindow c < GetSlowStartThreshold c"

definition cubic_TimeUntilSend :: "ByteCount \<Rightarrow> cubicSender \<Rightarrow> Duration" where
  "cubic_TimeUntilSend inFlight c =
     (if InRecovery c then prr_TimeUntilSend (GetCongestionWindow c) inFlight (GetSlowStartThreshold c) (prr c)
      else if GetCongestionWindow c > inFlight then 0 else InfDuration)"

definition cubic_OnPacketSent :: "PacketNumber \<Rightarrow> ByteCount \<Rightarrow> bool \<Rightarrow> cubicSender \<Rightarrow> bool \<times> cubicSender" where
  "cubic_OnPacketSent packetNumber bytes isRetransmittable c =
     (if \<not> isRetransmittable then (False, c)
      else
        let c = (if InRecovery c then c\<lparr>prr := prr_OnPacketSent bytes (prr c)\<rparr> else c)
        in (True, c\<lparr>largestSentPacketNumber := packetNumber,
                    hybridSlowStart := hss_OnPacketSent packetNumber (hybridSlowStart c)\<rparr>))"

definition ExitSlowstart :: "cubicSender \<Rightarrow> cubicSender" where
  "ExitSlowstart c = c\<lparr>slowstartThreshold := congestionWindow c\<rparr>"

definition cubic_MaybeExitSlowStart :: "RTTStats \<Rightarrow> cubicSender \<Rightarrow> cubicSender" where
  "cubic_MaybeExitSlowStart rtt c =
     (if InSlowStart c then
        (case ShouldExitSlowStart (latestRTT rtt) (minRTT rtt) (GetCongestionWindow c div DefaultTCPMSS) (hybridSlowStart c) of
           (exit, h) \<Rightarrow> let c = c\<lparr>hybridSlowStart := h\<rparr> in if exit then ExitSlowstart c else c)
      else c)"

definition isCwndLimited :: "ByteCount \<Rightarrow> cubicSender \<Rightarrow> bool" where
  "isCwndLimited inFlight c =
     (let cwnd = GetCongestionWindow c in
      if inFlight \<ge> cwnd then True
      else (InSlowStart c \<and> inFlight > cwnd div 2) \<or> cwnd - inFlight \<le> maxBurstBytes)"

definition maybeIncreaseCwnd ::
    "(u64 \<Rightarrow> u32) \<Rightarrow> Time \<Rightarrow> RTTStats \<Rightarrow> ByteCount \<Rightarrow> cubicSender \<Rightarrow> cubicSender option" where
  "maybeIncreaseCwnd cbrt now rtt inFlight c =
     (if \<not> isCwndLimited inFlight c then Some (c\<lparr>cubic := OnApplicationLimited now (cubic c)\<rparr>)
      else if congestionWindow c \<ge> maxTCPCongestionWindow c then Some c
      else if InSlowStart c then Some (c\<lparr>congestionWindow := congestionWindow c + 1\<rparr>)
      else if reno c then
        let c = c\<lparr>congestionWindowCount := congestionWindowCount c + 1\<rparr> in
        Some (if congestionWindowCount c * word_of_int (numConnections c) \<ge> congestionWindow c
              then c\<lparr>congestionWindow := congestionWindow c + 1, congestionWindowCount := 0\<rparr> else c)
      else
        map_option (\<lambda>(w, cu). c\<lparr>congestionWindow := min (maxTCPCongestionWindow c) w, cubic := cu\<rparr>)
          (CongestionWindowAfterAck cbrt now (congestionWindow c) (minRTT rtt) (cubic c)))"

definition cubic_OnPacketAcked ::
    "(u64 \<Rightarrow> u32) \<Rightarrow> Time \<Rightarrow> RTTStats \<Rightarrow> PacketNumber \<Rightarrow> ByteCount \<Rightarrow> ByteCount \<Rightarrow> cubicSender \<Rightarrow> cubicSender option" where
  "cubic_OnPacketAcked cbrt now rtt ackedPacketNumber ackedBytes inFlight c =
     (let c = c\<lparr>largestAckedPacketNumber := max ackedPacketNumber (largestAckedPacketNumber c)\<rparr> in
      if InRecovery c then Some (c\<lparr>prr := prr_OnPacketAcked ackedBytes (prr c)\<rparr>)
      else
        map_option (\<lambda>c. if InSlowStart c
                        then c\<lparr>hybridSlowStart := hss_OnPacketAcked ackedPacketNumber (hybridSlowStart c)\<rparr> else c)
          (maybeIncreaseCwnd cbrt now rtt inFlight c))"

definition RenoBeta :: "cubicSender \<Rightarrow> rat" where
  "RenoBeta c = nconn_beta (numConnections c)"

text \<open>A loss of a packet that was sent before the last cutback.\<close>

definition loss_in_recovery :: "ByteCount \<Rightarrow> cubicSender \<Rightarrow> cubicSender" where
  "loss_in_recovery lostBytes c =
     (if lastCutbackExitedSlowstart c then
        let c = c\<lparr>slowstartPacketsLost := slowstartPacketsLost c + 1, slowstartBytesLost := slowstartBytesLost c + lostBytes\<rparr> in
        if slowStartLargeReduction c then
          let c = (if slowstartPacketsLost c = 1
                      \<or> slowstartBytesLost c div DefaultTCPMSS > (slowstartBytesLost c - lostBytes) div DefaultTCPMSS
                   then c\<lparr>congestionWindow := max (congestionWindow c - 1) (minCongestionWindow c)\<rparr> else c)
          in c\<lparr>slowstartThreshold := congestionWindow c\<rparr>
        else c
      else c)"

definition cubic_OnPacketLost :: "PacketNumber \<Rightarrow> ByteCount \<Rightarrow> ByteCount \<Rightarrow> cubicSender \<Rightarrow> cubicSender" where
  "cubic_OnPacketLost packetNumber lostBytes inFlight c =
     (if packetNumber \<le> largestSentAtLastCutback c then loss_in_recovery lostBytes c
      else
        let slow = InSlowStart c;
            c = c\<lparr>lastCutbackExitedSlowstart := slow,
                  slowstartPacketsLost := slowstartPacketsLost c + (if slow then 1 else 0),
                  prr := prr_OnPacketLost inFlight (prr c)\<rparr>;
            (w, cu) = (if slowStartLargeReduction c \<and> slow then (congestionWindow c - 1, cubic c)
                       else if reno c then (pn_of_f32 (f32 (f32_of_pn (congestionWindow c) * RenoBeta c)), cubic c)
                       else CongestionWindowAfterPacketLoss (congestionWindow c) (cubic c));
            w = (if w < minCongestionWindow c then minCongestionWindow c else w)
        in c\<lparr>congestionWindow := w, cubic := cu, slowstartThreshold := w,
             largestSentAtLastCutback := largestSentPacketNumber c, congestionWindowCount := 0\<rparr>)"

definition cubic_OnRetransmissionTimeout :: "bool \<Rightarrow> cubicSender \<Rightarrow> cubicSender" where
  "cubic_OnRetransmissionTimeout packetsRetransmitted c =
     (let c = c\<lparr>largestSentAtLastCutback := 0\<rparr> in
      if \<not> packetsRetransmitted then c
      else c\<lparr>hybridSlowStart := hss_Restart (hybridSlowStart c), cubic := cubic_Reset (cubic c),
             slowstartThreshold := congestionWindow c div 2, congestionWindow := minCongestionWindow c\<rparr>)"

definition cubic_OnConnectionMigration :: "cubicSender \<Rightarrow> cubicSender" where
  "cubic_OnConnectionMigration c =
     c\<lparr>hybridSlowStart := hss_Restart (hybridSlowStart c), prr := zero_prr, largestSentPacketNumber := 0,
       largestAckedPacketNumber := 0, largestSentAtLastCutback := 0, lastCutbackExitedSlowstart := False,
       cubic := cubic_Reset (cubic c), congestionWindowCount := 0,
       congestionWindow := initialCongestionWindow c, slowstartThreshold := initialMaxCongestionWindow c,
       maxTCPCongestionWindow := initialMaxCongestionWindow c\<rparr>"

definition SetNumEmulatedConnections :: "int \<Rightarrow> cubicSender \<Rightarrow> cubicSender" where
  "SetNumEmulatedConnections n c =
     c\<lparr>numConnections := max n 1, cubic := (cubic c)\<lparr>cubic_numConnections := max n 1\<rparr>\<rparr>"

definition SetSlowStartLargeReduction :: "bool \<Rightarrow> cubicSender \<Rightarrow> cubicSender" where
  "SetSlowStartLargeReduction enabled c = c\<lparr>slowStartLargeReduction := enabled\<rparr>"

definition RetransmissionDelay :: "RTTStats \<Rightarrow> Duration" where
  "RetransmissionDelay rtt =
     (if smoothedRTT rtt = 0 then 0 else wrap64 (smoothedRTT rtt + wrap64 (meanDeviation rtt * 4)))"

definition BandwidthFromDelta :: "ByteCount \<Rightarrow> Duration \<Rightarrow> u64" where
  "BandwidthFromDelta bytes delta = bytes * word_of_int Second div word_of_int delta * 8"

definition BandwidthEstimate :: "RTTStats \<Rightarrow> cubicSender \<Rightarrow> u64" where
  "BandwidthEstimate rtt c =
     (if smoothedRTT rtt = 0 then 0 else BandwidthFromDelta (GetCongestionWindow c) (smoothedRTT rtt))"

lemma beta_value: "beta = 11744051 / 16777216"
  by (simp add: beta_def f32_compute [where b = 0] pow2_def round_even_def Let_def)

lemma nconn_beta_2: "nconn_beta 2 = 7130317 / 8388608"
proof -
  have 1: "f32 (1 + beta) = 7130317 / 4194304"
    by (simp add: beta_value f32_compute [where b = 1] pow2_def round_even_def Let_def)
  have 2: "f32 (7130317 / 8388608) = 7130317 / 8388608"
    by (simp add: f32_compute [where b = 0] pow2_def round_even_def Let_def)
  show ?thesis by (simp add: nconn_beta_def 1 2)
qed

lemma nconn_alpha_2: "nconn_alpha 2 = 16323775 / 16777216"
proof -
  have 1: "f32 (1258291 / 8388608) = 1258291 / 8388608" "f32 (15518925 / 8388608) = 15518925 / 8388608"
    by (simp add: f32_compute [where b = "- 2"] pow2_def round_even_def Let_def, simp add: f32_compute [where b = 1] pow2_def round_even_def Let_def)
  have 2: "f32 (3774873 / 2097152) = 3774873 / 2097152"
    by (simp add: f32_compute [where b = 1] pow2_def round_even_def Let_def)
  have 3: "f32 (5033164 / 5172975) = 16323775 / 16777216"
    by (simp add: f32_compute [where b = 0] pow2_def round_even_def Let_def)
  show ?thesis by (simp add: nconn_alpha_def nconn_beta_2 Let_def 1 2 3)
qed

subsection \<open>The loop returns\<close>

lemma pn_of_f32_bounds:
  assumes "f32 (of_int a) = of_int a" "f32 (of_int b) = of_int b" "0 \<le> a" "of_int a \<le> x" "x \<le> of_int b" "b < 2 ^ 64"
  shows "a \<le> int (unat (pn_of_f32 (f32 x)))" "int (unat (pn_of_f32 (f32 x))) \<le> b"
proof -
  have "of_int a \<le> f32 x" "f32 x \<le> of_int b" using f32_mono [of "of_int a" x] f32_mono [of x "of_int b"] assms by simp_all
  then have t: "a \<le> go_trunc (f32 x)" "go_trunc (f32 x) \<le> b"
    using assms(3) by (auto simp: go_trunc_def le_floor_iff floor_le_iff)
  then have "int (unat (pn_of_f32 (f32 x))) = go_trunc (f32 x)"
    using assms(3,6) by (simp add: pn_of_f32_def uint_nat [symmetric] uint_word_of_int_eq take_bit_int_eq_self_iff)
  then show "a \<le> int (unat (pn_of_f32 (f32 x)))" "int (unat (pn_of_f32 (f32 x))) \<le> b" using t by simp_all
qed

lemma f32_pow2: "f32 (of_int (3 * 2 ^ n)) = of_int (3 * 2 ^ n)" "f32 (of_int (2 ^ n)) = of_int (2 ^ n)"
  using float_round_exact [of 3 24 "int n"] float_round_exact [of 1 24 "int n"] by (simp_all add: f32_def)

lemma f32_of_pn_bounds:
  assumes "unat n \<le> 2 ^ k"
  shows "0 \<le> f32_of_pn n" "f32_of_pn n \<le> 2 ^ k" "n \<noteq> 0 \<Longrightarrow> 1 \<le> f32_of_pn n"
proof -
  define m where "m = uint n"
  have d: "f32_of_pn n = f32 (of_int m)" by (simp only: f32_of_pn_def m_def)
  have "int (unat n) \<le> int (2 ^ k)" using assms by (simp only: of_nat_le_iff)
  then have u: "0 \<le> m" "m \<le> 2 ^ k" by (simp_all add: m_def)
  show "0 \<le> f32_of_pn n" using u by (simp add: d f32_nonneg)
  have "f32 (of_int m) \<le> f32 (of_int (2 ^ k))" using u by (intro f32_mono) (simp_all only: of_int_0_le_iff of_int_le_iff)
  then show "f32_of_pn n \<le> 2 ^ k" unfolding f32_pow2(2) by (simp add: d)
  assume "n \<noteq> 0"
  then have "m \<noteq> 0" by (simp add: m_def uint_0_iff)
  then have "1 \<le> m" using u(1) by simp
  then have "f32 1 \<le> f32 (of_int m)" by (intro f32_mono) simp_all
  then show "1 \<le> f32_of_pn n" by (simp add: d)
qed

lemma required_positive:
  assumes "est \<noteq> 0" "unat est \<le> 2 ^ 62"
  shows "pn_of_f32 (f32 (f32_of_pn est / nconn_alpha 2)) \<noteq> 0"
proof -
  have b: "1 \<le> f32_of_pn est" "f32_of_pn est \<le> 2 ^ 62" using f32_of_pn_bounds [OF assms(2)] assms(1) by simp_all
  have "of_int 1 \<le> f32_of_pn est / nconn_alpha 2" "f32_of_pn est / nconn_alpha 2 \<le> of_int (3 * 2 ^ 62)"
    using b by (simp_all add: nconn_alpha_2)
  from pn_of_f32_bounds(1) [OF _ f32_pow2(1) _ this] show ?thesis by auto
qed

lemma tcp_loop_returns:
  assumes "est \<noteq> 0" "unat acked + unat est \<le> 2 ^ 62"
  shows "\<exists>acked' est'. tcp_loop (nconn_alpha 2) acked est = Some (acked', est') \<and> est \<le> est' \<and>
    unat acked' + unat est' \<le> unat acked + unat est"
  using assms
proof (induction "unat acked" arbitrary: acked est rule: less_induct)
  case less
  let ?r = "pn_of_f32 (f32 (f32_of_pn est / nconn_alpha 2))"
  show ?case
  proof (cases "acked < ?r")
    case True
    then show ?thesis by (simp add: tcp_loop.simps [of _ acked])
  next
    case False
    have r: "?r \<noteq> 0" using less.prems by (intro required_positive) simp_all
    have sub: "unat (acked - ?r) = unat acked - unat ?r" "unat ?r \<le> unat acked"
      using False by (simp_all add: u64_diff not_less word_le_nat_alt)
    have "0 < unat ?r" using r by (simp add: unat_gt_0)
    then have lt: "unat (acked - ?r) < unat acked" using sub by simp
    have e: "unat (est + 1) = unat est + 1" using less.prems(2) by (simp add: unat_word_ariths)
    then have "est + 1 \<noteq> 0" by (metis add_is_0 unat_0 zero_neq_one)
    moreover have "unat (acked - ?r) + unat (est + 1) \<le> unat acked + unat est" using lt e by simp
    ultimately obtain acked' est' where IH: "tcp_loop (nconn_alpha 2) (acked - ?r) (est + 1) = Some (acked', est')"
      "est + 1 \<le> est'" "unat acked' + unat est' \<le> unat (acked - ?r) + unat (est + 1)"
      using less.hyps [OF lt, of "est + 1"] less.prems(2) by (meson order.trans)
    have "tcp_loop (nconn_alpha 2) acked est = Some (acked', est')"
      using False IH(1) by (simp add: tcp_loop.simps [of _ acked])
    moreover have "est \<le> est'" using IH(2) e by (simp add: word_le_nat_alt)
    ultimately show ?thesis using IH(3) lt e by auto
  qed
qed

subsection \<open>The congestion window is bounded\<close>

definition cubic_ok :: "nat \<Rightarrow> Cubic \<Rightarrow> bool" where
  "cubic_ok k c \<longleftrightarrow>
     cubic_numConnections c = 2 \<and>
     (lastCongestionWindow c \<noteq> 0 \<or> epoch c \<noteq> None \<longrightarrow> 2 \<le> unat (estimatedTCPcongestionWindow c)) \<and>
     unat (ackedPacketsCount c) + unat (estimatedTCPcongestionWindow c) + k \<le> 2 ^ 62"

definition sender_ok :: "PacketNumber \<Rightarrow> nat \<Rightarrow> cubicSender \<Rightarrow> bool" where
  "sender_ok M k c \<longleftrightarrow>
     k \<le> 2 ^ 61 \<and> cubic_ok k (cubic c) \<and> numConnections c = 2 \<and> minCongestionWindow c = 2 \<and>
     maxTCPCongestionWindow c = M \<and> unat M \<le> 2 ^ 24 \<and> 2 \<le> unat (congestionWindow c) \<and>
     unat (congestionWindow c) \<le> unat M"

lemma AfterAck_ok:
  assumes c: "cubic_ok (Suc k) c" and cw: "2 \<le> unat cw" "unat cw \<le> 2 ^ 24" and k: "k \<le> 2 ^ 61"
  shows "\<exists>w c'. CongestionWindowAfterAck cbrt now cw d c = Some (w, c') \<and> 2 \<le> unat w \<and> cubic_ok k c'"
proof -
  let ?c1 = "c\<lparr>ackedPacketsCount := ackedPacketsCount c + 1\<rparr>"
  have a: "unat (ackedPacketsCount c + 1) = unat (ackedPacketsCount c) + 1"
    using c by (simp add: cubic_ok_def unat_word_ariths)
  then have c1: "cubic_ok k ?c1" using c by (simp add: cubic_ok_def)
  show ?thesis
  proof (cases "lastCongestionWindow c = cw \<and> time_Since now (lastUpdateTime c) \<le> maxCubicTimeInterval")
    case True
    then have "lastCongestionWindow c \<noteq> 0" using cw(1) by auto
    then have "2 \<le> unat (estimatedTCPcongestionWindow c)" using c by (simp add: cubic_ok_def)
    moreover have "estimatedTCPcongestionWindow c \<le> max (lastTargetCongestionWindow c) (estimatedTCPcongestionWindow c)" by simp
    ultimately have "2 \<le> unat (max (lastTargetCongestionWindow c) (estimatedTCPcongestionWindow c))"
      unfolding word_le_nat_alt by (rule order.trans)
    then show ?thesis using True c1 by (simp add: CongestionWindowAfterAck_def)
  next
    case False
    let ?c2 = "?c1\<lparr>lastCongestionWindow := cw, lastUpdateTime := Some now\<rparr>"
    let ?c3 = "cubic_epoch cbrt now cw ?c2" and ?t = "cubic_target now d (cubic_epoch cbrt now cw ?c2)"
    have e: "cubic_numConnections ?c3 = 2" "2 \<le> unat (estimatedTCPcongestionWindow ?c3)"
      "unat (ackedPacketsCount ?c3) + unat (estimatedTCPcongestionWindow ?c3) + k \<le> 2 ^ 62"
      using c1 cw k by (auto simp: cubic_ok_def cubic_epoch_def Let_def split: option.splits)
    have "estimatedTCPcongestionWindow ?c3 \<noteq> 0" using e(2) by auto
    from tcp_loop_returns [OF this, of "ackedPacketsCount ?c3"] e(3) obtain acked est
      where l: "tcp_loop (nconn_alpha 2) (ackedPacketsCount ?c3) (estimatedTCPcongestionWindow ?c3) = Some (acked, est)"
        "estimatedTCPcongestionWindow ?c3 \<le> est" "unat acked + unat est \<le> unat (ackedPacketsCount ?c3) + unat (estimatedTCPcongestionWindow ?c3)"
      by auto
    have est: "2 \<le> unat est" using e(2) l(2) by (simp add: word_le_nat_alt)
    then have "2 \<le> unat (if ?t < est then est else ?t)" by (auto simp: not_less word_le_nat_alt)
    moreover have "cubic_ok k (?c3\<lparr>ackedPacketsCount := acked, estimatedTCPcongestionWindow := est, lastTargetCongestionWindow := ?t\<rparr>)"
      using est e(1,3) l(3) by (simp add: cubic_ok_def)
    ultimately show ?thesis using False l(1) e(1) by (auto simp: CongestionWindowAfterAck_def Let_def)
  qed
qed

lemma loss_window_le:
  assumes "unat cw \<le> 2 ^ 24"
  shows "unat (pn_of_f32 (f32 (f32_of_pn cw * nconn_beta 2))) \<le> unat cw"
proof -
  define m where "m = uint cw"
  have u: "0 \<le> m" "m \<le> 2 ^ 24" "int (unat cw) = m"
    using assms of_nat_le_iff [where 'a = int, of "unat cw" "2 ^ 24"] by (simp_all add: m_def)
  have e: "f32_of_pn cw = of_int m" using f32_of_int [OF u(1,2)] by (simp only: f32_of_pn_def m_def)
  have "int (unat (pn_of_f32 (f32 (f32_of_pn cw * nconn_beta 2)))) \<le> m"
    by (rule pn_of_f32_bounds(2) [of 0]) (use u(1,2) in \<open>simp_all add: e f32_of_int nconn_beta_2\<close>)
  then show ?thesis using u(3) by linarith
qed

text \<open>
  As an implementation of the interface. A call that does not return leaves no controller behind: the
  state is an option, and \<open>None\<close> is the state after such a call.
\<close>

definition cubic_algorithm :: "(u64 \<Rightarrow> u32) \<Rightarrow> cubicSender option SendAlgorithm" where
  "cubic_algorithm cbrt =
     \<lparr>cc_OnPacketSent = (\<lambda>now inFlight n bytes retr. map_option (\<lambda>c. snd (cubic_OnPacketSent n bytes retr c))),
      cc_GetCongestionWindow = (\<lambda>c. case c of None \<Rightarrow> 0 | Some c \<Rightarrow> GetCongestionWindow c),
      cc_MaybeExitSlowStart = (\<lambda>rtt. map_option (cubic_MaybeExitSlowStart rtt)),
      cc_OnPacketAcked = (\<lambda>now rtt n bytes inFlight c. Option.bind c (cubic_OnPacketAcked cbrt now rtt n bytes inFlight)),
      cc_OnPacketLost = (\<lambda>n bytes inFlight. map_option (cubic_OnPacketLost n bytes inFlight)),
      cc_OnRetransmissionTimeout = (\<lambda>retr. map_option (cubic_OnRetransmissionTimeout retr)),
      cc_RetransmissionDelay = (\<lambda>rtt c. RetransmissionDelay rtt),
      cc_SmoothedRTT = (\<lambda>rtt c. smoothedRTT rtt)\<rparr>"

definition cubic_inv :: "PacketNumber \<Rightarrow> nat \<Rightarrow> cubicSender option \<Rightarrow> bool" where
  "cubic_inv M k c \<longleftrightarrow> (\<exists>s. c = Some s \<and> sender_ok M k s)"

lemma cubic_ok_less: "cubic_ok (Suc k) c \<Longrightarrow> cubic_ok k c"
  by (simp add: cubic_ok_def)

lemma sender_ok_frame:
  assumes "sender_ok M (Suc k) c" "congestionWindow c' = congestionWindow c" "cubic c' = cubic c" "numConnections c' = numConnections c"
    "minCongestionWindow c' = minCongestionWindow c" "maxTCPCongestionWindow c' = maxTCPCongestionWindow c"
  shows "sender_ok M k c'"
  using assms by (auto simp: sender_ok_def cubic_ok_less)

lemma sent_ok: "sender_ok M (Suc k) c \<Longrightarrow> sender_ok M k (snd (cubic_OnPacketSent n b r c))"
  by (erule sender_ok_frame) (simp_all add: cubic_OnPacketSent_def Let_def)

lemma exit_ok: "sender_ok M (Suc k) c \<Longrightarrow> sender_ok M k (cubic_MaybeExitSlowStart rtt c)"
  by (erule sender_ok_frame) (auto simp: cubic_MaybeExitSlowStart_def ExitSlowstart_def Let_def split: prod.splits)

lemma timeout_ok: "sender_ok M (Suc k) c \<Longrightarrow> sender_ok M k (cubic_OnRetransmissionTimeout r c)"
  by (auto simp: sender_ok_def cubic_ok_def cubic_OnRetransmissionTimeout_def cubic_Reset_def Let_def)

lemma increase_ok:
  assumes "sender_ok M (Suc k) c"
  shows "\<exists>c'. maybeIncreaseCwnd cbrt now rtt inFlight c = Some c' \<and> sender_ok M k c'"
proof -
  have c: "cubic_ok (Suc k) (cubic c)" "2 \<le> unat (congestionWindow c)" "unat (congestionWindow c) \<le> 2 ^ 24" "k \<le> 2 ^ 61"
    using assms by (auto simp: sender_ok_def)
  obtain w cu where A: "CongestionWindowAfterAck cbrt now (congestionWindow c) (minRTT rtt) (cubic c) = Some (w, cu)"
    "2 \<le> unat w" "cubic_ok k cu" using AfterAck_ok [OF c] by blast
  have m: "sender_ok M k (c\<lparr>congestionWindow := min (maxTCPCongestionWindow c) w, cubic := cu\<rparr>)"
    using assms A(2,3) by (auto simp: sender_ok_def min_def word_le_nat_alt)
  have p: "sender_ok M k (c\<lparr>congestionWindow := congestionWindow c + 1, congestionWindowCount := x\<rparr>)"
    if "\<not> maxTCPCongestionWindow c \<le> congestionWindow c" for x
  proof -
    have "unat (congestionWindow c + 1) = unat (congestionWindow c) + 1" using c(3) by (simp add: unat_word_ariths)
    then show ?thesis using that assms by (auto simp: sender_ok_def cubic_ok_less word_le_nat_alt)
  qed
  then have p': "\<not> maxTCPCongestionWindow c \<le> congestionWindow c \<Longrightarrow> sender_ok M k (c\<lparr>congestionWindow := congestionWindow c + 1\<rparr>)"
    by (auto simp: sender_ok_def)
  have o: "sender_ok M k (c\<lparr>cubic := OnApplicationLimited now (cubic c)\<rparr>)" "sender_ok M k c"
    "sender_ok M k (c\<lparr>congestionWindowCount := x\<rparr>)" for x
    using assms by (auto simp: sender_ok_def cubic_ok_def OnApplicationLimited_def)
  show ?thesis
    unfolding maybeIncreaseCwnd_def using A(1) m o p p' by (auto simp: Let_def)
qed

lemma acked_ok:
  assumes "sender_ok M (Suc k) c"
  shows "\<exists>c'. cubic_OnPacketAcked cbrt now rtt n b inFlight c = Some c' \<and> sender_ok M k c'"
proof -
  let ?c = "c\<lparr>largestAckedPacketNumber := max n (largestAckedPacketNumber c)\<rparr>"
  have "sender_ok M (Suc k) ?c" using assms by (simp add: sender_ok_def)
  then obtain c' where i: "maybeIncreaseCwnd cbrt now rtt inFlight ?c = Some c'" "sender_ok M k c'"
    using increase_ok by blast
  have "sender_ok M k (c'\<lparr>hybridSlowStart := h\<rparr>)" for h using i(2) by (simp add: sender_ok_def)
  moreover have "sender_ok M k (?c\<lparr>prr := p\<rparr>)" for p by (rule sender_ok_frame [OF assms]) simp_all
  ultimately show ?thesis using i by (auto simp: cubic_OnPacketAcked_def Let_def)
qed

lemma lost_ok:
  assumes "sender_ok M (Suc k) c"
  shows "sender_ok M k (cubic_OnPacketLost n b inFlight c)"
proof -
  note c = assms [unfolded sender_ok_def]
  have w: "unat (pn_of_f32 (f32 (f32_of_pn (congestionWindow c) * nconn_beta 2))) \<le> unat (congestionWindow c)"
    using c by (intro loss_window_le) auto
  have p: "unat (congestionWindow c - 1) = unat (congestionWindow c) - 1" using c by (intro u64_pred) auto
  have "cubic_ok k (cubic c)" "cubic_ok k (snd (CongestionWindowAfterPacketLoss (congestionWindow c) (cubic c)))"
    using c by (auto simp: cubic_ok_def CongestionWindowAfterPacketLoss_def)
  moreover have "cubic_numConnections (cubic c) = 2" using c by (simp add: cubic_ok_def)
  ultimately show ?thesis
    using c w p unfolding cubic_OnPacketLost_def loss_in_recovery_def sender_ok_def
    by (auto simp: CongestionWindowAfterPacketLoss_def RenoBeta_def Let_def max_def word_less_nat_alt word_le_nat_alt)
qed

lemma sender_window:
  assumes "sender_ok M k c"
  shows "unat (GetCongestionWindow c) = unat (congestionWindow c) * 1460"
proof -
  have "unat (congestionWindow c) \<le> 2 ^ 24" using assms by (simp add: sender_ok_def)
  then have "unat (congestionWindow c) * 1460 < 2 ^ 64" by simp
  then show ?thesis by (simp add: GetCongestionWindow_def DefaultTCPMSS_def unat_word_ariths)
qed

interpretation cubic_cc: bounded_window "cubic_algorithm cbrt" "cubic_inv M" "2 * 1460" "unat M * 1460"
proof
  fix k c assume "cubic_inv M k c"
  then obtain s where s: "c = Some s" "sender_ok M k s" by (auto simp: cubic_inv_def)
  then show "2 * 1460 \<le> unat (cc_GetCongestionWindow (cubic_algorithm cbrt) c) \<and>
      unat (cc_GetCongestionWindow (cubic_algorithm cbrt) c) \<le> unat M * 1460"
    using sender_window [OF s(2)] by (simp add: cubic_algorithm_def sender_ok_def)
next
  fix k c e assume "cubic_inv M (Suc k) c"
  then obtain s where s: "c = Some s" "sender_ok M (Suc k) s" by (auto simp: cubic_inv_def)
  show "cubic_inv M k (cc_call (cubic_algorithm cbrt) e c)"
    using sent_ok [OF s(2)] exit_ok [OF s(2)] timeout_ok [OF s(2)] lost_ok [OF s(2)] acked_ok [OF s(2)]
    by (cases e) (auto simp: s(1) cubic_algorithm_def cubic_inv_def)
qed

lemma cubic_run_window:
  assumes "length es \<le> 2 ^ 61"
  shows "\<exists>c. cc_run (cubic_algorithm cbrt) es (Some (NewCubicSender r InitialCongestionWindow DefaultMaxCongestionWindow)) = Some c \<and>
    2 * 1460 \<le> unat (GetCongestionWindow c) \<and> unat (GetCongestionWindow c) \<le> 2500 * 1460"
proof -
  let ?s = "Some (NewCubicSender r InitialCongestionWindow DefaultMaxCongestionWindow)"
  have i: "cubic_inv 2500 (length es + 0) ?s"
    using assms by (auto simp: cubic_inv_def sender_ok_def cubic_ok_def NewCubicSender_def NewCubic_def defaultNumConnections_def
        defaultMinimumCongestionWindow_def InitialCongestionWindow_def DefaultMaxCongestionWindow_def)
  then obtain c where c: "cc_run (cubic_algorithm cbrt) es ?s = Some c"
    using cubic_cc.run_inv [of 2500 es 0 ?s cbrt] by (auto simp: cubic_inv_def)
  then show ?thesis using cubic_cc.run_window [OF i, of cbrt] by (simp add: cubic_algorithm_def)
qed

text \<open>
  C11: The congestion controller always returns, and its window always lies between two and
  \<open>DefaultMaxCongestionWindow\<close> segments, whatever is sent, acknowledged, lost or timed out, for runs of
  up to \<open>2 ^ 61\<close> calls. In particular the loop of \<open>CongestionWindowAfterAck\<close> ends.
\<close>

theorem cubic_window_bounded:
  assumes "length es \<le> 2 ^ 61"
  shows "\<exists>c. cc_run (cubic_algorithm cbrt) es (Some (NewCubicSender r InitialCongestionWindow DefaultMaxCongestionWindow)) = Some c \<and>
    2 * 1460 \<le> unat (GetCongestionWindow c) \<and> unat (GetCongestionWindow c) \<le> 2500 * 1460"
  by (rule cubic_run_window [OF assms])

theorem cubic_window_bounded_witness:
  "\<exists>c. cc_run (cubic_algorithm (\<lambda>_. 0)) [CCTimeout True, CCLost 3 1200 2400, CCAcked 5 NewRTTStats 7 1200 40000]
     (Some (NewCubicSender False InitialCongestionWindow DefaultMaxCongestionWindow)) = Some c \<and>
    2 * 1460 \<le> unat (GetCongestionWindow c) \<and> unat (GetCongestionWindow c) \<le> 2500 * 1460"
  by (rule cubic_window_bounded) simp

end
