(* ===== verification/Sent_Handler.thy ===== *)
theory Sent_Handler
  imports Unpacker Ack_Codec Cubic_Sender "HOL-Library.Multiset"
begin

text \<open>
  \<open>ackhandler/sent_packet_handler.go\<close>, \<open>packet.go\<close>, \<open>retransmittable.go\<close> and
  \<open>stop_waiting_manager.go\<close>: the bookkeeping of sent packets, acknowledgements and losses. The linked
  list of packets is the list of its values from \<open>Front\<close> to \<open>Back\<close>; an element is removed by its value,
  which is the same since the packet numbers of the list are distinct (\<open>sph_inv\<close> below). The congestion
  controller is an implementation of \<open>SendAlgorithm\<close>, chosen by the caller, with its state in the
  handler; one operation reads the clock once. Statistics that divide floats are not modelled.
\<close>

subsection \<open>Packets\<close>

record Packet =
  pkt_PacketNumber :: PacketNumber
  pkt_Frames :: "Frame list"
  pkt_Length :: ByteCount
  pkt_EncryptionLevel :: EncryptionLevel
  pkt_SendTime :: "Time option"
  pkt_NeedRetrans :: bool

fun IsFrameRetransmittable :: "Frame \<Rightarrow> bool" where
  "IsFrameRetransmittable (StopWaitingF f) = False"
| "IsFrameRetransmittable (AckF f) = False"
| "IsFrameRetransmittable f = True"

fun IsFrameRetransmittableForRed :: "Frame \<Rightarrow> bool" where
  "IsFrameRetransmittableForRed (StopWaitingF f) = False"
| "IsFrameRetransmittableForRed (StreamF f) = False"
| "IsFrameRetransmittableForRed f = True"

definition stripNonRetransmittableFrames :: "Frame list \<Rightarrow> Frame list" where
  "stripNonRetransmittableFrames fs = filter IsFrameRetransmittable fs"

definition HasRetransmittableFrames :: "Frame list \<Rightarrow> bool" where
  "HasRetransmittableFrames fs = list_ex IsFrameRetransmittable fs"

definition HasRetransmittableFramesForRed :: "Frame list \<Rightarrow> bool" where
  "HasRetransmittableFramesForRed fs = list_ex IsFrameRetransmittableForRed fs"

definition GetFramesForRetransmission :: "Packet \<Rightarrow> Frame list" where
  "GetFramesForRetransmission p =
     filter (\<lambda>f. case f of AckF _ \<Rightarrow> False | StopWaitingF _ \<Rightarrow> False | _ \<Rightarrow> True) (pkt_Frames p)"

definition IsRetransmittable :: "Packet \<Rightarrow> bool" where
  "IsRetransmittable p =
     list_ex (\<lambda>f. case f of StreamF _ \<Rightarrow> True | RstStreamF _ \<Rightarrow> True | WindowUpdateF _ \<Rightarrow> True
                          | BlockedF _ \<Rightarrow> True | PingF _ \<Rightarrow> True | GoawayF _ \<Rightarrow> True | AddAddressF _ \<Rightarrow> True
                          | PathsF _ \<Rightarrow> True | _ \<Rightarrow> False) (pkt_Frames p)"

subsection \<open>STOP_WAITING frames\<close>

record stopWaitingManager =
  largestLeastUnackedSent :: PacketNumber
  nextLeastUnacked :: PacketNumber
  lastStopWaitingFrame :: "StopWaitingFrame option"

definition newStopWaitingFrame :: "PacketNumber \<Rightarrow> StopWaitingFrame" where
  "newStopWaitingFrame n = \<lparr>sw_LeastUnacked = n, sw_PacketNumberLen = 0, sw_PacketNumber = 0\<rparr>"

definition swm_GetStopWaitingFrame :: "bool \<Rightarrow> stopWaitingManager \<Rightarrow> StopWaitingFrame option \<times> stopWaitingManager" where
  "swm_GetStopWaitingFrame force s =
     (if nextLeastUnacked s \<le> largestLeastUnackedSent s then
        if force then
          let s = (if lastStopWaitingFrame s = None \<and> largestLeastUnackedSent s > 0
                   then s\<lparr>lastStopWaitingFrame := Some (newStopWaitingFrame (nextLeastUnacked s))\<rparr> else s)
          in (lastStopWaitingFrame s, s)
        else (None, s)
      else
        let swf = newStopWaitingFrame (nextLeastUnacked s) in
        (Some swf, s\<lparr>largestLeastUnackedSent := nextLeastUnacked s, lastStopWaitingFrame := Some swf\<rparr>))"

definition swm_ReceivedAck :: "AckFrame \<Rightarrow> stopWaitingManager \<Rightarrow> stopWaitingManager" where
  "swm_ReceivedAck ack s =
     (if ack_LargestAcked ack \<ge> nextLeastUnacked s then s\<lparr>nextLeastUnacked := ack_LargestAcked ack + 1\<rparr> else s)"

definition QueuedRetransmissionForPacketNumber :: "PacketNumber \<Rightarrow> stopWaitingManager \<Rightarrow> stopWaitingManager" where
  "QueuedRetransmissionForPacketNumber p s =
     (if p \<ge> nextLeastUnacked s then s\<lparr>nextLeastUnacked := p + 1\<rparr> else s)"

subsection \<open>The handler\<close>

definition defaultRTOTimeout :: Duration where "defaultRTOTimeout = 500 * Millisecond"

definition minRTOTimeout :: Duration where "minRTOTimeout = 200 * Millisecond"

definition maxRTOTimeout :: Duration where "maxRTOTimeout = 60 * Second"

definition maxTailLossProbes :: u32 where "maxTailLossProbes = 2"

definition minRetransmissionTime :: Duration where "minRetransmissionTime = 200 * Millisecond"

definition minTailLossProbeTimeout :: Duration where "minTailLossProbeTimeout = 10 * Millisecond"

definition MaxTrackedSentPackets :: PacketNumber where "MaxTrackedSentPackets = 300 * 2500"

definition MaxTrackedSkippedPackets :: nat where "MaxTrackedSkippedPackets = 10"

definition MaxNonRetransmittablePackets :: int where "MaxNonRetransmittablePackets = 19"

definition ErrAckForSkippedPacket :: error where "ErrAckForSkippedPacket = QuicError InvalidAckData"

definition errAckForUnsentPacket :: error where "errAckForUnsentPacket = QuicError InvalidAckData"

record 'c sentPacketHandler =
  sph_lastSentPacketNumber :: PacketNumber
  skippedPackets :: "PacketNumber list"
  numNonRetransmittablePackets :: int
  LargestAcked :: PacketNumber
  largestReceivedPacketWithAck :: PacketNumber
  sph_packetHistory :: "Packet list"
  sph_stopWaitingManager :: stopWaitingManager
  retransmissionQueue :: "Packet list"
  bytesInFlight :: ByteCount
  congestion :: 'c
  sph_rttStats :: RTTStats
  rtoCount :: u32
  tlpCount :: u32
  lossTime :: "Time option"
  lastSentTime :: "Time option"
  sph_alarm :: "Time option"
  sph_packets :: u64
  retransmissions :: u64
  losses :: u64
  totalrecvsize :: rat
  thistimesize :: rat
  lostbytes :: ByteCount

definition NewSentPacketHandler :: "RTTStats \<Rightarrow> 'c \<Rightarrow> 'c sentPacketHandler" where
  "NewSentPacketHandler rtt cong =
     \<lparr>sph_lastSentPacketNumber = 0, skippedPackets = [], numNonRetransmittablePackets = 0, LargestAcked = 0,
      largestReceivedPacketWithAck = 0, sph_packetHistory = [],
      sph_stopWaitingManager = \<lparr>largestLeastUnackedSent = 0, nextLeastUnacked = 0, lastStopWaitingFrame = None\<rparr>,
      retransmissionQueue = [], bytesInFlight = 0, congestion = cong, sph_rttStats = rtt, rtoCount = 0, tlpCount = 0,
      lossTime = None, lastSentTime = None, sph_alarm = None, sph_packets = 0, retransmissions = 0, losses = 0,
      totalrecvsize = 0, thistimesize = 0, lostbytes = 0\<rparr>"

definition largestInOrderAcked :: "'c sentPacketHandler \<Rightarrow> PacketNumber" where
  "largestInOrderAcked h =
     (case sph_packetHistory h of f # _ \<Rightarrow> pkt_PacketNumber f - 1 | [] \<Rightarrow> LargestAcked h)"

definition ShouldSendRetransmittablePacket :: "'c sentPacketHandler \<Rightarrow> bool" where
  "ShouldSendRetransmittablePacket h \<longleftrightarrow> numNonRetransmittablePackets h \<ge> MaxNonRetransmittablePackets"

definition GetLeastUnacked :: "'c sentPacketHandler \<Rightarrow> PacketNumber" where
  "GetLeastUnacked h = largestInOrderAcked h + 1"

text \<open>The alarm.\<close>

definition computeRTOTimeout :: "'c SendAlgorithm \<Rightarrow> 'c sentPacketHandler \<Rightarrow> Duration" where
  "computeRTOTimeout cc h =
     (let rto = cc_RetransmissionDelay cc (sph_rttStats h) (congestion h);
          rto = (if rto = 0 then defaultRTOTimeout else rto);
          rto = max rto minRTOTimeout;
          rto = wrap64 (rto * 2 ^ unat (rtoCount h))
      in min rto maxRTOTimeout)"

definition hasMultipleOutstandingRetransmittablePackets :: "'c sentPacketHandler \<Rightarrow> bool" where
  "hasMultipleOutstandingRetransmittablePackets h \<longleftrightarrow> length (sph_packetHistory h) \<ge> 2"

definition computeTLPTimeout :: "'c SendAlgorithm \<Rightarrow> 'c sentPacketHandler \<Rightarrow> Duration" where
  "computeTLPTimeout cc h =
     (let rtt = cc_SmoothedRTT cc (sph_rttStats h) (congestion h) in
      if hasMultipleOutstandingRetransmittablePackets h
      then max (wrap64 (2 * rtt)) (wrap64 (go_div (wrap64 (rtt * 3)) 2 + go_div minRetransmissionTime 2))
      else max (wrap64 (2 * rtt)) minTailLossProbeTimeout)"

definition updateLossDetectionAlarm :: "'c SendAlgorithm \<Rightarrow> 'c sentPacketHandler \<Rightarrow> 'c sentPacketHandler" where
  "updateLossDetectionAlarm cc h =
     (if sph_packetHistory h = [] then h\<lparr>sph_alarm := None\<rparr>
      else if lossTime h \<noteq> None then h\<lparr>sph_alarm := lossTime h\<rparr>
      else if smoothedRTT (sph_rttStats h) \<noteq> 0 \<and> tlpCount h < maxTailLossProbes
      then h\<lparr>sph_alarm := map_option (\<lambda>t. t + computeTLPTimeout cc h) (lastSentTime h)\<rparr>
      else h\<lparr>sph_alarm := map_option (\<lambda>t. t + max (computeRTOTimeout cc h) minRetransmissionTime) (lastSentTime h)\<rparr>)"

text \<open>The loop that records skipped packet numbers.\<close>

definition skip_packet :: "PacketNumber \<Rightarrow> PacketNumber list \<Rightarrow> PacketNumber list" where
  "skip_packet p ps =
     (let ps = ps @ [p] in if length ps > MaxTrackedSkippedPackets then tl ps else ps)"

definition skipped_between :: "PacketNumber \<Rightarrow> PacketNumber \<Rightarrow> PacketNumber list" where
  "skipped_between lastSent n = map of_nat [unat lastSent + 1..<unat n]"

definition SentPacket ::
    "'c SendAlgorithm \<Rightarrow> Time \<Rightarrow> Packet \<Rightarrow> 'c sentPacketHandler \<Rightarrow> error option \<times> 'c sentPacketHandler" where
  "SentPacket cc now packet h =
     (if pkt_PacketNumber packet \<le> sph_lastSentPacketNumber h then (Some ErrPacketNumberNotIncreasing, h)
      else
        let len = f64 (of_int (uint (pkt_Length packet)));
            h = h\<lparr>totalrecvsize := f64 (totalrecvsize h + len), thistimesize := f64 (thistimesize h + len)\<rparr>
        in if of_nat (length (retransmissionQueue h) + length (sph_packetHistory h) + 1) > MaxTrackedSentPackets
           then (Some ErrTooManyTrackedSentPackets, h)
           else
             let h = h\<lparr>skippedPackets := fold skip_packet
                         (skipped_between (sph_lastSentPacketNumber h) (pkt_PacketNumber packet)) (skippedPackets h),
                       sph_lastSentPacketNumber := pkt_PacketNumber packet,
                       sph_packets := sph_packets h + 1, lastSentTime := Some now\<rparr>;
                 packet = packet\<lparr>pkt_Frames := stripNonRetransmittableFrames (pkt_Frames packet)\<rparr>;
                 isRetransmittable = (pkt_Frames packet \<noteq> []
                   \<and> (pkt_NeedRetrans packet \<or> HasRetransmittableFramesForRed (pkt_Frames packet)));
                 h = (if isRetransmittable
                      then h\<lparr>bytesInFlight := bytesInFlight h + pkt_Length packet,
                             sph_packetHistory := sph_packetHistory h @ [packet\<lparr>pkt_SendTime := Some now\<rparr>],
                             numNonRetransmittablePackets := 0\<rparr>
                      else h\<lparr>numNonRetransmittablePackets := numNonRetransmittablePackets h + 1\<rparr>);
                 h = h\<lparr>congestion := cc_OnPacketSent cc now (bytesInFlight h) (pkt_PacketNumber packet)
                                       (pkt_Length packet) isRetransmittable (congestion h)\<rparr>
             in (None, updateLossDetectionAlarm cc h))"

subsection \<open>Acknowledgements\<close>

text \<open>
  The loop over the sent packets, lowest first, with the ranges of the frame that are not behind the
  current packet, also lowest first.
\<close>

fun advance_range :: "PacketNumber \<Rightarrow> AckRange list \<Rightarrow> AckRange list" where
  "advance_range p (r # r' # rs) = (if p > Last r then advance_range p (r' # rs) else r # r' # rs)"
| "advance_range p rs = rs"

fun newly_acked :: "PacketNumber \<Rightarrow> PacketNumber \<Rightarrow> AckRange list \<Rightarrow> Packet list \<Rightarrow> error + Packet list" where
  "newly_acked lowest largest ranges [] = Inr []"
| "newly_acked lowest largest ranges (packet # ps) =
     (let n = pkt_PacketNumber packet in
      if n < lowest then newly_acked lowest largest ranges ps
      else if n > largest then Inr []
      else if ranges = [] then bindE (newly_acked lowest largest ranges ps) (\<lambda>acked. Inr (packet # acked))
      else
        let ranges = advance_range n ranges; ackRange = hd ranges in
        if n \<ge> First ackRange then
          if n > Last ackRange then Inl ErrAckedWrongPacket
          else bindE (newly_acked lowest largest ranges ps) (\<lambda>acked. Inr (packet # acked))
        else newly_acked lowest largest ranges ps)"

definition determineNewlyAckedPackets :: "AckFrame \<Rightarrow> 'c sentPacketHandler \<Rightarrow> error + Packet list" where
  "determineNewlyAckedPackets ack h =
     newly_acked (ack_LowestAcked ack) (ack_LargestAcked ack) (rev (ack_AckRanges ack)) (sph_packetHistory h)"

definition determineNewlyAckedPacketsClosePath :: "ClosePathFrame \<Rightarrow> 'c sentPacketHandler \<Rightarrow> error + Packet list" where
  "determineNewlyAckedPacketsClosePath f h =
     newly_acked (cp_LowestAcked f) (cp_LargestAcked f) (rev (cp_AckRanges f)) (sph_packetHistory h)"

definition closepath_AcksPacket :: "ClosePathFrame \<Rightarrow> PacketNumber \<Rightarrow> bool" where
  "closepath_AcksPacket f p =
     (if p < cp_LowestAcked f \<or> p > cp_LargestAcked f then False
      else if HasMissingRanges (cp_AckRanges f) then in_some_range p (cp_AckRanges f)
      else p \<ge> cp_LowestAcked f \<and> p \<le> cp_LargestAcked f)"

definition skippedPacketsAcked :: "AckFrame \<Rightarrow> 'c sentPacketHandler \<Rightarrow> bool" where
  "skippedPacketsAcked ack h = list_ex (AcksPacket ack) (skippedPackets h)"

definition skippedPacketsAckedClosePath :: "ClosePathFrame \<Rightarrow> 'c sentPacketHandler \<Rightarrow> bool" where
  "skippedPacketsAckedClosePath f h = list_ex (closepath_AcksPacket f) (skippedPackets h)"

text \<open>The packets are sorted by number, so the search stops at the first larger one.\<close>

fun find_packet :: "PacketNumber \<Rightarrow> Packet list \<Rightarrow> Packet option" where
  "find_packet n [] = None"
| "find_packet n (p # ps) =
     (if pkt_PacketNumber p = n then Some p else if pkt_PacketNumber p > n then None else find_packet n ps)"

definition maybeUpdateRTT ::
    "PacketNumber \<Rightarrow> Duration \<Rightarrow> Time \<Rightarrow> Time \<Rightarrow> 'c sentPacketHandler \<Rightarrow> bool \<times> 'c sentPacketHandler" where
  "maybeUpdateRTT largestAcked ackDelay rcvTime now h =
     (case find_packet largestAcked (sph_packetHistory h) of
        Some packet \<Rightarrow>
          (True, h\<lparr>sph_rttStats := UpdateRTT (time_Since rcvTime (pkt_SendTime packet)) ackDelay now (sph_rttStats h)\<rparr>)
      | None \<Rightarrow> (False, h))"

definition onPacketAcked :: "Packet \<Rightarrow> 'c sentPacketHandler \<Rightarrow> 'c sentPacketHandler" where
  "onPacketAcked p h =
     h\<lparr>bytesInFlight := bytesInFlight h - pkt_Length p, rtoCount := 0, tlpCount := 0,
       sph_packetHistory := remove1 p (sph_packetHistory h)\<rparr>"

definition ack_packet :: "'c SendAlgorithm \<Rightarrow> Time \<Rightarrow> Packet \<Rightarrow> 'c sentPacketHandler \<Rightarrow> 'c sentPacketHandler" where
  "ack_packet cc now p h =
     (let h = onPacketAcked p h in
      h\<lparr>congestion := cc_OnPacketAcked cc now (sph_rttStats h) (pkt_PacketNumber p) (pkt_Length p)
                        (bytesInFlight h) (congestion h)\<rparr>)"

subsection \<open>Losses\<close>

definition queuePacketForRetransmission :: "Packet \<Rightarrow> 'c sentPacketHandler \<Rightarrow> 'c sentPacketHandler" where
  "queuePacketForRetransmission p h =
     h\<lparr>bytesInFlight := bytesInFlight h - pkt_Length p, retransmissionQueue := retransmissionQueue h @ [p],
       sph_packetHistory := remove1 p (sph_packetHistory h),
       sph_stopWaitingManager := QueuedRetransmissionForPacketNumber (pkt_PacketNumber p) (sph_stopWaitingManager h)\<rparr>"

definition lose_packet :: "'c SendAlgorithm \<Rightarrow> Packet \<Rightarrow> 'c sentPacketHandler \<Rightarrow> 'c sentPacketHandler" where
  "lose_packet cc p h =
     (let h = queuePacketForRetransmission p h in
      h\<lparr>congestion := cc_OnPacketLost cc (pkt_PacketNumber p) (pkt_Length p) (bytesInFlight h) (congestion h)\<rparr>)"

definition count_losses :: "Packet list \<Rightarrow> 'c sentPacketHandler \<Rightarrow> 'c sentPacketHandler" where
  "count_losses lost h =
     h\<lparr>losses := losses h + of_nat (length lost), lostbytes := lostbytes h + sum_list (map pkt_Length lost)\<rparr>"

fun detect_loop ::
    "PacketNumber \<Rightarrow> Time \<Rightarrow> Duration \<Rightarrow> Time option \<Rightarrow> Packet list \<Rightarrow> Packet list \<times> Time option" where
  "detect_loop largestAcked now delayUntilLost lossT [] = ([], lossT)"
| "detect_loop largestAcked now delayUntilLost lossT (packet # ps) =
     (if pkt_PacketNumber packet > largestAcked then ([], lossT)
      else
        let timeSinceSent = time_Since now (pkt_SendTime packet) in
        if timeSinceSent > delayUntilLost then
          (case detect_loop largestAcked now delayUntilLost lossT ps of (lost, t) \<Rightarrow> (packet # lost, t))
        else detect_loop largestAcked now delayUntilLost
               (if lossT = None then Some (now + wrap64 (delayUntilLost - timeSinceSent)) else lossT) ps)"

definition detectLostPackets :: "'c SendAlgorithm \<Rightarrow> Time \<Rightarrow> 'c sentPacketHandler \<Rightarrow> 'c sentPacketHandler" where
  "detectLostPackets cc now h =
     (let maxRTT = f64 (of_int (max (latestRTT (sph_rttStats h)) (smoothedRTT (sph_rttStats h))));
          delayUntilLost = wrap64 (go_trunc (f64 (9 / 8 * maxRTT)));
          (lost, lossT) = detect_loop (LargestAcked h) now delayUntilLost None (sph_packetHistory h)
      in fold (lose_packet cc) lost (count_losses lost (h\<lparr>lossTime := lossT\<rparr>)))"

definition SetInflightAsLost :: "'c SendAlgorithm \<Rightarrow> 'c sentPacketHandler \<Rightarrow> 'c sentPacketHandler" where
  "SetInflightAsLost cc h =
     (let lost = takeWhile (\<lambda>p. \<not> pkt_PacketNumber p > LargestAcked h) (sph_packetHistory h)
      in fold (lose_packet cc) lost (count_losses lost h))"

text \<open>The last index whose packet is not above the largest in-order acknowledged one.\<close>

definition garbageCollectSkippedPackets :: "'c sentPacketHandler \<Rightarrow> 'c sentPacketHandler" where
  "garbageCollectSkippedPackets h =
     (let lioa = largestInOrderAcked h
      in h\<lparr>skippedPackets := rev (takeWhile (\<lambda>p. \<not> p \<le> lioa) (rev (skippedPackets h)))\<rparr>)"

definition ReceivedAck ::
    "'c SendAlgorithm \<Rightarrow> Time \<Rightarrow> AckFrame \<Rightarrow> PacketNumber \<Rightarrow> Time \<Rightarrow> 'c sentPacketHandler
     \<Rightarrow> error option \<times> 'c sentPacketHandler" where
  "ReceivedAck cc now ack withPacketNumber rcvTime h =
     (if ack_LargestAcked ack > sph_lastSentPacketNumber h then (Some errAckForUnsentPacket, h)
      else if withPacketNumber \<le> largestReceivedPacketWithAck h then (Some ErrDuplicateOrOutOfOrderAck, h)
      else
        let h = h\<lparr>largestReceivedPacketWithAck := withPacketNumber\<rparr> in
        if ack_LargestAcked ack \<le> largestInOrderAcked h then (None, h)
        else
          let h = h\<lparr>LargestAcked := ack_LargestAcked ack\<rparr> in
          if skippedPacketsAcked ack h then (Some ErrAckForSkippedPacket, h)
          else
            let (rttUpdated, h) = maybeUpdateRTT (ack_LargestAcked ack) (ack_DelayTime ack) rcvTime now h;
                h = (if rttUpdated then h\<lparr>congestion := cc_MaybeExitSlowStart cc (sph_rttStats h) (congestion h)\<rparr> else h)
            in case determineNewlyAckedPackets ack h of
                 Inl e \<Rightarrow> (Some e, h)
               | Inr acked \<Rightarrow>
                   let h = fold (ack_packet cc now) acked h;
                       h = updateLossDetectionAlarm cc (detectLostPackets cc now h);
                       h = garbageCollectSkippedPackets h
                   in (None, h\<lparr>sph_stopWaitingManager := swm_ReceivedAck ack (sph_stopWaitingManager h)\<rparr>))"

definition ReceivedClosePath ::
    "'c SendAlgorithm \<Rightarrow> Time \<Rightarrow> ClosePathFrame \<Rightarrow> PacketNumber \<Rightarrow> 'c sentPacketHandler
     \<Rightarrow> error option \<times> 'c sentPacketHandler" where
  "ReceivedClosePath cc now f withPacketNumber h =
     (if cp_LargestAcked f > sph_lastSentPacketNumber h then (Some errAckForUnsentPacket, h)
      else if withPacketNumber \<le> largestReceivedPacketWithAck h then (Some ErrDuplicateOrOutOfOrderAck, h)
      else
        let h = h\<lparr>largestReceivedPacketWithAck := withPacketNumber\<rparr> in
        if skippedPacketsAckedClosePath f h then (Some ErrAckForSkippedPacket, h)
        else
          case determineNewlyAckedPacketsClosePath f h of
            Inl e \<Rightarrow> (Some e, h)
          | Inr acked \<Rightarrow>
              (None, garbageCollectSkippedPackets (SetInflightAsLost cc (fold (ack_packet cc now) acked h))))"

subsection \<open>The alarm goes off\<close>

definition hasOutstandingRetransmittablePacket :: "'c sentPacketHandler \<Rightarrow> bool" where
  "hasOutstandingRetransmittablePacket h = list_ex IsRetransmittable (sph_packetHistory h)"

definition retransmitTLP :: "'c sentPacketHandler \<Rightarrow> 'c sentPacketHandler" where
  "retransmitTLP h =
     (if sph_packetHistory h = [] then h else queuePacketForRetransmission (last (sph_packetHistory h)) h)"

definition queueRTO :: "'c SendAlgorithm \<Rightarrow> Packet \<Rightarrow> 'c sentPacketHandler \<Rightarrow> 'c sentPacketHandler" where
  "queueRTO cc p h =
     (let h = count_losses [p] (queuePacketForRetransmission p h) in
      h\<lparr>congestion := cc_OnPacketLost cc (pkt_PacketNumber p) (pkt_Length p) (bytesInFlight h) (congestion h)\<rparr>)"

lemma queueRTO_history [simp]:
  "sph_packetHistory (queueRTO cc p h) = remove1 p (sph_packetHistory h)"
  by (simp add: queueRTO_def count_losses_def queuePacketForRetransmission_def)

function retransmit_loop :: "'c SendAlgorithm \<Rightarrow> 'c sentPacketHandler \<Rightarrow> 'c sentPacketHandler" where
  "retransmit_loop cc h =
     (case sph_packetHistory h of [] \<Rightarrow> h | p # _ \<Rightarrow> retransmit_loop cc (queueRTO cc p h))"
  by pat_completeness auto

termination
  by (relation "measure (\<lambda>(cc, h). length (sph_packetHistory h))") simp_all

declare retransmit_loop.simps [simp del]

definition retransmitAllPackets :: "'c SendAlgorithm \<Rightarrow> 'c sentPacketHandler \<Rightarrow> 'c sentPacketHandler" where
  "retransmitAllPackets cc h =
     (let h = retransmit_loop cc h in h\<lparr>congestion := cc_OnRetransmissionTimeout cc True (congestion h)\<rparr>)"

definition retransmitOldestPacket :: "'c SendAlgorithm \<Rightarrow> 'c sentPacketHandler \<Rightarrow> 'c sentPacketHandler" where
  "retransmitOldestPacket cc h = (case sph_packetHistory h of [] \<Rightarrow> h | p # _ \<Rightarrow> queueRTO cc p h)"

definition retransmitOldestTwoPackets :: "'c SendAlgorithm \<Rightarrow> 'c sentPacketHandler \<Rightarrow> 'c sentPacketHandler" where
  "retransmitOldestTwoPackets cc h =
     (let h = retransmitOldestPacket cc (retransmitOldestPacket cc h)
      in h\<lparr>congestion := cc_OnRetransmissionTimeout cc True (congestion h)\<rparr>)"

text \<open>\<open>onRTOCallback\<close> is a function of the path, or nil.\<close>

definition OnAlarm ::
    "'c SendAlgorithm \<Rightarrow> Time \<Rightarrow> (Time option \<Rightarrow> bool) option \<Rightarrow> 'c sentPacketHandler \<Rightarrow> 'c sentPacketHandler" where
  "OnAlarm cc now onRTOCallback h =
     (if \<not> hasOutstandingRetransmittablePacket h then h\<lparr>sph_alarm := None\<rparr>
      else
        let h = (if lossTime h \<noteq> None then detectLostPackets cc now h
                 else if tlpCount h < maxTailLossProbes then
                   let h = retransmitTLP h in h\<lparr>tlpCount := tlpCount h + 1\<rparr>
                 else
                   let potentiallyFailed = (case onRTOCallback of None \<Rightarrow> False | Some f \<Rightarrow> f (lastSentTime h));
                       h = (if potentiallyFailed then retransmitAllPackets cc h else retransmitOldestTwoPackets cc h)
                   in h\<lparr>rtoCount := rtoCount h + 1\<rparr>)
        in updateLossDetectionAlarm cc h)"

definition DequeuePacketForRetransmission :: "'c sentPacketHandler \<Rightarrow> Packet option \<times> 'c sentPacketHandler" where
  "DequeuePacketForRetransmission h =
     (case retransmissionQueue h of
        [] \<Rightarrow> (None, h)
      | packet # rest \<Rightarrow> (Some packet, h\<lparr>retransmissionQueue := rest, retransmissions := retransmissions h + 1\<rparr>))"

definition DuplicatePacket :: "Packet \<Rightarrow> 'c sentPacketHandler \<Rightarrow> 'c sentPacketHandler" where
  "DuplicatePacket packet h = h\<lparr>retransmissionQueue := retransmissionQueue h @ [packet]\<rparr>"

definition GetStopWaitingFrame :: "bool \<Rightarrow> 'c sentPacketHandler \<Rightarrow> StopWaitingFrame option \<times> 'c sentPacketHandler" where
  "GetStopWaitingFrame force h =
     (case swm_GetStopWaitingFrame force (sph_stopWaitingManager h) of
        (swf, m) \<Rightarrow> (swf, h\<lparr>sph_stopWaitingManager := m\<rparr>))"

definition SendingAllowed :: "'c SendAlgorithm \<Rightarrow> 'c sentPacketHandler \<Rightarrow> bool" where
  "SendingAllowed cc h =
     (let congestionLimited = bytesInFlight h > cc_GetCongestionWindow cc (congestion h);
          maxTrackedLimited = of_nat (length (retransmissionQueue h) + length (sph_packetHistory h)) \<ge> MaxTrackedSentPackets;
          haveRetransmissions = length (retransmissionQueue h) > 0
      in \<not> maxTrackedLimited \<and> (\<not> congestionLimited \<or> haveRetransmissions))"

definition GetStatistics :: "'c sentPacketHandler \<Rightarrow> u64 \<times> u64 \<times> u64" where
  "GetStatistics h = (sph_packets h, retransmissions h, losses h)"

definition GetAlarmTimeout :: "'c sentPacketHandler \<Rightarrow> Time option" where
  "GetAlarmTimeout h = sph_alarm h"

subsection \<open>The invariant\<close>

text \<open>
  The tracked packets ascend and were sent, their times are known, and \<open>bytesInFlight\<close> is the sum of
  their lengths.
\<close>

definition sph_inv :: "'c sentPacketHandler \<Rightarrow> bool" where
  "sph_inv h \<longleftrightarrow>
     sorted_wrt (<) (map pkt_PacketNumber (sph_packetHistory h))
     \<and> (\<forall>p \<in> set (sph_packetHistory h). 0 < pkt_PacketNumber p \<and> pkt_PacketNumber p \<le> sph_lastSentPacketNumber h
          \<and> pkt_SendTime p \<noteq> None \<and> pkt_Frames p \<noteq> [])
     \<and> bytesInFlight h = sum_list (map pkt_Length (sph_packetHistory h))
     \<and> (sph_packetHistory h \<noteq> [] \<longrightarrow> lastSentTime h \<noteq> None)"

text \<open>What the operations that drop a tracked packet have in common.\<close>

definition drops :: "Packet list \<Rightarrow> 'c sentPacketHandler \<Rightarrow> 'c sentPacketHandler \<Rightarrow> bool" where
  "drops ps h h' \<longleftrightarrow>
     sph_packetHistory h' = filter (\<lambda>p. p \<notin> set ps) (sph_packetHistory h)
     \<and> sph_lastSentPacketNumber h' = sph_lastSentPacketNumber h \<and> lastSentTime h' = lastSentTime h
     \<and> bytesInFlight h' = bytesInFlight h - sum_list (map pkt_Length ps)"

lemma sph_inv_distinct: "sph_inv h \<Longrightarrow> distinct (sph_packetHistory h)"
  by (simp add: sph_inv_def strict_sorted_iff distinct_map)

lemma sum_list_partition:
  fixes f :: "'a \<Rightarrow> u64"
  assumes "distinct xs" "distinct ps" "set ps \<subseteq> set xs"
  shows "sum_list (map f (filter (\<lambda>p. p \<notin> set ps) xs)) = sum_list (map f xs) - sum_list (map f ps)"
proof -
  have "sum_list (map f xs) = sum f (set xs)" "sum_list (map f ps) = sum f (set ps)"
    "sum_list (map f (filter (\<lambda>p. p \<notin> set ps) xs)) = sum f (set xs - set ps)"
    using assms by (simp_all add: sum_list_distinct_conv_sum_set set_diff_eq)
  then show ?thesis using sum.subset_diff [of "set ps" "set xs" f] assms(3) by simp
qed

lemma drops_inv:
  assumes "sph_inv h" "drops ps h h'" "distinct ps" "set ps \<subseteq> set (sph_packetHistory h)"
  shows "sph_inv h'"
  using assms sum_list_partition [OF sph_inv_distinct [OF assms(1)] assms(3,4), of pkt_Length]
  by (auto simp: sph_inv_def drops_def sorted_wrt_map sorted_wrt_filter)

lemma drops_Nil [simp]: "drops [] h h"
  by (simp add: drops_def)

lemma drops_trans: "drops ps h h' \<Longrightarrow> drops qs h' h'' \<Longrightarrow> drops (ps @ qs) h h''"
  by (auto simp: drops_def intro: filter_cong)

lemma drops_frame:
  assumes "drops ps h h'" "sph_packetHistory h'' = sph_packetHistory h'" "bytesInFlight h'' = bytesInFlight h'"
    "sph_lastSentPacketNumber h'' = sph_lastSentPacketNumber h'" "lastSentTime h'' = lastSentTime h'"
  shows "drops ps h h''"
  using assms by (simp add: drops_def)

lemma drops_one:
  assumes "distinct (sph_packetHistory h)" "sph_packetHistory h' = remove1 p (sph_packetHistory h)"
    "bytesInFlight h' = bytesInFlight h - pkt_Length p" "sph_lastSentPacketNumber h' = sph_lastSentPacketNumber h"
    "lastSentTime h' = lastSentTime h"
  shows "drops [p] h h'"
  using assms by (simp add: drops_def distinct_remove1_removeAll removeAll_filter_not_eq) (metis (mono_tags))

lemma ack_packet_drops: "distinct (sph_packetHistory h) \<Longrightarrow> drops [p] h (ack_packet cc now p h)"
  by (rule drops_one) (simp_all add: ack_packet_def onPacketAcked_def)

lemma lose_packet_drops: "distinct (sph_packetHistory h) \<Longrightarrow> drops [p] h (lose_packet cc p h)"
  by (rule drops_one) (simp_all add: lose_packet_def queuePacketForRetransmission_def)

lemma queueRTO_drops: "distinct (sph_packetHistory h) \<Longrightarrow> drops [p] h (queueRTO cc p h)"
  by (rule drops_one) (simp_all add: queueRTO_def count_losses_def queuePacketForRetransmission_def)

lemma retransmitTLP_drops:
  "distinct (sph_packetHistory h) \<Longrightarrow> sph_packetHistory h \<noteq> [] \<Longrightarrow>
   drops [last (sph_packetHistory h)] h (retransmitTLP h)"
  by (rule drops_one) (simp_all add: retransmitTLP_def queuePacketForRetransmission_def)

lemma drops_distinct: "drops ps h h' \<Longrightarrow> distinct (sph_packetHistory h) \<Longrightarrow> distinct (sph_packetHistory h')"
  by (simp add: drops_def)

lemma fold_drops:
  assumes "\<And>p h. distinct (sph_packetHistory h) \<Longrightarrow> drops [p] h (f p h)" "distinct (sph_packetHistory h)"
  shows "drops ps h (fold f ps h)"
  using assms(2)
proof (induction ps arbitrary: h)
  case (Cons p ps)
  from drops_trans [OF assms(1) [OF Cons.prems] Cons.IH [OF drops_distinct [OF assms(1) Cons.prems]]] Cons.prems
  show ?case by simp
qed simp

subsection \<open>Newly acknowledged packets\<close>

lemma newly_acked_subset:
  "newly_acked lo la rs ps = Inr acked \<Longrightarrow> set acked \<subseteq> set ps \<and> (distinct ps \<longrightarrow> distinct acked)"
proof (induction ps arbitrary: rs acked)
  case (Cons p ps)
  then show ?case
    by (auto simp: Let_def bindE_eq_Inr split: if_splits) blast+
qed simp

text \<open>Ranges in ascending order.\<close>

definition asc_ranges :: "AckRange list \<Rightarrow> bool" where
  "asc_ranges rs \<longleftrightarrow> sorted_wrt (\<lambda>a b. Last a < First b) rs \<and> (\<forall>a \<in> set rs. First a \<le> Last a)"

lemma advance_range_keeps:
  "rs \<noteq> [] \<Longrightarrow> asc_ranges rs \<Longrightarrow>
   advance_range n rs \<noteq> [] \<and> asc_ranges (advance_range n rs) \<and> last (advance_range n rs) = last rs
   \<and> (\<forall>m \<ge> n. in_some_range m (advance_range n rs) = in_some_range m rs)
   \<and> (n \<le> Last (last rs) \<longrightarrow> n \<le> Last (hd (advance_range n rs)))"
  by (induction n rs rule: advance_range.induct) (auto simp: asc_ranges_def)

lemma asc_ranges_hd:
  assumes "asc_ranges (r # rs)" "n \<le> Last r"
  shows "in_some_range n (r # rs) \<longleftrightarrow> First r \<le> n"
proof -
  have "n < First b" if "b \<in> set rs" for b
    using assms that by (auto simp: asc_ranges_def intro: order.strict_trans1)
  then show ?thesis using assms(2) by (auto simp: in_some_range_iff dest: leD)
qed

lemma newly_acked_filter:
  assumes "asc_ranges rs" "rs \<noteq> [] \<longrightarrow> Last (last rs) = la" "sorted_wrt (<) (map pkt_PacketNumber ps)"
  shows "newly_acked lo la rs ps =
    Inr (filter (\<lambda>p. lo \<le> pkt_PacketNumber p \<and> pkt_PacketNumber p \<le> la
           \<and> (rs = [] \<or> in_some_range (pkt_PacketNumber p) rs)) ps)"
  using assms
proof (induction ps arbitrary: rs)
  case (Cons p ps)
  let ?n = "pkt_PacketNumber p"
  have later: "\<forall>q \<in> set ps. ?n < pkt_PacketNumber q" using Cons.prems(3) by simp
  show ?case
  proof (cases "?n < lo \<or> ?n > la \<or> rs = []")
    case True
    have ih: "newly_acked lo la rs ps = Inr (filter (\<lambda>p. lo \<le> pkt_PacketNumber p \<and> pkt_PacketNumber p \<le> la
           \<and> (rs = [] \<or> in_some_range (pkt_PacketNumber p) rs)) ps)"
      using Cons.prems by (intro Cons.IH) auto
    consider "?n < lo" | "\<not> ?n < lo" "?n > la" | "\<not> ?n < lo" "\<not> ?n > la" "rs = []" using True by blast
    then show ?thesis
    proof cases
      case 2
      then have "\<not> pkt_PacketNumber q \<le> la" if "q \<in> set ps" for q
        using later that by (meson leD less_trans)
      with 2 show ?thesis by (auto simp: filter_empty_conv)
    qed (use ih in \<open>auto simp: Let_def bindE_def not_less\<close>)
  next
    case False
    let ?rs = "advance_range ?n rs"
    have k: "?rs \<noteq> []" "asc_ranges ?rs" "last ?rs = last rs" "\<forall>m \<ge> ?n. in_some_range m ?rs = in_some_range m rs"
      "?n \<le> Last (hd ?rs)"
      using advance_range_keeps [of rs ?n] False Cons.prems(1,2) by (simp_all add: not_less)
    have h: "in_some_range ?n rs \<longleftrightarrow> First (hd ?rs) \<le> ?n"
      using asc_ranges_hd [of "hd ?rs" "tl ?rs" ?n] k by simp
    have ih: "newly_acked lo la ?rs ps =
        Inr (filter (\<lambda>p. lo \<le> pkt_PacketNumber p \<and> pkt_PacketNumber p \<le> la \<and> in_some_range (pkt_PacketNumber p) rs) ps)"
    proof -
      have "newly_acked lo la ?rs ps =
          Inr (filter (\<lambda>p. lo \<le> pkt_PacketNumber p \<and> pkt_PacketNumber p \<le> la \<and> in_some_range (pkt_PacketNumber p) ?rs) ps)"
        using Cons.IH [of ?rs] Cons.prems k(1-3) False by simp
      moreover have "in_some_range (pkt_PacketNumber q) ?rs = in_some_range (pkt_PacketNumber q) rs" if "q \<in> set ps" for q
        using k(4) later that by (meson order.strict_implies_order)
      ultimately show ?thesis by (simp cong: filter_cong)
    qed
    have "\<not> ?n < lo" "\<not> la < ?n" "rs \<noteq> []" "\<not> Last (hd ?rs) < ?n" using False k(5) by auto
    then show ?thesis using h by (simp add: Let_def ih bindE_def) (simp add: not_less)
  qed
qed simp

text \<open>The ranges of a parsed frame, read backwards, ascend.\<close>

lemma sorted_ranges_asc: "sorted_ranges r0 rs \<Longrightarrow> asc_ranges (rev (r0 # rs))"
proof (induction rs arbitrary: r0)
  case (Cons a rs)
  have s: "sorted_ranges a rs" "Last a < First r0" "First r0 \<le> Last r0"
    using Cons.prems by (auto simp: word_less_nat_alt)
  have "Last x < First r0" if "x \<in> set (a # rs)" for x
    using sorted_ranges_first [OF s(1) that] s(2) by (meson order.strict_trans1)
  with Cons.IH [OF s(1)] s(3) show ?case by (simp add: asc_ranges_def sorted_wrt_append)
qed (simp add: asc_ranges_def)

subsection \<open>Calls of the congestion controller\<close>

definition calls :: "'c SendAlgorithm \<Rightarrow> nat \<Rightarrow> 'c sentPacketHandler \<Rightarrow> 'c sentPacketHandler \<Rightarrow> bool" where
  "calls cc n h h' \<longleftrightarrow> (\<exists>es. length es \<le> n \<and> congestion h' = cc_run cc es (congestion h))"

lemma calls_none: "congestion h' = congestion h \<Longrightarrow> calls cc n h h'"
  by (auto simp: calls_def cc_run_def intro: exI [of _ "[]"])

lemma calls_one: "congestion h' = cc_call cc e (congestion h) \<Longrightarrow> 0 < n \<Longrightarrow> calls cc n h h'"
  by (auto simp: calls_def cc_run_def intro: exI [of _ "[e]"])

lemma calls_trans:
  assumes "calls cc m h h'" "calls cc n h' h''"
  shows "calls cc (m + n) h h''"
proof -
  obtain es es' where "length es \<le> m" "congestion h' = cc_run cc es (congestion h)"
    "length es' \<le> n" "congestion h'' = cc_run cc es' (congestion h')"
    using assms by (auto simp: calls_def)
  then show ?thesis unfolding calls_def by (intro exI [of _ "es @ es'"]) (simp add: cc_run_def)
qed

lemma calls_frame: "calls cc n h h' \<Longrightarrow> congestion h'' = congestion h' \<Longrightarrow> n \<le> m \<Longrightarrow> calls cc m h h''"
  by (auto simp: calls_def intro: order.trans)

lemma fold_calls: "(\<And>p h. calls cc 1 h (f p h)) \<Longrightarrow> calls cc (length ps) h (fold f ps h)"
proof (induction ps arbitrary: h)
  case (Cons p ps)
  from calls_trans [OF Cons.prems Cons.IH [OF Cons.prems], of h p] show ?case by simp
qed (simp add: calls_none)

lemma ack_packet_calls: "calls cc 1 h (ack_packet cc now p h)"
  by (rule calls_one [of _ cc "CCAcked now (sph_rttStats h) (pkt_PacketNumber p) (pkt_Length p) (bytesInFlight h - pkt_Length p)"])
    (simp_all add: ack_packet_def onPacketAcked_def)

lemma lose_packet_calls: "calls cc 1 h (lose_packet cc p h)"
  by (rule calls_one [of _ cc "CCLost (pkt_PacketNumber p) (pkt_Length p) (bytesInFlight h - pkt_Length p)"])
    (simp_all add: lose_packet_def queuePacketForRetransmission_def)

lemma queueRTO_calls: "calls cc 1 h (queueRTO cc p h)"
  by (rule calls_one [of _ cc "CCLost (pkt_PacketNumber p) (pkt_Length p) (bytesInFlight h - pkt_Length p)"])
    (simp_all add: queueRTO_def count_losses_def queuePacketForRetransmission_def)

lemma lose_packets_calls: "calls cc (length ps) h (fold (lose_packet cc) ps (count_losses qs (h\<lparr>lossTime := t\<rparr>)))"
  using fold_calls [OF lose_packet_calls, where cc = cc and ps = ps and h = "count_losses qs (h\<lparr>lossTime := t\<rparr>)"]
  by (simp add: calls_def count_losses_def)

lemma timeout_calls: "calls cc 1 h (h\<lparr>congestion := cc_OnRetransmissionTimeout cc b (congestion h)\<rparr>)"
  by (rule calls_one [of _ cc "CCTimeout b"]) simp_all

subsection \<open>Packets that move to the retransmission queue\<close>

definition requeues :: "Packet list \<Rightarrow> 'c sentPacketHandler \<Rightarrow> 'c sentPacketHandler \<Rightarrow> bool" where
  "requeues ps h h' \<longleftrightarrow>
     drops ps h h' \<and> retransmissionQueue h' = retransmissionQueue h @ ps
     \<and> distinct ps \<and> set ps \<subseteq> set (sph_packetHistory h)"

lemma requeues_inv: "requeues ps h h' \<Longrightarrow> sph_inv h \<Longrightarrow> sph_inv h'"
  by (auto simp: requeues_def intro: drops_inv)

lemma requeues_frame:
  assumes "requeues ps h h'" "sph_packetHistory h'' = sph_packetHistory h'" "bytesInFlight h'' = bytesInFlight h'"
    "sph_lastSentPacketNumber h'' = sph_lastSentPacketNumber h'" "lastSentTime h'' = lastSentTime h'"
    "retransmissionQueue h'' = retransmissionQueue h'"
  shows "requeues ps h h''"
  using assms by (auto simp: requeues_def intro: drops_frame)

lemma fold_queue:
  assumes "\<And>p h. retransmissionQueue (f p h) = retransmissionQueue h @ [p]"
  shows "retransmissionQueue (fold f ps h) = retransmissionQueue h @ ps"
  by (induction ps arbitrary: h) (simp_all add: assms)

lemma lose_packets_requeue:
  assumes "distinct (sph_packetHistory h)" "distinct ps" "set ps \<subseteq> set (sph_packetHistory h)"
  shows "requeues ps h (fold (lose_packet cc) ps (count_losses qs h))"
proof -
  have "drops ps (count_losses qs h) (fold (lose_packet cc) ps (count_losses qs h))"
    using assms(1) by (intro fold_drops lose_packet_drops) (simp_all add: count_losses_def)
  moreover have "retransmissionQueue (fold (lose_packet cc) ps (count_losses qs h)) = retransmissionQueue h @ ps"
    by (subst fold_queue) (simp_all add: lose_packet_def queuePacketForRetransmission_def count_losses_def)
  ultimately show ?thesis using assms(2,3) by (simp add: requeues_def drops_def count_losses_def)
qed

lemma detect_loop_lost:
  "fst (detect_loop la now d t ps) =
     filter (\<lambda>p. time_Since now (pkt_SendTime p) > d) (takeWhile (\<lambda>p. \<not> pkt_PacketNumber p > la) ps)"
  by (induction la now d t ps rule: detect_loop.induct) (auto simp: Let_def split: prod.splits)

lemma detectLostPackets_requeues:
  assumes "distinct (sph_packetHistory h)"
  shows "\<exists>lost. requeues lost h (detectLostPackets cc now h) \<and> calls cc (length lost) h (detectLostPackets cc now h)
    \<and> (\<forall>p \<in> set lost. pkt_PacketNumber p \<le> LargestAcked h)"
proof -
  define d where "d = wrap64 (go_trunc (f64 (9 / 8 *
      f64 (of_int (max (latestRTT (sph_rttStats h)) (smoothedRTT (sph_rttStats h)))))))"
  obtain lost t where l: "detect_loop (LargestAcked h) now d None (sph_packetHistory h) = (lost, t)" by fastforce
  then have h': "detectLostPackets cc now h = fold (lose_packet cc) lost (count_losses lost (h\<lparr>lossTime := t\<rparr>))"
    by (simp add: detectLostPackets_def Let_def d_def)
  have e: "lost = filter (\<lambda>p. time_Since now (pkt_SendTime p) > d)
      (takeWhile (\<lambda>p. \<not> pkt_PacketNumber p > LargestAcked h) (sph_packetHistory h))"
    using detect_loop_lost [of "LargestAcked h" now d None "sph_packetHistory h"] l by simp
  have "requeues lost (h\<lparr>lossTime := t\<rparr>) (detectLostPackets cc now h)"
    unfolding h' using assms by (intro lose_packets_requeue) (auto simp: e dest: set_takeWhileD)
  moreover have "calls cc (length lost) h (detectLostPackets cc now h)" unfolding h' by (rule lose_packets_calls)
  moreover have "\<forall>p \<in> set lost. pkt_PacketNumber p \<le> LargestAcked h" by (auto simp: e dest: set_takeWhileD)
  ultimately show ?thesis by (auto simp: requeues_def drops_def)
qed

lemma SetInflightAsLost_requeues:
  "distinct (sph_packetHistory h) \<Longrightarrow>
   requeues (takeWhile (\<lambda>p. \<not> pkt_PacketNumber p > LargestAcked h) (sph_packetHistory h)) h (SetInflightAsLost cc h)"
  unfolding SetInflightAsLost_def Let_def by (intro lose_packets_requeue) (auto dest: set_takeWhileD)

lemma SetInflightAsLost_calls: "calls cc (length (sph_packetHistory h)) h (SetInflightAsLost cc h)"
proof -
  let ?lost = "takeWhile (\<lambda>p. \<not> pkt_PacketNumber p > LargestAcked h) (sph_packetHistory h)"
  have "calls cc (length ?lost) h (SetInflightAsLost cc h)"
    using lose_packets_calls [of cc ?lost h ?lost "lossTime h"] by (simp add: SetInflightAsLost_def Let_def)
  then show ?thesis by (rule calls_frame) (simp_all add: length_takeWhile_le)
qed

lemma queueRTO_requeues:
  "distinct (sph_packetHistory h) \<Longrightarrow> p \<in> set (sph_packetHistory h) \<Longrightarrow> requeues [p] h (queueRTO cc p h)"
  using queueRTO_drops [of h p cc]
  by (simp add: requeues_def queueRTO_def count_losses_def queuePacketForRetransmission_def)

lemma requeues_trans:
  "requeues ps h h' \<Longrightarrow> requeues qs h' h'' \<Longrightarrow> requeues (ps @ qs) h h''"
  by (auto simp: requeues_def intro: drops_trans) (auto simp: drops_def)

lemma requeues_Nil [simp]: "requeues [] h h"
  by (simp add: requeues_def)

lemma retransmit_loop_requeues:
  "distinct (sph_packetHistory h) \<Longrightarrow> requeues (sph_packetHistory h) h (retransmit_loop cc h)"
proof (induction cc h rule: retransmit_loop.induct)
  case (1 cc h)
  show ?case
  proof (cases "sph_packetHistory h")
    case Nil
    then show ?thesis by (simp add: retransmit_loop.simps)
  next
    case (Cons p ps)
    have "requeues (sph_packetHistory (queueRTO cc p h)) (queueRTO cc p h) (retransmit_loop cc (queueRTO cc p h))"
      using "1.IH" [OF Cons] "1.prems" by simp
    from requeues_trans [OF queueRTO_requeues this] show ?thesis
      using Cons "1.prems" by (simp add: retransmit_loop.simps [of cc h])
  qed
qed

lemma retransmit_loop_calls: "calls cc (length (sph_packetHistory h)) h (retransmit_loop cc h)"
proof (induction cc h rule: retransmit_loop.induct)
  case (1 cc h)
  show ?case
  proof (cases "sph_packetHistory h")
    case Nil
    then show ?thesis by (simp add: retransmit_loop.simps calls_none)
  next
    case (Cons p ps)
    from calls_trans [OF queueRTO_calls "1" [OF Cons]] show ?thesis
      using Cons by (simp add: retransmit_loop.simps [of cc h])
  qed
qed

lemma retransmitOldestPacket_calls:
  "calls cc (length (sph_packetHistory h) - length (sph_packetHistory (retransmitOldestPacket cc h))) h (retransmitOldestPacket cc h)"
  using queueRTO_calls [of cc h] by (auto simp: retransmitOldestPacket_def calls_none split: list.splits)

lemma oldest_two_requeues:
  assumes "distinct (sph_packetHistory h)"
  shows "requeues (take 2 (sph_packetHistory h)) h (retransmitOldestTwoPackets cc h)"
proof -
  have one: "requeues (take 1 (sph_packetHistory g)) g (retransmitOldestPacket cc g)"
    if "distinct (sph_packetHistory g)" for g :: "'a sentPacketHandler"
    using that queueRTO_requeues [of g] by (auto simp: retransmitOldestPacket_def split: list.splits)
  have "sph_packetHistory (retransmitOldestPacket cc h) = drop 1 (sph_packetHistory h)"
    by (simp add: retransmitOldestPacket_def split: list.splits)
  then have "requeues (take 1 (sph_packetHistory h) @ take 1 (drop 1 (sph_packetHistory h))) h
      (retransmitOldestPacket cc (retransmitOldestPacket cc h))"
    using requeues_trans [OF one [OF assms] one [of "retransmitOldestPacket cc h"]] assms by simp
  moreover have "take 1 (sph_packetHistory h) @ take 1 (drop 1 (sph_packetHistory h)) = take 2 (sph_packetHistory h)"
    by (simp flip: take_add add: numeral_2_eq_2)
  ultimately have r: "requeues (take 2 (sph_packetHistory h)) h (retransmitOldestPacket cc (retransmitOldestPacket cc h))"
    by simp
  show ?thesis by (rule requeues_frame [OF r]) (simp_all add: retransmitOldestTwoPackets_def Let_def)
qed

subsection \<open>Acknowledged and lost packets\<close>

definition settles :: "Packet list \<Rightarrow> Packet list \<Rightarrow> 'c sentPacketHandler \<Rightarrow> 'c sentPacketHandler \<Rightarrow> bool" where
  "settles acked lost h h' \<longleftrightarrow>
     drops (acked @ lost) h h' \<and> retransmissionQueue h' = retransmissionQueue h @ lost
     \<and> distinct (acked @ lost) \<and> set (acked @ lost) \<subseteq> set (sph_packetHistory h)"

lemma settles_inv: "settles acked lost h h' \<Longrightarrow> sph_inv h \<Longrightarrow> sph_inv h'"
  by (meson drops_inv settles_def)

lemma requeues_settles: "requeues lost h h' \<Longrightarrow> settles [] lost h h'"
  by (simp add: requeues_def settles_def)

lemma settles_requeues: "settles acked [] h g \<Longrightarrow> requeues lost g h' \<Longrightarrow> settles acked lost h h'"
  by (auto simp: settles_def requeues_def intro: drops_trans) (auto simp: drops_def)

lemma settles_mset:
  assumes "settles acked lost h h'" "distinct (sph_packetHistory h)"
  shows "mset (sph_packetHistory h') + mset acked + mset lost = mset (sph_packetHistory h)"
proof -
  have "mset (acked @ lost) = mset (filter (\<lambda>p. p \<in> set (acked @ lost)) (sph_packetHistory h))"
    using assms by (subst set_eq_iff_mset_eq_distinct [symmetric]) (auto simp: settles_def)
  then have "mset (sph_packetHistory h') + mset (acked @ lost) = mset (sph_packetHistory h)"
    using assms by (auto simp: settles_def drops_def mset_filter intro!: multiset_eqI)
  then show ?thesis by (simp add: add.assoc)
qed

lemma fold_ack_settles:
  assumes "distinct (sph_packetHistory h)" "distinct acked" "set acked \<subseteq> set (sph_packetHistory h)"
  shows "settles acked [] h (fold (ack_packet cc now) acked h)"
proof -
  have "retransmissionQueue (fold (ack_packet cc now) acked g) = retransmissionQueue g" for g :: "'a sentPacketHandler"
    by (induction acked arbitrary: g) (simp_all add: ack_packet_def onPacketAcked_def)
  then show ?thesis using assms fold_drops [of "ack_packet cc now" h acked, OF ack_packet_drops] by (simp add: settles_def)
qed

lemma fold_ack_LargestAcked: "LargestAcked (fold (ack_packet cc now) acked h) = LargestAcked h"
  by (induction acked arbitrary: h) (simp_all add: ack_packet_def onPacketAcked_def)

lemma alarm_fields [simp]:
  "sph_packetHistory (updateLossDetectionAlarm cc h) = sph_packetHistory h"
  "bytesInFlight (updateLossDetectionAlarm cc h) = bytesInFlight h"
  "sph_lastSentPacketNumber (updateLossDetectionAlarm cc h) = sph_lastSentPacketNumber h"
  "lastSentTime (updateLossDetectionAlarm cc h) = lastSentTime h"
  "retransmissionQueue (updateLossDetectionAlarm cc h) = retransmissionQueue h"
  "congestion (updateLossDetectionAlarm cc h) = congestion h"
  by (simp_all add: updateLossDetectionAlarm_def)

lemma maybeUpdateRTT_fields:
  "maybeUpdateRTT la d t now h = (b, h') \<Longrightarrow> \<exists>r. h' = h\<lparr>sph_rttStats := r\<rparr>"
  by (auto simp: maybeUpdateRTT_def split: option.splits) (metis sentPacketHandler.surjective sentPacketHandler.update_convs(11))

text \<open>What a call of \<open>ReceivedAck\<close> does to the tracked packets.\<close>

lemma ReceivedAck_effect:
  assumes "distinct (sph_packetHistory h)" "ReceivedAck cc now ack n t h = (e, h')"
  shows "\<exists>acked lost. settles acked lost h h' \<and> calls cc (1 + (length acked + length lost)) h h'
    \<and> (\<forall>p \<in> set lost. pkt_PacketNumber p \<le> ack_LargestAcked ack)
    \<and> (e = None \<longrightarrow> (if ack_LargestAcked ack \<le> largestInOrderAcked h then acked = [] \<and> lost = []
                       else determineNewlyAckedPackets ack h = Inr acked))"
proof -
  have same: ?thesis if "requeues [] h h'" "calls cc 1 h h'"
    "e = None \<Longrightarrow> ack_LargestAcked ack \<le> largestInOrderAcked h"
    using that requeues_settles by fastforce
  let ?h1 = "h\<lparr>largestReceivedPacketWithAck := n\<rparr>"
  let ?h2 = "?h1\<lparr>LargestAcked := ack_LargestAcked ack\<rparr>"
  have l: "largestInOrderAcked ?h1 = largestInOrderAcked h" by (simp add: largestInOrderAcked_def split: list.splits)
  obtain b h3 where m: "maybeUpdateRTT (ack_LargestAcked ack) (ack_DelayTime ack) t now ?h2 = (b, h3)" by fastforce
  then obtain r where h3: "h3 = ?h2\<lparr>sph_rttStats := r\<rparr>" using maybeUpdateRTT_fields by blast
  define h4 where "h4 = (if b then h3\<lparr>congestion := cc_MaybeExitSlowStart cc (sph_rttStats h3) (congestion h3)\<rparr> else h3)"
  have h4: "requeues [] h h4" "sph_packetHistory h4 = sph_packetHistory h" "LargestAcked h4 = ack_LargestAcked ack"
    by (simp_all add: h4_def h3 requeues_def drops_def)
  have c4: "calls cc 1 h h4"
    by (cases b) (auto simp: h4_def h3 intro: calls_none calls_one [where e = "CCMaybeExit r"])
  have d: "determineNewlyAckedPackets ack h4 = determineNewlyAckedPackets ack h"
    by (simp add: determineNewlyAckedPackets_def h4(2))
  show ?thesis
  proof (cases "ack_LargestAcked ack > sph_lastSentPacketNumber h \<or> n \<le> largestReceivedPacketWithAck h
      \<or> ack_LargestAcked ack \<le> largestInOrderAcked h \<or> skippedPacketsAcked ack ?h2")
    case True
    then show ?thesis using assms(2) l by (intro same) (auto simp: ReceivedAck_def Let_def requeues_def drops_def calls_none split: if_splits)
  next
    case False
    show ?thesis
    proof (cases "determineNewlyAckedPackets ack h")
      case (Inl err)
      then have "e = Some err" "h' = h4"
        using False assms(2) l m d by (auto simp: ReceivedAck_def Let_def h4_def)
      then show ?thesis using h4(1) c4 by (intro same) auto
    next
      case (Inr acked)
      let ?h5 = "fold (ack_packet cc now) acked h4"
      have a: "distinct acked" "set acked \<subseteq> set (sph_packetHistory h4)"
        using newly_acked_subset Inr assms(1) by (force simp: determineNewlyAckedPackets_def h4(2))+
      have s5: "settles acked [] h4 ?h5" using assms(1) a by (intro fold_ack_settles) (simp_all add: h4(2))
      then have "distinct (sph_packetHistory ?h5)" using assms(1) h4(2) by (auto simp: settles_def dest: drops_distinct)
      then obtain lost where lost: "requeues lost ?h5 (detectLostPackets cc now ?h5)"
        "calls cc (length lost) ?h5 (detectLostPackets cc now ?h5)" "\<forall>p \<in> set lost. pkt_PacketNumber p \<le> ack_LargestAcked ack"
        using detectLostPackets_requeues [of ?h5 cc now] by (auto simp: fold_ack_LargestAcked h4(3))
      have h': "e = None \<and> h' = (let g = garbageCollectSkippedPackets (updateLossDetectionAlarm cc (detectLostPackets cc now ?h5))
          in g\<lparr>sph_stopWaitingManager := swm_ReceivedAck ack (sph_stopWaitingManager g)\<rparr>)"
        using False assms(2) l m d Inr by (auto simp: ReceivedAck_def Let_def h4_def [symmetric])
      have e: "requeues lost ?h5 h'" "calls cc (length lost) ?h5 h'"
        using requeues_frame [OF lost(1), of h'] calls_frame [OF lost(2), of h'] h'
        by (auto simp: Let_def garbageCollectSkippedPackets_def)
      have "calls cc (1 + (length acked + length lost)) h h'"
        using calls_trans [OF c4 calls_trans [OF fold_calls [OF ack_packet_calls] e(2)]] .
      moreover
      have "settles acked [] h ?h5" using s5 h4(1,2) by (simp add: settles_def requeues_def drops_def)
      ultimately show ?thesis using settles_requeues [OF _ e(1)] lost(3) Inr False h' by auto
    qed
  qed
qed

lemma ReceivedClosePath_effect:
  assumes "distinct (sph_packetHistory h)" "ReceivedClosePath cc now f n h = (e, h')"
  shows "(\<exists>acked lost. settles acked lost h h') \<and> sph_alarm h' = sph_alarm h \<and> calls cc (length (sph_packetHistory h)) h h'"
proof -
  have alarm [simp]: "sph_alarm (fold (ack_packet cc now) acked g) = sph_alarm g"
    "sph_alarm (fold (lose_packet cc) acked g) = sph_alarm g" for acked and g :: "'a sentPacketHandler"
    by (induction acked arbitrary: g)
      (simp_all add: ack_packet_def onPacketAcked_def lose_packet_def queuePacketForRetransmission_def)
  let ?h1 = "h\<lparr>largestReceivedPacketWithAck := n\<rparr>"
  have d: "determineNewlyAckedPacketsClosePath f ?h1 = determineNewlyAckedPacketsClosePath f h"
    by (simp add: determineNewlyAckedPacketsClosePath_def)
  show ?thesis
  proof (cases "e = None")
    case False
    then have "settles [] [] h h'" "sph_alarm h' = sph_alarm h" "congestion h' = congestion h" using assms(2)
      by (auto simp: ReceivedClosePath_def Let_def settles_def drops_def split: if_splits sum.splits)
    then show ?thesis using calls_none by blast
  next
    case True
    then obtain acked where acked: "determineNewlyAckedPacketsClosePath f h = Inr acked"
      and h': "h' = garbageCollectSkippedPackets (SetInflightAsLost cc (fold (ack_packet cc now) acked ?h1))"
      using assms(2) d by (auto simp: ReceivedClosePath_def Let_def split: if_splits sum.splits)
    let ?h2 = "fold (ack_packet cc now) acked ?h1"
    have "distinct acked" "set acked \<subseteq> set (sph_packetHistory h)"
      using newly_acked_subset acked assms(1) by (force simp: determineNewlyAckedPacketsClosePath_def)+
    then have s: "settles acked [] ?h1 ?h2" using assms(1) by (intro fold_ack_settles) simp_all
    then have "distinct (sph_packetHistory ?h2)" using assms(1) by (auto simp: settles_def drops_def)
    from SetInflightAsLost_requeues [OF this, of cc] obtain lost where "requeues lost ?h2 (SetInflightAsLost cc ?h2)"
      by blast
    then have "requeues lost ?h2 h'" by (rule requeues_frame) (simp_all add: h' garbageCollectSkippedPackets_def)
    moreover have "settles acked [] h ?h2" using s by (simp add: settles_def drops_def)
    moreover have "calls cc (length (sph_packetHistory h)) h h'"
    proof -
      have "calls cc (length acked + length (sph_packetHistory ?h2)) ?h1 (SetInflightAsLost cc ?h2)"
        using calls_trans [OF fold_calls [OF ack_packet_calls] SetInflightAsLost_calls] .
      moreover have "length acked + length (sph_packetHistory ?h2) = length (sph_packetHistory h)"
        using arg_cong [OF settles_mset [OF s], of size] assms(1) by simp
      ultimately show ?thesis by (simp add: h' calls_def garbageCollectSkippedPackets_def)
    qed
    ultimately show ?thesis
      using settles_requeues by (force simp: h' garbageCollectSkippedPackets_def SetInflightAsLost_def count_losses_def Let_def)
  qed
qed

lemma SentPacket_inv:
  assumes "sph_inv h" "SentPacket cc now packet h = (e, h')"
  shows "sph_inv h'"
proof (cases "e = None")
  case False
  then show ?thesis using assms by (auto simp: SentPacket_def Let_def sph_inv_def split: if_splits)
next
  case True
  have l: "pkt_PacketNumber p < pkt_PacketNumber packet" if "p \<in> set (sph_packetHistory h)"
    "sph_lastSentPacketNumber h < pkt_PacketNumber packet" for p
    using assms(1) that by (auto simp: sph_inv_def intro: order.strict_trans1)
  have "sph_lastSentPacketNumber h < pkt_PacketNumber packet"
    using assms(2) True by (auto simp: SentPacket_def not_le split: if_splits)
  moreover from this have "0 < pkt_PacketNumber packet" by (metis word_gt_0 word_zero_le not_less)
  moreover note l' = l [OF _ calculation(1)] order.strict_implies_order [OF l [OF _ calculation(1)]]
  ultimately show ?thesis using assms True
    by (auto simp: SentPacket_def Let_def sph_inv_def sorted_wrt_append split: if_splits intro: l')
qed

text \<open>What the alarm moves to the retransmission queue when no early loss is pending.\<close>

definition alarm_packets :: "(Time option \<Rightarrow> bool) option \<Rightarrow> 'c sentPacketHandler \<Rightarrow> Packet list" where
  "alarm_packets cb h =
     (if tlpCount h < maxTailLossProbes then [last (sph_packetHistory h)]
      else if (case cb of None \<Rightarrow> False | Some f \<Rightarrow> f (lastSentTime h)) then sph_packetHistory h
      else take 2 (sph_packetHistory h))"

lemma retransmitTLP_requeues:
  "distinct (sph_packetHistory h) \<Longrightarrow> sph_packetHistory h \<noteq> [] \<Longrightarrow>
   requeues [last (sph_packetHistory h)] h (retransmitTLP h)"
  using retransmitTLP_drops [of h] by (simp add: requeues_def retransmitTLP_def queuePacketForRetransmission_def)

lemma OnAlarm_requeues:
  assumes "distinct (sph_packetHistory h)" "hasOutstandingRetransmittablePacket h" "lossTime h = None"
  shows "requeues (alarm_packets cb h) h (OnAlarm cc now cb h)"
proof -
  have ne: "sph_packetHistory h \<noteq> []" using assms(2) by (auto simp: hasOutstandingRetransmittablePacket_def)
  consider "tlpCount h < maxTailLossProbes" | "\<not> tlpCount h < maxTailLossProbes" "case cb of None \<Rightarrow> False | Some f \<Rightarrow> f (lastSentTime h)"
    | "\<not> tlpCount h < maxTailLossProbes" "\<not> (case cb of None \<Rightarrow> False | Some f \<Rightarrow> f (lastSentTime h))" by blast
  then show ?thesis
  proof cases
    case 1
    from retransmitTLP_requeues [OF assms(1) ne] 1 assms(2,3) show ?thesis
      by (auto simp: OnAlarm_def Let_def alarm_packets_def elim!: requeues_frame)
  next
    case 2
    from retransmit_loop_requeues [OF assms(1), of cc] 2 assms(2,3) show ?thesis
      by (auto simp: OnAlarm_def Let_def alarm_packets_def retransmitAllPackets_def elim!: requeues_frame)
  next
    case 3
    from oldest_two_requeues [OF assms(1), of cc] 3 assms(2,3) show ?thesis
      by (auto simp: OnAlarm_def Let_def alarm_packets_def elim!: requeues_frame)
  qed
qed

lemma OnAlarm_effect:
  assumes "distinct (sph_packetHistory h)"
  shows "\<exists>lost. requeues lost h (OnAlarm cc now cb h)"
proof (cases "hasOutstandingRetransmittablePacket h \<and> lossTime h \<noteq> None")
  case True
  obtain lost where "requeues lost h (detectLostPackets cc now h)"
    using detectLostPackets_requeues [OF assms, of cc now] by blast
  then have "requeues lost h (OnAlarm cc now cb h)"
    by (rule requeues_frame) (use True in \<open>simp_all add: OnAlarm_def\<close>)
  then show ?thesis by blast
next
  case False
  show ?thesis
  proof (cases "hasOutstandingRetransmittablePacket h")
    case True
    with False show ?thesis using OnAlarm_requeues [OF assms] by blast
  next
    case none: False
    have "requeues [] h (OnAlarm cc now cb h)"
      by (rule requeues_frame [OF requeues_Nil]) (simp_all add: OnAlarm_def none)
    then show ?thesis by blast
  qed
qed

lemma requeues_length: "requeues lost h h' \<Longrightarrow> length lost \<le> length (sph_packetHistory h)"
  by (metis requeues_def card_length card_mono distinct_card finite_set order.trans)

lemma OnAlarm_calls:
  assumes "distinct (sph_packetHistory h)"
  shows "calls cc (1 + length (sph_packetHistory h)) h (OnAlarm cc now cb h)"
proof -
  let ?n = "1 + length (sph_packetHistory h)"
  obtain lost where lost: "requeues lost h (detectLostPackets cc now h)" "calls cc (length lost) h (detectLostPackets cc now h)"
    using detectLostPackets_requeues [OF assms, of cc now] by blast
  have d: "calls cc ?n h (detectLostPackets cc now h)"
    by (rule calls_frame [OF lost(2)]) (use requeues_length [OF lost(1)] in auto)
  have t: "calls cc ?n h (retransmitTLP h)"
    by (simp add: calls_none retransmitTLP_def queuePacketForRetransmission_def)
  have a: "calls cc ?n h (retransmitAllPackets cc h)"
    using calls_trans [OF retransmit_loop_calls [of cc h] timeout_calls [where b = True]] by (simp add: retransmitAllPackets_def Let_def)
  let ?g = "retransmitOldestPacket cc (retransmitOldestPacket cc h)"
  have len: "length (sph_packetHistory (retransmitOldestPacket cc g)) \<le> length (sph_packetHistory g)" for g :: "'a sentPacketHandler"
    by (auto simp: retransmitOldestPacket_def split: list.splits)
  have "calls cc (length (sph_packetHistory h)) h ?g"
    by (rule calls_frame [OF calls_trans [OF retransmitOldestPacket_calls retransmitOldestPacket_calls]])
      (use len [of h] len [of "retransmitOldestPacket cc h"] in auto)
  from calls_trans [OF this timeout_calls [where b = True]] have o: "calls cc ?n h (retransmitOldestTwoPackets cc h)"
    by (simp add: retransmitOldestTwoPackets_def Let_def)
  show ?thesis using d t a o by (auto simp: OnAlarm_def Let_def calls_def cc_run_def intro: exI [of _ "[]"])
qed

subsection \<open>Runs of the handler\<close>

inductive sph_step :: "'c SendAlgorithm \<Rightarrow> 'c sentPacketHandler \<Rightarrow> 'c sentPacketHandler \<Rightarrow> bool" for cc where
  step_sent: "SentPacket cc now packet h = (e, h') \<Longrightarrow> sph_step cc h h'"
| step_ack: "ReceivedAck cc now ack n rcvTime h = (e, h') \<Longrightarrow> sph_step cc h h'"
| step_closePath: "ReceivedClosePath cc now f n h = (e, h') \<Longrightarrow> sph_step cc h h'"
| step_inflight: "sph_step cc h (SetInflightAsLost cc h)"
| step_alarm: "sph_step cc h (OnAlarm cc now cb h)"
| step_dequeue: "DequeuePacketForRetransmission h = (packet, h') \<Longrightarrow> sph_step cc h h'"
| step_duplicate: "sph_step cc h (DuplicatePacket packet h)"
| step_stopWaiting: "GetStopWaitingFrame force h = (swf, h') \<Longrightarrow> sph_step cc h h'"

lemma sph_step_inv:
  assumes "sph_step cc h h'" "sph_inv h"
  shows "sph_inv h'"
  using assms(1)
proof cases
  case (step_sent now packet e)
  then show ?thesis using SentPacket_inv assms(2) by blast
next
  case (step_ack now ack n rcvTime e)
  then show ?thesis using ReceivedAck_effect settles_inv sph_inv_distinct assms(2) by metis
next
  case (step_closePath now f n e)
  then show ?thesis using ReceivedClosePath_effect settles_inv sph_inv_distinct assms(2) by metis
next
  case step_inflight
  then show ?thesis using SetInflightAsLost_requeues requeues_inv sph_inv_distinct assms(2) by metis
next
  case (step_alarm now cb)
  then show ?thesis using OnAlarm_effect requeues_inv sph_inv_distinct assms(2) by metis
qed (use assms(2) in \<open>auto simp: DequeuePacketForRetransmission_def DuplicatePacket_def GetStopWaitingFrame_def sph_inv_def
    split: list.splits prod.splits\<close>)

lemma settles_length: "settles acked lost h h' \<Longrightarrow> length (sph_packetHistory h') \<le> length (sph_packetHistory h)"
  by (simp add: settles_def drops_def)

lemma settles_total: "settles acked lost h h' \<Longrightarrow> length acked + length lost \<le> length (sph_packetHistory h)"
  unfolding settles_def by (metis card_length card_mono distinct_card finite_set length_append order.trans)

lemma requeues_less: "requeues lost h h' \<Longrightarrow> length (sph_packetHistory h') \<le> length (sph_packetHistory h)"
  by (simp add: requeues_def drops_def)

lemma sph_step_calls:
  assumes "sph_step cc h h'" "sph_inv h"
  shows "length (sph_packetHistory h') \<le> Suc (length (sph_packetHistory h)) \<and> calls cc (Suc (length (sph_packetHistory h))) h h'"
    (is "?l h' \<and> calls cc ?n h h'")
  using assms(1)
proof cases
  case (step_sent now packet e)
  have "congestion h' = congestion h \<or> (\<exists>a n l b. congestion h' = cc_OnPacketSent cc now a n l b (congestion h))"
    using step_sent by (auto simp: SentPacket_def Let_def split: if_splits) blast+
  then have "calls cc ?n h h'" by (auto intro: calls_none calls_one [where e = "CCSent now _ _ _ _"])
  with step_sent show ?thesis by (auto simp: SentPacket_def Let_def split: if_splits)
next
  case (step_ack now ack n rcvTime e)
  then obtain acked lost where s: "settles acked lost h h'" "calls cc (1 + (length acked + length lost)) h h'"
    using ReceivedAck_effect [OF sph_inv_distinct [OF assms(2)]] by metis
  have "calls cc ?n h h'" by (rule calls_frame [OF s(2)]) (use settles_total [OF s(1)] in auto)
  with settles_length [OF s(1)] show ?thesis by simp
next
  case (step_closePath now f n e)
  then obtain acked lost where s: "settles acked lost h h'" "calls cc (length (sph_packetHistory h)) h h'"
    using ReceivedClosePath_effect [OF sph_inv_distinct [OF assms(2)]] by metis
  have "calls cc ?n h h'" by (rule calls_frame [OF s(2)]) simp_all
  with settles_length [OF s(1)] show ?thesis by simp
next
  case step_inflight
  have "calls cc ?n h h'" unfolding step_inflight by (rule calls_frame [OF SetInflightAsLost_calls]) simp_all
  with requeues_less [OF SetInflightAsLost_requeues [OF sph_inv_distinct [OF assms(2)]]] step_inflight show ?thesis
    by (metis le_Suc_eq)
next
  case (step_alarm now cb)
  then show ?thesis using OnAlarm_effect [OF sph_inv_distinct [OF assms(2)]] OnAlarm_calls [OF sph_inv_distinct [OF assms(2)]]
      requeues_less le_SucI by (metis plus_1_eq_Suc)
qed (auto simp: DequeuePacketForRetransmission_def DuplicatePacket_def GetStopWaitingFrame_def calls_none
    split: list.splits prod.splits)

lemma sph_run:
  assumes "(sph_step cc ^^ n) h0 h" "sph_inv h0" "sph_packetHistory h0 = []"
  shows "sph_inv h \<and> length (sph_packetHistory h) \<le> n \<and> calls cc (n * (n + 1)) h0 h"
  using assms(1)
proof (induction n arbitrary: h)
  case 0
  then show ?case using assms(2,3) by (simp add: calls_none)
next
  case (Suc n)
  from Suc.prems obtain g where g: "(sph_step cc ^^ n) h0 g" "sph_step cc g h" by auto
  note ih = Suc.IH [OF g(1)]
  have s: "sph_inv h" "length (sph_packetHistory h) \<le> Suc n" "calls cc (Suc (length (sph_packetHistory g))) g h"
    using sph_step_inv [OF g(2)] sph_step_calls [OF g(2)] ih by auto
  have "calls cc (Suc n * (Suc n + 1)) h0 h"
    by (rule calls_frame [OF calls_trans [OF _ s(3)]]) (use ih in auto)
  with s show ?case by simp
qed

lemma New_inv: "sph_inv (NewSentPacketHandler rtt c)"
  by (simp add: sph_inv_def NewSentPacketHandler_def)

lemma sph_reachable_inv:
  assumes "(sph_step cc)\<^sup>*\<^sup>* (NewSentPacketHandler rtt c) h"
  shows "sph_inv h"
  using assms by (induction rule: rtranclp_induct) (auto intro: New_inv sph_step_inv)

text \<open>A tracked retransmittable packet always has an alarm.\<close>

definition alarm_ok :: "'c sentPacketHandler \<Rightarrow> bool" where
  "alarm_ok h \<longleftrightarrow> (hasOutstandingRetransmittablePacket h \<longrightarrow> sph_alarm h \<noteq> None)"

lemma update_alarm_ok: "sph_inv h \<Longrightarrow> alarm_ok (updateLossDetectionAlarm cc h)"
  by (auto simp: alarm_ok_def sph_inv_def updateLossDetectionAlarm_def hasOutstandingRetransmittablePacket_def)

lemma alarm_ok_fewer:
  "alarm_ok h \<Longrightarrow> set (sph_packetHistory h') \<subseteq> set (sph_packetHistory h) \<Longrightarrow> sph_alarm h' = sph_alarm h \<Longrightarrow> alarm_ok h'"
  by (auto simp: alarm_ok_def hasOutstandingRetransmittablePacket_def list_ex_iff)

lemma ReceivedAck_alarm:
  assumes "sph_inv h" "alarm_ok h" "ReceivedAck cc now ack n t h = (e, h')"
  shows "alarm_ok h'"
proof -
  have "sph_inv h'" using sph_step_inv step_ack assms by blast
  have "(\<exists>g. sph_packetHistory h' = sph_packetHistory g \<and> sph_alarm h' = sph_alarm (updateLossDetectionAlarm cc g)
      \<and> sph_inv g) \<or> sph_packetHistory h' = sph_packetHistory h \<and> sph_alarm h' = sph_alarm h"
  proof (cases "\<exists>g. h' = (let g = garbageCollectSkippedPackets (updateLossDetectionAlarm cc g)
      in g\<lparr>sph_stopWaitingManager := swm_ReceivedAck ack (sph_stopWaitingManager g)\<rparr>)")
    case True
    then obtain g where g: "sph_packetHistory h' = sph_packetHistory g" "sph_alarm h' = sph_alarm (updateLossDetectionAlarm cc g)"
      "sph_lastSentPacketNumber h' = sph_lastSentPacketNumber g" "lastSentTime h' = lastSentTime g" "bytesInFlight h' = bytesInFlight g"
      by (auto simp: Let_def garbageCollectSkippedPackets_def)
    then have "sph_inv g" using \<open>sph_inv h'\<close> by (simp add: sph_inv_def)
    with g show ?thesis by blast
  next
    case False
    then show ?thesis using assms(3)
      by (auto simp: ReceivedAck_def Let_def maybeUpdateRTT_def split: if_splits option.splits sum.splits)
  qed
  then show ?thesis
    using assms(2) update_alarm_ok by (fastforce simp: alarm_ok_def hasOutstandingRetransmittablePacket_def)
qed

lemma sph_step_alarm:
  assumes "sph_step cc h h'" "sph_inv h" "alarm_ok h"
  shows "alarm_ok h'"
  using assms(1)
proof cases
  case (step_sent now packet e)
  have "sph_inv h'" using step_sent SentPacket_inv assms(2) by blast
  moreover have "(\<exists>g. h' = updateLossDetectionAlarm cc g) \<or> sph_packetHistory h' = sph_packetHistory h \<and> sph_alarm h' = sph_alarm h"
    using step_sent by (auto simp: SentPacket_def Let_def split: if_splits)
  ultimately show ?thesis
    using assms(3) update_alarm_ok by (fastforce simp: alarm_ok_def hasOutstandingRetransmittablePacket_def sph_inv_def)
next
  case (step_ack now ack n rcvTime e)
  then show ?thesis using ReceivedAck_alarm assms by blast
next
  case (step_closePath now f n e)
  then obtain acked lost where "settles acked lost h h'" "sph_alarm h' = sph_alarm h"
    using ReceivedClosePath_effect [OF sph_inv_distinct [OF assms(2)]] by metis
  then show ?thesis by (intro alarm_ok_fewer [OF assms(3)]) (auto simp: settles_def drops_def)
next
  case step_inflight
  have "sph_alarm (fold (lose_packet cc) ps g) = sph_alarm g" for ps and g :: "'a sentPacketHandler"
    by (induction ps arbitrary: g) (simp_all add: lose_packet_def queuePacketForRetransmission_def)
  then have "sph_alarm h' = sph_alarm h" by (simp add: step_inflight SetInflightAsLost_def Let_def count_losses_def)
  then show ?thesis
    using SetInflightAsLost_requeues [OF sph_inv_distinct [OF assms(2)], of cc] step_inflight
    by (intro alarm_ok_fewer [OF assms(3)]) (auto simp: requeues_def drops_def)
next
  case (step_alarm now cb)
  have i: "sph_inv h'" using sph_step_inv assms(1,2) by blast
  show ?thesis
  proof (cases "hasOutstandingRetransmittablePacket h")
    case True
    then obtain g where "h' = updateLossDetectionAlarm cc g" unfolding step_alarm OnAlarm_def by simp
    with i update_alarm_ok show ?thesis by (fastforce simp: sph_inv_def)
  qed (simp add: step_alarm OnAlarm_def alarm_ok_def hasOutstandingRetransmittablePacket_def)
qed (use assms(3) in \<open>auto simp: DequeuePacketForRetransmission_def DuplicatePacket_def GetStopWaitingFrame_def alarm_ok_def
    hasOutstandingRetransmittablePacket_def split: list.splits prod.splits\<close>)

subsection \<open>Properties\<close>

lemma AcksPacket_iff:
  "AcksPacket f n \<longleftrightarrow> ack_LowestAcked f \<le> n \<and> n \<le> ack_LargestAcked f
     \<and> (rev (ack_AckRanges f) = [] \<or> in_some_range n (rev (ack_AckRanges f)))"
  by (auto simp: AcksPacket_def HasMissingRanges_def in_some_range_iff not_less)

lemma parsed_newly_acked:
  assumes "ParseAckFrame v r = Inr (ack, r')" "sph_inv h"
  shows "determineNewlyAckedPackets ack h =
    Inr (filter (\<lambda>p. AcksPacket ack (pkt_PacketNumber p)) (sph_packetHistory h))"
proof -
  have "asc_ranges (rev (ack_AckRanges ack)) \<and> (ack_AckRanges ack \<noteq> [] \<longrightarrow> Last (hd (ack_AckRanges ack)) = ack_LargestAcked ack)"
  proof (cases "ack_AckRanges ack")
    case (Cons r0 rs)
    then show ?thesis using ParseAckFrame_sorted [OF assms(1)] sorted_ranges_asc [of r0 rs] by simp
  qed (simp add: asc_ranges_def)
  then show ?thesis using assms(2)
    by (simp add: determineNewlyAckedPackets_def newly_acked_filter AcksPacket_iff sph_inv_def last_rev)
qed

lemma ignored_ack:
  assumes "sph_inv h" "ack_LargestAcked ack \<le> largestInOrderAcked h" "p \<in> set (sph_packetHistory h)"
  shows "\<not> AcksPacket ack (pkt_PacketNumber p)"
proof -
  obtain f fs where f: "sph_packetHistory h = f # fs" using assms(3) by (cases "sph_packetHistory h") auto
  then have n: "0 < pkt_PacketNumber f" "pkt_PacketNumber f \<le> pkt_PacketNumber p"
    using assms(1,3) by (auto simp: sph_inv_def)
  have "unat (ack_LargestAcked ack) \<le> unat (pkt_PacketNumber f) - 1"
    using assms(2) f n(1) by (simp add: largestInOrderAcked_def word_le_nat_alt u64_pred word_less_nat_alt)
  then have "ack_LargestAcked ack < pkt_PacketNumber p"
    using n by (simp add: word_less_nat_alt word_le_nat_alt)
  then show ?thesis by (simp add: AcksPacket_def)
qed

lemma filter_not_mset: "mset (filter P xs) + mset (filter (\<lambda>x. \<not> P x) xs) = mset xs"
  by (simp flip: multiset_partition)

text \<open>
  C3: An ACK frame that arrives from the wire and is accepted settles exactly the packets it
  acknowledges: of the tracked packets, those it acknowledges are forgotten, and each of the others is
  either still tracked or now waits at the end of the retransmission queue. No packet is dropped, and
  only packets up to the largest acknowledged one are declared lost.
\<close>

theorem ack_settles_packets:
  assumes "(sph_step cc)\<^sup>*\<^sup>* (NewSentPacketHandler rtt c) h"
    "ParseAckFrame v r = Inr (ack, r')" "ReceivedAck cc now ack n t h = (None, h')"
  shows "\<exists>lost. retransmissionQueue h' = retransmissionQueue h @ lost
    \<and> mset (sph_packetHistory h') + mset lost
        = mset (filter (\<lambda>p. \<not> AcksPacket ack (pkt_PacketNumber p)) (sph_packetHistory h))
    \<and> (\<forall>p \<in> set lost. pkt_PacketNumber p \<le> ack_LargestAcked ack)"
proof -
  have i: "sph_inv h" by (rule sph_reachable_inv [OF assms(1)])
  note d = sph_inv_distinct [OF i]
  obtain acked lost where s: "settles acked lost h h'" "\<forall>p \<in> set lost. pkt_PacketNumber p \<le> ack_LargestAcked ack"
    and a: "if ack_LargestAcked ack \<le> largestInOrderAcked h then acked = [] \<and> lost = []
            else determineNewlyAckedPackets ack h = Inr acked"
    using ReceivedAck_effect [OF d assms(3)] by auto
  have "acked = filter (\<lambda>p. AcksPacket ack (pkt_PacketNumber p)) (sph_packetHistory h)"
    using a parsed_newly_acked [OF assms(2) i] ignored_ack [OF i] by (auto simp: filter_empty_conv split: if_splits)
  moreover have "mset (sph_packetHistory h') + mset acked + mset lost = mset (sph_packetHistory h)"
    by (rule settles_mset [OF s(1) d])
  ultimately have "mset (sph_packetHistory h') + mset lost
      = mset (filter (\<lambda>p. \<not> AcksPacket ack (pkt_PacketNumber p)) (sph_packetHistory h))"
    using filter_not_mset [of "\<lambda>p. AcksPacket ack (pkt_PacketNumber p)" "sph_packetHistory h"]
    by (metis (no_types, lifting) add.assoc add.commute add_left_cancel)
  with s show ?thesis by (auto simp: settles_def)
qed

text \<open>
  C9: In every run of the handler the tracked packets ascend strictly in their numbers and were sent,
  \<open>bytesInFlight\<close> is the sum of their lengths, and as long as a retransmittable packet is tracked the
  loss detection alarm is set.
\<close>

theorem sent_packets_tracked:
  assumes "(sph_step cc)\<^sup>*\<^sup>* (NewSentPacketHandler rtt c) h"
  shows "sorted_wrt (<) (map pkt_PacketNumber (sph_packetHistory h))
    \<and> list_all (\<lambda>p. pkt_PacketNumber p \<le> sph_lastSentPacketNumber h) (sph_packetHistory h)
    \<and> bytesInFlight h = sum_list (map pkt_Length (sph_packetHistory h))
    \<and> (hasOutstandingRetransmittablePacket h \<longrightarrow> GetAlarmTimeout h \<noteq> None)"
proof -
  have "sph_inv h \<and> alarm_ok h"
    using assms
  proof (induction rule: rtranclp_induct)
    case base
    show ?case by (simp add: sph_inv_def alarm_ok_def NewSentPacketHandler_def hasOutstandingRetransmittablePacket_def)
  next
    case (step g h)
    then show ?case using sph_step_inv sph_step_alarm by blast
  qed
  then show ?thesis by (simp add: sph_inv_def alarm_ok_def GetAlarmTimeout_def list_all_iff)
qed

text \<open>
  C13: When the alarm goes off with a retransmittable packet outstanding and no early loss pending, at
  least one tracked packet moves to the retransmission queue: the last one for a tail loss probe, all of
  them when the path is suspected to have failed, and the two oldest for a retransmission timeout. The
  next call of \<open>DequeuePacketForRetransmission\<close> then has a packet to return.
\<close>

theorem OnAlarm_progress:
  assumes "(sph_step cc)\<^sup>*\<^sup>* (NewSentPacketHandler rtt c) h" "hasOutstandingRetransmittablePacket h" "lossTime h = None"
  shows "\<exists>ps. ps \<noteq> [] \<and> ps = (if tlpCount h < maxTailLossProbes then [last (sph_packetHistory h)]
        else if (case cb of None \<Rightarrow> False | Some f \<Rightarrow> f (lastSentTime h)) then sph_packetHistory h
        else take 2 (sph_packetHistory h))
    \<and> retransmissionQueue (OnAlarm cc now cb h) = retransmissionQueue h @ ps
    \<and> sph_packetHistory (OnAlarm cc now cb h) = filter (\<lambda>p. p \<notin> set ps) (sph_packetHistory h)
    \<and> fst (DequeuePacketForRetransmission (OnAlarm cc now cb h)) \<noteq> None"
proof -
  have "requeues (alarm_packets cb h) h (OnAlarm cc now cb h)"
    by (rule OnAlarm_requeues [OF sph_inv_distinct [OF sph_reachable_inv [OF assms(1)]] assms(2,3)])
  moreover have "alarm_packets cb h \<noteq> []"
    using assms(2) by (auto simp: alarm_packets_def hasOutstandingRetransmittablePacket_def)
  ultimately show ?thesis
    by (intro exI [of _ "alarm_packets cb h"])
      (auto simp: requeues_def drops_def alarm_packets_def DequeuePacketForRetransmission_def split: list.splits)
qed

text \<open>A run that sends three packets with a PING frame, for the witnesses.\<close>

definition ping_packet :: "PacketNumber \<Rightarrow> Packet" where
  "ping_packet n = \<lparr>pkt_PacketNumber = n, pkt_Frames = [PingF PingFrame], pkt_Length = 100,
     pkt_EncryptionLevel = EncryptionForwardSecure, pkt_SendTime = None, pkt_NeedRetrans = True\<rparr>"

definition ping_algorithm :: "cubicSender option SendAlgorithm" where
  "ping_algorithm = cubic_algorithm (\<lambda>_. 0)"

definition ping_start :: "cubicSender option sentPacketHandler" where
  "ping_start = NewSentPacketHandler NewRTTStats
     (Some (NewCubicSender False InitialCongestionWindow DefaultMaxCongestionWindow))"

definition ping_sent :: "PacketNumber \<Rightarrow> cubicSender option sentPacketHandler \<Rightarrow> cubicSender option sentPacketHandler" where
  "ping_sent n h = snd (SentPacket ping_algorithm (10 * uint n) (ping_packet n) h)"

definition ping_run :: "cubicSender option sentPacketHandler" where
  "ping_run = ping_sent 3 (ping_sent 2 (ping_sent 1 ping_start))"

lemma ping_sent_step: "sph_step ping_algorithm h (ping_sent n h)"
  unfolding ping_sent_def by (rule step_sent) (rule prod.collapse [symmetric])

lemma ping_run_steps: "(sph_step ping_algorithm ^^ 3) ping_start ping_run"
proof -
  have "(sph_step ping_algorithm ^^ Suc 0) ping_start (ping_sent 1 ping_start)"
    by (rule relpowp_Suc_I [where y = ping_start]) (simp_all add: ping_sent_step)
  from relpowp_Suc_I [OF relpowp_Suc_I [OF this ping_sent_step [of _ 2]] ping_sent_step [of _ 3]]
  show ?thesis by (simp add: ping_run_def numeral_3_eq_3)
qed

lemma ping_run_reachable: "(sph_step ping_algorithm)\<^sup>*\<^sup>* ping_start ping_run"
  using ping_run_steps by (rule relpowp_imp_rtranclp)

lemma alarm_other_fields [simp]:
  "skippedPackets (updateLossDetectionAlarm cc h) = skippedPackets h"
  "largestReceivedPacketWithAck (updateLossDetectionAlarm cc h) = largestReceivedPacketWithAck h"
  "lossTime (updateLossDetectionAlarm cc h) = lossTime h"
  "tlpCount (updateLossDetectionAlarm cc h) = tlpCount h"
  by (simp_all add: updateLossDetectionAlarm_def)

lemma ping_sent_fields:
  assumes "\<not> n \<le> sph_lastSentPacketNumber h" "unat n = Suc (unat (sph_lastSentPacketNumber h))"
    "\<not> of_nat (length (retransmissionQueue h) + length (sph_packetHistory h) + 1) > MaxTrackedSentPackets"
  shows "sph_packetHistory (ping_sent n h) = sph_packetHistory h @ [(ping_packet n)\<lparr>pkt_SendTime := Some (10 * uint n)\<rparr>]"
    "retransmissionQueue (ping_sent n h) = retransmissionQueue h" "sph_lastSentPacketNumber (ping_sent n h) = n"
    "skippedPackets (ping_sent n h) = skippedPackets h"
    "largestReceivedPacketWithAck (ping_sent n h) = largestReceivedPacketWithAck h"
    "lossTime (ping_sent n h) = lossTime h" "tlpCount (ping_sent n h) = tlpCount h" "lastSentTime (ping_sent n h) = Some (10 * uint n)"
  using assms by (simp_all add: ping_sent_def SentPacket_def ping_packet_def skipped_between_def
      stripNonRetransmittableFrames_def Let_def)

lemma ping_start_fields:
  "sph_packetHistory ping_start = []" "retransmissionQueue ping_start = []" "sph_lastSentPacketNumber ping_start = 0"
  "skippedPackets ping_start = []" "largestReceivedPacketWithAck ping_start = 0" "lossTime ping_start = None" "tlpCount ping_start = 0"
  by (simp_all add: ping_start_def NewSentPacketHandler_def)

lemma ping_run_fields:
  "sph_packetHistory ping_run = map (\<lambda>n. (ping_packet n)\<lparr>pkt_SendTime := Some (10 * uint n)\<rparr>) [1, 2, 3]"
  "retransmissionQueue ping_run = []" "sph_lastSentPacketNumber ping_run = 3" "skippedPackets ping_run = []"
  "largestReceivedPacketWithAck ping_run = 0" "lossTime ping_run = None" "tlpCount ping_run = 0" "lastSentTime ping_run = Some 30"
proof -
  note f = ping_start_fields ping_sent_fields [of 1 ping_start] ping_sent_fields [of 2 "ping_sent 1 ping_start"]
    ping_sent_fields [of 3 "ping_sent 2 (ping_sent 1 ping_start)"]
  show "sph_packetHistory ping_run = map (\<lambda>n. (ping_packet n)\<lparr>pkt_SendTime := Some (10 * uint n)\<rparr>) [1, 2, 3]"
    "retransmissionQueue ping_run = []" "sph_lastSentPacketNumber ping_run = 3" "skippedPackets ping_run = []"
    "largestReceivedPacketWithAck ping_run = 0" "lossTime ping_run = None" "tlpCount ping_run = 0" "lastSentTime ping_run = Some 30"
    by (simp_all add: ping_run_def f MaxTrackedSentPackets_def word_le_nat_alt)
qed

lemma ping_run_outstanding: "hasOutstandingRetransmittablePacket ping_run"
  by (simp add: hasOutstandingRetransmittablePacket_def ping_run_fields IsRetransmittable_def ping_packet_def)

theorem ack_settles_packets_witness:
  "\<exists>ack h' lost. ParseAckFrame 39 [0x60, 3, 0, 5, 1, 1, 1, 1, 0] = Inr (ack, [])
     \<and> ReceivedAck ping_algorithm 40 ack 1 40 ping_run = (None, h') \<and> retransmissionQueue h' = lost
     \<and> mset (map pkt_PacketNumber (sph_packetHistory h')) + mset (map pkt_PacketNumber lost) = {#2#}"
proof -
  let ?ack = "\<lparr>ack_PathID = 0, ack_LargestAcked = 3, ack_LowestAcked = 1,
      ack_AckRanges = [\<lparr>First = 3, Last = 3\<rparr>, \<lparr>First = 1, Last = 1\<rparr>],
      ack_PacketReceivedTime = None, ack_DelayTime = 5000\<rparr>"
  have p: "ParseAckFrame 39 [0x60, 3, 0, 5, 1, 1, 1, 1, 0] = Inr (?ack, [])" by code_simp
  have "fst (ReceivedAck ping_algorithm 40 ?ack 1 40 ping_run) = None"
    by (simp add: ReceivedAck_def Let_def ping_run_fields largestInOrderAcked_def skippedPacketsAcked_def maybeUpdateRTT_def
        determineNewlyAckedPackets_def bindE_def ping_packet_def)
  then obtain h' where h': "ReceivedAck ping_algorithm 40 ?ack 1 40 ping_run = (None, h')" by (metis prod.collapse)
  have f: "filter (\<lambda>p. \<not> AcksPacket ?ack (pkt_PacketNumber p)) (sph_packetHistory ping_run)
      = [(ping_packet 2)\<lparr>pkt_SendTime := Some 20\<rparr>]"
    by (simp add: ping_run_fields AcksPacket_def HasMissingRanges_def ping_packet_def word_le_nat_alt)
  obtain lost where l: "retransmissionQueue h' = lost"
    and m: "mset (sph_packetHistory h') + mset lost = {#(ping_packet 2)\<lparr>pkt_SendTime := Some 20\<rparr>#}"
    using ack_settles_packets [OF ping_run_reachable [unfolded ping_start_def] p h'] unfolding f by (auto simp: ping_run_fields)
  from arg_cong [OF m, of "image_mset pkt_PacketNumber"]
  have "mset (map pkt_PacketNumber (sph_packetHistory h')) + mset (map pkt_PacketNumber lost) = {#2#}"
    by (simp add: ping_packet_def)
  with p h' l show ?thesis by blast
qed

theorem sent_packets_tracked_witness:
  "(sph_step ping_algorithm)\<^sup>*\<^sup>* ping_start ping_run \<and> bytesInFlight ping_run = 300 \<and> GetAlarmTimeout ping_run \<noteq> None"
  using sent_packets_tracked [OF ping_run_reachable [unfolded ping_start_def]] ping_run_reachable ping_run_outstanding
  by (simp add: ping_run_fields ping_packet_def)

theorem OnAlarm_progress_witness:
  "map pkt_PacketNumber (retransmissionQueue (OnAlarm ping_algorithm 50 None ping_run)) = [3]"
  using OnAlarm_progress [OF ping_run_reachable [unfolded ping_start_def] ping_run_outstanding, of None 50]
  by (simp add: ping_run_fields ping_packet_def maxTailLossProbes_def)

text \<open>
  C23: The retransmission timeout lies between 200 ms and 60 s after the last sent packet. It doubles
  with every timeout up to the maximum as long as the shift fits into 64 bits; from the 64th timeout in a
  row on the shift leaves zero, and the alarm falls back to 200 ms.
\<close>

theorem rto_alarm_bounds:
  assumes "sph_packetHistory h \<noteq> []" "lossTime h = None" "smoothedRTT (sph_rttStats h) = 0 \<or> \<not> tlpCount h < maxTailLossProbes"
    "lastSentTime h = Some t" "rto = max (if cc_RetransmissionDelay cc (sph_rttStats h) (congestion h) = 0 then 500 * Millisecond
      else cc_RetransmissionDelay cc (sph_rttStats h) (congestion h)) (200 * Millisecond)"
  shows "\<exists>a. GetAlarmTimeout (updateLossDetectionAlarm cc h) = Some (t + a)
    \<and> 200 * Millisecond \<le> a \<and> a \<le> 60 * Second
    \<and> (rto * 2 ^ unat (rtoCount h) < 2 ^ 63 \<longrightarrow> a = min (rto * 2 ^ unat (rtoCount h)) (60 * Second))
    \<and> (64 \<le> rtoCount h \<longrightarrow> a = 200 * Millisecond)"
proof -
  let ?a = "max (computeRTOTimeout cc h) minRetransmissionTime"
  have c: "computeRTOTimeout cc h = min (wrap64 (rto * 2 ^ unat (rtoCount h))) (60 * Second)"
    by (simp add: computeRTOTimeout_def Let_def assms(5) defaultRTOTimeout_def minRTOTimeout_def maxRTOTimeout_def)
  have r: "200 * Millisecond \<le> rto" by (simp add: assms(5))
  have a: "GetAlarmTimeout (updateLossDetectionAlarm cc h) = Some (t + ?a)"
    using assms(1-4) by (auto simp: GetAlarmTimeout_def updateLossDetectionAlarm_def)
  have b: "200 * Millisecond \<le> ?a" "?a \<le> 60 * Second"
    by (simp_all add: c minRetransmissionTime_def Millisecond_def Second_def Microsecond_def)
  have d: "?a = min (rto * 2 ^ unat (rtoCount h)) (60 * Second)" if l: "rto * 2 ^ unat (rtoCount h) < 2 ^ 63"
  proof -
    have ge: "200 * Millisecond \<le> rto * 2 ^ unat (rtoCount h)"
      using r mult_mono [of "200 * Millisecond" rto 1 "2 ^ unat (rtoCount h)"] by (simp add: Millisecond_def Microsecond_def)
    then have "wrap64 (rto * 2 ^ unat (rtoCount h)) = rto * 2 ^ unat (rtoCount h)"
      using l by (intro wrap64_id) (simp_all add: Millisecond_def Microsecond_def)
    then show ?thesis using ge by (simp add: c minRetransmissionTime_def Millisecond_def Second_def Microsecond_def)
  qed
  have "?a = 200 * Millisecond" if n: "64 \<le> rtoCount h"
  proof -
    have "64 \<le> unat (rtoCount h)" using n by (simp add: word_le_nat_alt)
    then have "2 ^ 64 dvd rto * 2 ^ unat (rtoCount h)" 
      using le_imp_power_dvd [of 64 "unat (rtoCount h)" "2 :: int"] dvd_mult by blast
    then have "wrap64 (rto * 2 ^ unat (rtoCount h)) = 0" by (auto simp: wrap64_def elim!: dvdE)
    then show ?thesis by (simp add: c minRetransmissionTime_def Millisecond_def Second_def Microsecond_def)
  qed
  with a b d show ?thesis by blast
qed

theorem rto_alarm_bounds_witness:
  "\<exists>a. GetAlarmTimeout (updateLossDetectionAlarm ping_algorithm (ping_run\<lparr>tlpCount := 2, rtoCount := 64\<rparr>)) = Some (30 + a)
     \<and> a = 200 * Millisecond"
  using rto_alarm_bounds [of "ping_run\<lparr>tlpCount := 2, rtoCount := 64\<rparr>" 30 _ ping_algorithm]
  by (auto simp: ping_run_fields maxTailLossProbes_def)



end
