(* ===== verification/Spec2Isabelle.thy ===== *)
theory Spec2Isabelle
  imports Crypto_Setup Received_Handler Stream_Sorter Flow_Control Sent_Handler
begin

text \<open>
  A verification development of the multipath QUIC library of this repository, the Go package under
  \<open>src/quic-go43DMAP\<close>: its wire format, its packet protection and handshake messages, the tracking of
  received and sent packets, the reassembly of streams, flow control and congestion control.

  \<^bold>\<open>The program.\<close> A packet is a public header followed by an encrypted payload of frames. The packer
  writes frames, seals them and prepends the header; the unpacker reads the header, opens the payload and
  parses the frames. STREAM frames go through the frame sorter of their stream, which puts the bytes in
  order, and through flow control, which bounds them. For every path a received packet handler records
  which packets arrived and builds ACK frames; the sent packet handler of the peer consumes them, updates
  the RTT statistics, tells its congestion controller what was acknowledged and lost, and queues lost
  packets for retransmission.

  \<^bold>\<open>Theories and sources\<close> (paths under \<open>src/quic-go43DMAP\<close>).

  \<^item> \<open>Prelude\<close>: widths of integers, times and durations, byte readers, errors and \<open>error + 'a\<close> results.
  \<^item> \<open>Byte_Order\<close>, \<open>UFloat16\<close> (\<open>internal/utils\<close>): reading and writing integers in both byte orders, and
    the 16-bit floats of ACK delays.
  \<^item> \<open>Packet_Number\<close> (\<open>internal/protocol\<close>, \<open>packet_number_generator.go\<close>): truncated packet numbers and
    their recovery, version negotiation, the generator.
  \<^item> \<open>Wire_Simple\<close>, \<open>Wire_Stream\<close>, \<open>Wire_Ack\<close>, \<open>Ack_Codec\<close>, \<open>Wire_Header\<close> (\<open>internal/wire\<close>): every frame
    and the public header, with writers, parsers and length computations. The round trips are stated once
    in a locale for codecs and interpreted for each frame.
  \<^item> \<open>Null_AEAD\<close> (\<open>internal/crypto\<close>): the FNV based protection of the first packets.
  \<^item> \<open>Unpacker\<close> (\<open>packet_unpacker.go\<close>, \<open>packet_packer.go\<close>): a whole packet, sealed and opened again, over an
    abstract AEAD.
  \<^item> \<open>Handshake\<close>, \<open>Conn_Params\<close>, \<open>Crypto_Setup\<close> (\<open>internal/handshake\<close>): tagged messages, the negotiation
    of connection parameters, and the choice of encryption level when packets are sealed and opened.
  \<^item> \<open>Received_History\<close>, \<open>Received_Handler\<close> (\<open>ackhandler\<close>): the interval list of received packet numbers,
    which refines a set of numbers, and the ACK frames built from it.
  \<^item> \<open>Stream_Sorter\<close> (\<open>stream_frame_sorter.go\<close>): gaps and queued frames of a stream.
  \<^item> \<open>Flow_Control\<close> (\<open>internal/flowcontrol\<close>): the controllers of streams and connection, and a system of two
    endpoints joined by a network that delays, reorders, repeats and drops.
  \<^item> \<open>Go_Float\<close>, \<open>Rtt_Stats\<close>, \<open>Send_Algorithm\<close>, \<open>Cubic_Sender\<close> (\<open>congestion\<close>): floats as rationals rounded
    after each operation, RTT smoothing, the interface of a congestion controller and its contract as a
    locale, and Cubic, which fulfils it.
  \<^item> \<open>Sent_Handler\<close> (\<open>ackhandler/sent_packet_handler.go\<close> and the files beside it): sent packets, ACKs,
    losses, the alarm and retransmissions, over any congestion controller.

  \<^bold>\<open>Conventions.\<close> Structs are records, enums are datatypes, unsigned integers are words of their width,
  and durations and times are integers with the 64-bit wrap-around written out where it can matter. The
  zero time is \<open>None\<close>. A result with an error is \<open>error + 'a\<close>; an operation that changes the state and may
  fail returns the error beside the new state. Panics are errors. The texts of error messages are not kept.
  Linked lists and slices are lists, maps are partial functions or association lists.
  The clock, random numbers, AEADs and the cube root are arguments.

  \<^bold>\<open>What is shown.\<close> Frames, headers, messages and packets survive a round trip, and parsers accept only
  well-formed ACK ranges. The receive history represents exactly the set of received numbers, ACK frames
  report exactly it, and a retransmittable packet is acknowledged in time. An ACK frame read from the wire
  settles exactly the sent packets it names; every other packet stays tracked or is queued again; the bytes in
  flight always add up, and an outstanding packet always has an alarm that leads to a retransmission. The
  sorter delivers the bytes of the stream in order. A sender that respects its windows is never accused
  of a violation. Encryption is never downgraded. The congestion window stays within its bounds, also when
  the sent packet handler drives the controller. Some lemmas prove flaws of the code, such as windows that
  shrink, an overflow of the retransmission backoff, or a frame that is cut but keeps its FIN bit.

  \<^bold>\<open>Bounds.\<close> Loops are structural recursions or have a termination proof. The loop of Cubic that could run on is a
  \<open>partial_function (option)\<close>, and it is proved to return for runs of up to \<open>2 ^ 61\<close> calls of the
  controller; its counters have 64 bits. A run of \<open>n\<close> operations of the sent packet handler makes at most
  \<open>n * (n + 1)\<close> calls, hence the bound of \<open>2 ^ 29\<close> operations there.

  \<^bold>\<open>Not modelled.\<close> Sessions, client, server, sockets and the path manager are event loops over
  goroutines, channels and timers. Streams and the stream framer block on locks shared by goroutines, and the
  streams map waits on condition variables and holds those streams. The scheduler and the OLIA controller read
  the state of all paths through shared pointers. The utility controller of 4D-MAP computes with \<open>math.Pow\<close> on
  floats, tests for NaN, and exchanges files with an external optimiser. Key exchange, certificates and AES-GCM
  call libraries outside the repository. The statistics of the sent packet handler that divide floats, the
  choice of frames in the packer, HTTP/2, the command line tools, and the lal media server with its
  vendored copies are left out as well.
\<close>

end
